(* ===== verification/Prelude.thy ===== *)
theory Prelude
  imports Main "HOL-Library.Word"
begin

text \<open>
  Shared vocabulary of the development: the machine types of the Rust sources, the three ways a
  Rust call can end (a value, an \<open>io::Error\<close>, a panic), big-endian integer encoding as the
  \<open>bytes\<close> crate writes it, strings as UTF-8 byte sequences, and the generic list lemmas the
  component proofs rely on.
\<close>

unbundle bit_operations_syntax

section \<open>Machine types\<close>

type_synonym u8 = "8 word"
type_synonym u16 = "16 word"
type_synonym u32 = "32 word"
type_synonym u64 = "64 word"
type_synonym u128 = "128 word"
type_synonym bytes = "u8 list"

named_theorems codec_simps \<open>equations that evaluate encoders and decoders\<close>
named_theorems res_simps \<open>equations of the result type\<close>

section \<open>Results: a value, an error, a panic\<close>

text \<open>
  \<open>io::ErrorKind\<close> with the kinds the sources construct, and \<open>io::Error\<close> as a kind with the
  message text.
\<close>

datatype error_kind =
    Other | UnexpectedEof | InvalidData | WriteZero | ConnectionReset | BrokenPipe

datatype io_error = IoError (kind: error_kind) (message: string)

definition new_error :: "string \<Rightarrow> io_error" where
  "new_error msg = IoError Other (''Error: '' @ msg)"

datatype 'a res = Ok 'a | Err io_error | Panic

primrec bind_res :: "'a res \<Rightarrow> ('a \<Rightarrow> 'b res) \<Rightarrow> 'b res" where
  "bind_res (Ok x) f = f x"
| "bind_res (Err e) f = Err e"
| "bind_res Panic f = Panic"

text \<open>\<open>unwrap\<close> of an option.\<close>

fun unwrap :: "'a option \<Rightarrow> 'a res" where
  "unwrap (Some a) = Ok a"
| "unwrap None = Panic"

lemma bind_res_Ok_iff [res_simps]:
  "bind_res m f = Ok y \<longleftrightarrow> (\<exists>x. m = Ok x \<and> f x = Ok y)"
  by (cases m) auto

lemma bind_res_Panic_iff [res_simps]:
  "bind_res m f = Panic \<longleftrightarrow> m = Panic \<or> (\<exists>x. m = Ok x \<and> f x = Panic)"
  by (cases m) auto

lemma bind_res_Err_iff [res_simps]:
  "bind_res m f = Err e \<longleftrightarrow> m = Err e \<or> (\<exists>x. m = Ok x \<and> f x = Err e)"
  by (cases m) auto

lemma map_res_Ok_iff [res_simps]: "map_res f m = Ok y \<longleftrightarrow> (\<exists>x. m = Ok x \<and> y = f x)"
  by (cases m) auto

lemma map_res_Panic_iff [res_simps]: "map_res f m = Panic \<longleftrightarrow> m = Panic"
  by (cases m) auto

lemma bind_res_assoc: "bind_res (bind_res m f) g = bind_res m (\<lambda>x. bind_res (f x) g)"
  by (cases m) auto

section \<open>Big-endian integers\<close>

text \<open>
  \<open>to_be n x\<close> is the big-endian encoding of \<open>x\<close> on \<open>n\<close> bytes (\<open>to_be_bytes\<close>,
  \<open>BufMut::put_u16\<close> and so on, on the value of the integer), \<open>of_be\<close> the value of a big-endian
  byte string (\<open>from_be_bytes\<close>, \<open>Buf::get_u16\<close>).
\<close>

fun to_be :: "nat \<Rightarrow> nat \<Rightarrow> bytes" where
  "to_be 0 x = []"
| "to_be (Suc n) x = of_nat (x div 256 ^ n) # to_be n x"

fun of_be_acc :: "nat \<Rightarrow> bytes \<Rightarrow> nat" where
  "of_be_acc a [] = a"
| "of_be_acc a (b # bs) = of_be_acc (a * 256 + unat b) bs"

definition of_be :: "bytes \<Rightarrow> nat" where
  "of_be bs = of_be_acc 0 bs"

lemma length_to_be [simp]: "length (to_be n x) = n"
  by (induction n) auto

lemma unat_of_nat_u8: "unat (of_nat n :: u8) = n mod 256"
  by (simp add: unat_of_nat)

lemma unat_u8_less [simp]: "unat (b :: u8) < 256"
proof -
  have "unat b < 2 ^ LENGTH(8)" by (rule unsigned_less)
  then show ?thesis by simp
qed

lemma unat_u8_le [simp]: "unat (b :: u8) \<le> 255"
  using unat_u8_less [of b] by linarith

lemma unat_u16_less [simp]: "unat (w :: u16) < 65536"
proof -
  have "unat w < 2 ^ LENGTH(16)" by (rule unsigned_less)
  then show ?thesis by simp
qed

lemma mod_mult_div: "0 < a \<Longrightarrow> x mod (a * c) div a = x div a mod (c :: nat)"
  by (simp add: mod_mult2_eq)

lemma of_be_acc_to_be: "of_be_acc a (to_be n x) = a * 256 ^ n + x mod 256 ^ n"
proof (induction n arbitrary: a)
  case 0
  then show ?case by simp
next
  case (Suc n)
  have "x mod 256 ^ Suc n = 256 ^ n * (x div 256 ^ n mod 256) + x mod 256 ^ n"
    by (metis mod_mult2_eq mult.commute power_Suc)
  with Suc show ?case
    by (simp add: unat_of_nat_u8 algebra_simps)
qed

lemma of_be_to_be [codec_simps]: "of_be (to_be n x) = x mod 256 ^ n"
  by (simp add: of_be_def of_be_acc_to_be)

lemma of_be_acc_split: "of_be_acc a bs = a * 256 ^ length bs + of_be_acc 0 bs"
proof (induction bs arbitrary: a)
  case Nil
  then show ?case by simp
next
  case (Cons b bs)
  show ?case
    using Cons [of "a * 256 + unat b"] Cons [of "unat b"] by (simp add: algebra_simps)
qed

lemma of_be_Nil [simp]: "of_be [] = 0"
  by (simp add: of_be_def)

lemma of_be_Cons: "of_be (b # bs) = unat b * 256 ^ length bs + of_be bs"
  using of_be_acc_split [of "unat b" bs] by (simp add: of_be_def)

lemma of_be_less: "of_be bs < 256 ^ length bs"
proof (induction bs)
  case Nil
  then show ?case by simp
next
  case (Cons b bs)
  have "unat b * 256 ^ length bs \<le> 255 * 256 ^ length bs"
    by (intro mult_right_mono) simp_all
  with Cons have "unat b * 256 ^ length bs + of_be bs < 255 * 256 ^ length bs + 256 ^ length bs"
    by linarith
  then show ?case by (simp add: of_be_Cons)
qed

lemma to_be_mod: "n \<le> m \<Longrightarrow> to_be n (x mod 256 ^ m) = to_be n x"
proof (induction n)
  case 0
  then show ?case by simp
next
  case (Suc n)
  then obtain k where m: "m = n + Suc k" by (metis add_Suc_shift le_Suc_ex)
  have "x mod 256 ^ m div 256 ^ n mod 256 = x div 256 ^ n mod 256 ^ Suc k mod 256"
    using mod_mult_div [of "256 ^ n" x "256 ^ Suc k"] by (simp only: m power_add) simp
  also have "\<dots> = x div 256 ^ n mod 256"
    by (simp add: mod_mod_cancel)
  finally have "(of_nat (x mod 256 ^ m div 256 ^ n) :: u8) = of_nat (x div 256 ^ n)"
    by (simp add: word_of_nat_eq_iff take_bit_eq_mod)
  with Suc show ?case by simp
qed

lemma to_be_of_be [codec_simps]: "to_be (length bs) (of_be bs) = bs"
proof (induction bs)
  case Nil
  then show ?case by simp
next
  case (Cons b bs)
  have head: "(of_nat (of_be (b # bs) div 256 ^ length bs) :: u8) = b"
    using of_be_less [of bs] by (simp add: of_be_Cons)
  have "to_be (length bs) (of_be (b # bs)) = to_be (length bs) (of_be (b # bs) mod 256 ^ length bs)"
    by (simp add: to_be_mod)
  also have "of_be (b # bs) mod 256 ^ length bs = of_be bs"
    using of_be_less [of bs] by (simp add: of_be_Cons)
  finally show ?case using head Cons by simp
qed

definition put_u16 :: "u16 \<Rightarrow> bytes" where
  "put_u16 w = to_be 2 (unat w)"

definition u16_of_be :: "bytes \<Rightarrow> u16" where
  "u16_of_be bs = of_nat (of_be bs)"

lemma length_put_u16 [simp]: "length (put_u16 w) = 2"
  by (simp add: put_u16_def)

lemma u16_of_be_put_u16 [simp]: "u16_of_be (put_u16 w) = w"
  by (simp add: u16_of_be_def put_u16_def of_be_to_be)

lemma put_u16_of_be [simp]: "length bs = 2 \<Longrightarrow> put_u16 (u16_of_be bs) = bs"
  using of_be_less [of bs] to_be_of_be [of bs]
  by (simp add: put_u16_def u16_of_be_def unat_of_nat)

section \<open>Reading from a buffer\<close>

text \<open>
  \<open>bytes::Buf\<close> on a slice or cursor, given by its remaining bytes: a read past the end panics.
\<close>

fun get_u8 :: "bytes \<Rightarrow> (u8 \<times> bytes) res" where
  "get_u8 [] = Panic"
| "get_u8 (b # bs) = Ok (b, bs)"

definition copy_to_slice :: "nat \<Rightarrow> bytes \<Rightarrow> (bytes \<times> bytes) res" where
  "copy_to_slice n bs = (if n \<le> length bs then Ok (take n bs, drop n bs) else Panic)"

definition get_u16 :: "bytes \<Rightarrow> (u16 \<times> bytes) res" where
  "get_u16 bs = (if 2 \<le> length bs then Ok (u16_of_be (take 2 bs), drop 2 bs) else Panic)"

definition advance :: "nat \<Rightarrow> bytes \<Rightarrow> bytes res" where
  "advance n bs = (if n \<le> length bs then Ok (drop n bs) else Panic)"

lemma get_u16_put_u16 [codec_simps]: "get_u16 (put_u16 w @ r) = Ok (w, r)"
  by (simp add: get_u16_def)

lemma copy_to_slice_append [codec_simps]: "copy_to_slice (length xs) (xs @ r) = Ok (xs, r)"
  by (simp add: copy_to_slice_def)

lemma advance_append [codec_simps]: "advance (length xs) (xs @ r) = Ok r"
  by (simp add: advance_def)

lemma get_u8_Ok_iff [res_simps]: "get_u8 bs = Ok (b, r) \<longleftrightarrow> bs = b # r"
  by (cases bs) auto

lemma get_u16_Ok_iff [res_simps]: "get_u16 bs = Ok (w, r) \<longleftrightarrow> bs = put_u16 w @ r"
proof
  assume "get_u16 bs = Ok (w, r)"
  then have "2 \<le> length bs" "w = u16_of_be (take 2 bs)" "r = drop 2 bs"
    by (auto simp: get_u16_def split: if_splits)
  then show "bs = put_u16 w @ r" by simp
qed (simp add: codec_simps)

lemma copy_to_slice_Ok_iff [res_simps]:
  "copy_to_slice n bs = Ok (xs, r) \<longleftrightarrow> bs = xs @ r \<and> length xs = n"
  by (auto simp: copy_to_slice_def split: if_splits)

lemma get_u8_Panic_iff: "get_u8 bs = Panic \<longleftrightarrow> bs = []"
  by (cases bs) auto

lemma get_u16_not_Err [simp]: "get_u16 bs \<noteq> Err e"
  by (simp add: get_u16_def)

lemma get_u16_Panic_iff: "get_u16 bs = Panic \<longleftrightarrow> length bs < 2"
  by (simp add: get_u16_def)

section \<open>Text\<close>

text \<open>
  A Rust \<open>String\<close> is its UTF-8 byte sequence, held as a list of 8-bit characters.
  \<open>valid_utf8\<close> is the well-formedness check of \<open>String::from_utf8\<close> (the byte ranges of the
  Unicode standard, surrogates and overlong forms excluded).
\<close>

definition as_bytes :: "string \<Rightarrow> bytes" where
  "as_bytes s = map (\<lambda>c. of_nat (of_char c)) s"

definition chars_of :: "bytes \<Rightarrow> string" where
  "chars_of bs = map (\<lambda>b. char_of (unat b)) bs"

definition utf8_cont :: "u8 \<Rightarrow> bool" where
  "utf8_cont b \<longleftrightarrow> 0x80 \<le> b \<and> b \<le> 0xBF"

fun valid_utf8 :: "bytes \<Rightarrow> bool" where
  "valid_utf8 [] = True"
| "valid_utf8 (b # bs) =
     (if b < 0x80 then valid_utf8 bs
      else if 0xC2 \<le> b \<and> b \<le> 0xDF then
        (case bs of c1 # r \<Rightarrow> utf8_cont c1 \<and> valid_utf8 r | _ \<Rightarrow> False)
      else if 0xE0 \<le> b \<and> b \<le> 0xEF then
        (case bs of c1 # c2 # r \<Rightarrow>
           utf8_cont c1 \<and> (b = 0xE0 \<longrightarrow> 0xA0 \<le> c1) \<and> (b = 0xED \<longrightarrow> c1 \<le> 0x9F) \<and>
           utf8_cont c2 \<and> valid_utf8 r
         | _ \<Rightarrow> False)
      else if 0xF0 \<le> b \<and> b \<le> 0xF4 then
        (case bs of c1 # c2 # c3 # r \<Rightarrow>
           utf8_cont c1 \<and> (b = 0xF0 \<longrightarrow> 0x90 \<le> c1) \<and> (b = 0xF4 \<longrightarrow> c1 \<le> 0x8F) \<and>
           utf8_cont c2 \<and> utf8_cont c3 \<and> valid_utf8 r
         | _ \<Rightarrow> False)
      else False)"

definition from_utf8 :: "bytes \<Rightarrow> string option" where
  "from_utf8 bs = (if valid_utf8 bs then Some (chars_of bs) else None)"

definition utf8_string :: "string \<Rightarrow> bool" where
  "utf8_string s \<longleftrightarrow> valid_utf8 (as_bytes s)"

lemma length_as_bytes [simp]: "length (as_bytes s) = length s"
  by (simp add: as_bytes_def)

lemma length_chars_of [simp]: "length (chars_of bs) = length bs"
  by (simp add: chars_of_def)

lemma chars_of_as_bytes [simp]: "chars_of (as_bytes s) = s"
proof -
  have "char_of (unat (of_nat (of_char c) :: u8)) = c" for c
    by (simp add: unat_of_nat_u8)
  then show ?thesis by (simp add: as_bytes_def chars_of_def comp_def map_idI)
qed

lemma as_bytes_chars_of [simp]: "as_bytes (chars_of bs) = bs"
proof -
  have "(of_nat (of_char (char_of (unat b))) :: u8) = b" for b
    by (simp add: of_char_of)
  then show ?thesis by (simp add: as_bytes_def chars_of_def comp_def map_idI)
qed

lemma from_utf8_as_bytes [codec_simps]: "utf8_string s \<Longrightarrow> from_utf8 (as_bytes s) = Some s"
  by (simp add: from_utf8_def utf8_string_def)

lemma from_utf8_Some_iff: "from_utf8 bs = Some s \<longleftrightarrow> utf8_string s \<and> bs = as_bytes s"
  by (auto simp: from_utf8_def utf8_string_def)

text \<open>Formatting of unsigned integers: \<open>{}\<close> and \<open>{:#x}\<close>.\<close>

fun show_dec :: "nat \<Rightarrow> string" where
  "show_dec n = (if n < 10 then [char_of (48 + n)]
     else show_dec (n div 10) @ [char_of (48 + n mod 10)])"

definition hex_digit :: "nat \<Rightarrow> char" where
  "hex_digit d = char_of (if d < 10 then 48 + d else 87 + d)"

fun show_hex_digits :: "nat \<Rightarrow> string" where
  "show_hex_digits n = (if n < 16 then [hex_digit n]
     else show_hex_digits (n div 16) @ [hex_digit (n mod 16)])"

definition show_hex :: "nat \<Rightarrow> string" where
  "show_hex n = ''0x'' @ show_hex_digits n"

declare show_dec.simps [simp del] show_hex_digits.simps [simp del]

end
