(* ===== verification/Codec.thy ===== *)
theory Codec
  imports Prelude
begin

text \<open>
  The contract of a self-delimiting wire format: an encoder, a decoder that returns the unread
  rest, and the values the format can carry. The protocol theories (addresses, Trojan headers and
  packets, gRPC frames) interpret these locales on their own encoders and decoders.
\<close>

fun decode_seq :: "(bytes \<Rightarrow> ('a \<times> bytes) res) \<Rightarrow> nat \<Rightarrow> bytes \<Rightarrow> ('a list \<times> bytes) res" where
  "decode_seq dec 0 bs = Ok ([], bs)"
| "decode_seq dec (Suc n) bs =
     bind_res (dec bs) (\<lambda>(x, r). map_res (\<lambda>(xs, r'). (x # xs, r')) (decode_seq dec n r))"

locale wire_codec =
  fixes enc :: "'a \<Rightarrow> bytes"
    and dec :: "bytes \<Rightarrow> ('a \<times> bytes) res"
    and ok :: "'a \<Rightarrow> bool"
  assumes dec_enc: "ok x \<Longrightarrow> dec (enc x @ r) = Ok (x, r)"
begin

lemma enc_prefix_free:
  assumes "ok x" and "ok y" and "enc x @ r = enc y @ s"
  shows "x = y \<and> r = s"
  by (metis Pair_inject assms dec_enc res.inject(1))

lemma enc_inject: "ok x \<Longrightarrow> ok y \<Longrightarrow> enc x = enc y \<longleftrightarrow> x = y"
  using enc_prefix_free [of x y "[]" "[]"] by auto

lemma decode_seq_enc:
  "(\<And>x. x \<in> set xs \<Longrightarrow> ok x) \<Longrightarrow>
     decode_seq dec (length xs) (concat (map enc xs) @ r) = Ok (xs, r)"
proof (induction xs)
  case Nil
  then show ?case by simp
next
  case (Cons x xs)
  then have "dec (enc x @ (concat (map enc xs) @ r)) = Ok (x, concat (map enc xs) @ r)"
    by (intro dec_enc) simp
  with Cons show ?case by simp
qed

end

locale exact_codec = wire_codec +
  assumes enc_dec: "dec bs = Ok (x, r) \<Longrightarrow> ok x \<and> bs = enc x @ r"
begin

lemma dec_iff: "dec bs = Ok (x, r) \<longleftrightarrow> ok x \<and> bs = enc x @ r"
  using enc_dec dec_enc by blast

lemma dec_consumes: "dec bs = Ok (x, r) \<Longrightarrow> length bs = length (enc x) + length r"
  by (auto dest: enc_dec)

lemma dec_extend: "dec bs = Ok (x, r) \<Longrightarrow> dec (bs @ s) = Ok (x, r @ s)"
  by (auto dest!: enc_dec intro: dec_enc)

end

end
