(* ===== verification/Async_Io.thy ===== *)
theory Async_Io
  imports Prelude
begin

text \<open>
  The asynchronous I/O layer: \<open>src/common/net/mod.rs\<close>, \<open>src/common/net/copy_with_capacity.rs\<close>
  and the reading helpers of \<open>src/common/macro_def.rs\<close>. A peer is a script of what successive
  polls observe; the theorems quantify over every script, so they hold for every way a transport
  may fragment, delay or fail.
\<close>

section \<open>Polls\<close>

datatype 'a poll = Ready "'a res" | Pending

fun drop_poll_result :: "'a poll \<Rightarrow> unit poll" where
  "drop_poll_result (Ready r) = Ready (map_res (\<lambda>_. ()) r)"
| "drop_poll_result Pending = Pending"

fun is_pending_or_error :: "'a poll \<Rightarrow> bool" where
  "is_pending_or_error (Ready (Err e)) = True"
| "is_pending_or_error (Ready r) = False"
| "is_pending_or_error Pending = True"

fun is_error :: "'a poll \<Rightarrow> bool" where
  "is_error (Ready (Err e)) = True"
| "is_error (Ready r) = False"
| "is_error Pending = False"

fun get_poll_res :: "'a \<Rightarrow> 'a poll \<Rightarrow> 'a" where
  "get_poll_res dflt (Ready (Ok t)) = t"
| "get_poll_res dflt (Ready r) = dflt"
| "get_poll_res dflt Pending = dflt"

section \<open>Peers\<close>

text \<open>
  The reading side of a peer: data it delivers, moments at which a poll finds nothing, errors; the
  end of the script is the end of the stream. \<open>poll_read n\<close> is one poll with a destination of
  \<open>n\<close> bytes.
\<close>

datatype read_event = RData bytes | RPending | RErr io_error

type_synonym reader = "read_event list"

fun poll_read :: "nat \<Rightarrow> reader \<Rightarrow> bytes poll \<times> reader" where
  "poll_read n [] = (Ready (Ok []), [])"
| "poll_read n (RPending # r) = (Pending, r)"
| "poll_read n (RErr e # r) = (Ready (Err e), r)"
| "poll_read n (RData bs # r) =
     (Ready (Ok (take n bs)), if length bs \<le> n then r else RData (drop n bs) # r)"

fun rx_bytes :: "reader \<Rightarrow> bytes" where
  "rx_bytes [] = []"
| "rx_bytes (RData bs # r) = bs @ rx_bytes r"
| "rx_bytes (e # r) = rx_bytes r"

fun rx_size :: "reader \<Rightarrow> nat" where
  "rx_size [] = 0"
| "rx_size (RData bs # r) = Suc (length bs) + rx_size r"
| "rx_size (e # r) = Suc (rx_size r)"

lemma poll_read_length: "poll_read n r = (Ready (Ok bs), r') \<Longrightarrow> length bs \<le> n"
  by (cases "(n, r)" rule: poll_read.cases) auto

lemma poll_read_bytes:
  "poll_read n r = (Ready (Ok bs), r') \<Longrightarrow> rx_bytes r = bs @ rx_bytes r'"
  by (cases "(n, r)" rule: poll_read.cases) (auto split: if_splits simp flip: append_assoc)

lemma poll_read_other_bytes:
  "poll_read n r = (p, r') \<Longrightarrow> (\<And>bs. p \<noteq> Ready (Ok bs)) \<Longrightarrow> rx_bytes r' = rx_bytes r"
  by (cases "(n, r)" rule: poll_read.cases) auto

lemma poll_read_not_Panic: "poll_read n r \<noteq> (Ready Panic, r')"
  by (cases "(n, r)" rule: poll_read.cases) auto

lemma poll_read_size:
  "poll_read n r = (Ready (Ok bs), r') \<Longrightarrow> bs \<noteq> [] \<Longrightarrow> rx_size r' < rx_size r"
  by (cases "(n, r)" rule: poll_read.cases) (auto split: if_splits)

text \<open>
  The writing side: how many bytes a poll accepts, and the outcome of flushes; after its script a
  peer accepts everything. \<open>wr_sent\<close> is what the peer has received, \<open>wr_flushed\<close> how much of it a
  completed flush covered.
\<close>

datatype write_event = WAccept nat | WPending | WErr io_error

record writer =
  wr_script :: "write_event list"
  fl_script :: "unit poll list"
  wr_sent :: bytes
  wr_flushed :: nat

definition poll_write :: "bytes \<Rightarrow> writer \<Rightarrow> nat poll \<times> writer" where
  "poll_write buf w =
     (case wr_script w of
        [] \<Rightarrow> (Ready (Ok (length buf)), w\<lparr>wr_sent := wr_sent w @ buf\<rparr>)
      | WPending # es \<Rightarrow> (Pending, w\<lparr>wr_script := es\<rparr>)
      | WErr e # es \<Rightarrow> (Ready (Err e), w\<lparr>wr_script := es\<rparr>)
      | WAccept n # es \<Rightarrow>
          (let k = min n (length buf)
           in (Ready (Ok k), w\<lparr>wr_script := es, wr_sent := wr_sent w @ take k buf\<rparr>)))"

definition poll_flush :: "writer \<Rightarrow> unit poll \<times> writer" where
  "poll_flush w =
     (case fl_script w of
        [] \<Rightarrow> (Ready (Ok ()), w\<lparr>wr_flushed := length (wr_sent w)\<rparr>)
      | Ready (Ok u) # fs \<Rightarrow>
          (Ready (Ok ()), w\<lparr>fl_script := fs, wr_flushed := length (wr_sent w)\<rparr>)
      | p # fs \<Rightarrow> (p, w\<lparr>fl_script := fs\<rparr>))"

lemma poll_write_Ok:
  "poll_write buf w = (Ready (Ok k), w') \<Longrightarrow> k \<le> length buf \<and> wr_sent w' = wr_sent w @ take k buf"
  by (auto simp: poll_write_def Let_def split: list.splits write_event.splits)

lemma poll_write_other:
  "poll_write buf w = (p, w') \<Longrightarrow> (\<And>k. p \<noteq> Ready (Ok k)) \<Longrightarrow> wr_sent w' = wr_sent w"
  by (auto simp: poll_write_def Let_def split: list.splits write_event.splits)

lemma poll_flush_sent: "poll_flush w = (p, w') \<Longrightarrow> wr_sent w' = wr_sent w"
  by (auto simp: poll_flush_def split: list.splits poll.splits res.splits)

lemma poll_flush_Ok:
  "poll_flush w = (Ready (Ok ()), w') \<Longrightarrow> wr_flushed w' = length (wr_sent w')"
  by (auto simp: poll_flush_def split: list.splits poll.splits res.splits)

text \<open>
  A peer is live when it accepts at least a byte at a time and reports no error: every poll makes
  progress or uses up an event of its script.
\<close>

definition writer_live :: "writer \<Rightarrow> bool" where
  "writer_live w \<longleftrightarrow> (\<forall>e \<in> set (wr_script w). e = WPending \<or> (\<exists>n. e = WAccept n \<and> 0 < n)) \<and>
     (\<forall>f \<in> set (fl_script w). f = Pending \<or> f = Ready (Ok ()))"

lemma poll_write_live:
  assumes "writer_live w" "buf \<noteq> []" "poll_write buf w = (p, w')"
  shows "writer_live w' \<and> length (wr_script w') \<le> length (wr_script w) \<and> fl_script w' = fl_script w \<and>
    (p = Pending \<and> length (wr_script w') < length (wr_script w) \<or> (\<exists>k > 0. p = Ready (Ok k)))"
proof (cases "wr_script w")
  case Nil
  with assms show ?thesis by (auto simp: poll_write_def writer_live_def)
next
  case (Cons e es)
  with assms show ?thesis
    by (cases e) (auto simp: poll_write_def writer_live_def Let_def)
qed

lemma poll_flush_live:
  assumes "writer_live w" "poll_flush w = (p, w')"
  shows "writer_live w' \<and> wr_script w' = wr_script w \<and> length (fl_script w') \<le> length (fl_script w) \<and>
    (p = Pending \<and> length (fl_script w') < length (fl_script w) \<or> p = Ready (Ok ()))"
proof (cases "fl_script w")
  case Nil
  with assms show ?thesis by (auto simp: poll_flush_def writer_live_def)
next
  case (Cons f fs)
  with assms have "f = Pending \<or> f = Ready (Ok ())" by (auto simp: writer_live_def)
  with Cons assms show ?thesis by (elim disjE) (auto simp: poll_flush_def writer_live_def)
qed

text \<open>\<open>ready!\<close> with \<open>?\<close>: go on with the value, or hand back a pending poll or an error.\<close>

fun bind_poll :: "'a poll \<times> 's \<Rightarrow> ('a \<Rightarrow> 's \<Rightarrow> 'b poll \<times> 's) \<Rightarrow> 'b poll \<times> 's" where
  "bind_poll (Ready (Ok x), s) f = f x s"
| "bind_poll (Ready (Err e), s) f = (Ready (Err e), s)"
| "bind_poll (Ready Panic, s) f = (Ready Panic, s)"
| "bind_poll (Pending, s) f = (Pending, s)"

section \<open>Reading into a buffer\<close>

definition usize_max :: nat where
  "usize_max = 2 ^ 64 - 1"

text \<open>
  \<open>poll_read_buf\<close>: one poll into the spare capacity of a \<open>BytesMut\<close>. The parameter
  \<open>chunk\<close> is the length of the slice \<open>chunk_mut\<close> offers for the current contents, which the
  \<open>bytes\<close> crate decides (it is never empty while the buffer can grow).
\<close>

definition poll_read_buf ::
  "(bytes \<Rightarrow> nat) \<Rightarrow> reader \<Rightarrow> bytes \<Rightarrow> nat poll \<times> reader \<times> bytes" where
  "poll_read_buf chunk io buf =
     (if usize_max - length buf = 0 then (Ready (Ok 0), io, buf)
      else case poll_read (chunk buf) io of
             (Ready (Ok bs), io') \<Rightarrow> (Ready (Ok (length bs)), io', buf @ bs)
           | (Ready (Err e), io') \<Rightarrow> (Ready (Err e), io', buf)
           | (Ready Panic, io') \<Rightarrow> (Ready Panic, io', buf)
           | (Pending, io') \<Rightarrow> (Pending, io', buf))"

lemma poll_read_buf_Ok:
  assumes "poll_read_buf chunk io buf = (Ready (Ok n), io', buf')"
  shows "buf' @ rx_bytes io' = buf @ rx_bytes io" "length buf' = length buf + n"
    "n \<noteq> 0 \<Longrightarrow> rx_size io' < rx_size io"
  using assms
  by (auto simp: poll_read_buf_def poll_read_bytes poll_read_size
      split: if_splits prod.splits poll.splits res.splits)

lemma poll_read_buf_other:
  "poll_read_buf chunk io buf = (p, io', buf') \<Longrightarrow> (\<And>n. p \<noteq> Ready (Ok n)) \<Longrightarrow>
     buf' = buf \<and> rx_bytes io' = rx_bytes io"
  by (auto simp: poll_read_buf_def dest: poll_read_other_bytes
      split: if_splits prod.splits poll.splits res.splits)

text \<open>
  \<open>read_at_least\<close> of \<open>impl_read_utils!\<close>: read until the buffer holds \<open>len\<close> bytes; a read of
  zero bytes is the end of the stream, recorded in \<open>read_zero\<close>.
\<close>

function read_at_least ::
  "(bytes \<Rightarrow> nat) \<Rightarrow> reader \<Rightarrow> nat \<Rightarrow> bytes \<Rightarrow> bool \<Rightarrow> unit poll \<times> reader \<times> bytes \<times> bool" where
  "read_at_least chunk r len buf read_zero =
     (if length buf < len then
        (case poll_read_buf chunk r buf of
           (Ready (Ok n), r', buf') \<Rightarrow>
             if n = 0 then (Ready (Err (IoError UnexpectedEof '''')), r', buf', True)
             else read_at_least chunk r' len buf' read_zero
         | (Ready (Err e), r', buf') \<Rightarrow> (Ready (Err e), r', buf', read_zero)
         | (Ready Panic, r', buf') \<Rightarrow> (Ready Panic, r', buf', read_zero)
         | (Pending, r', buf') \<Rightarrow> (Pending, r', buf', read_zero))
      else (Ready (Ok ()), r, buf, read_zero))"
  by pat_completeness auto
termination
  by (relation "measure (\<lambda>(chunk, r, len, buf, rz). rx_size r)")
    (auto dest: poll_read_buf_Ok(3) [OF sym])

declare read_at_least.simps [simp del]

lemma read_at_least_enough [simp]:
  "len \<le> length buf \<Longrightarrow> read_at_least chunk r len buf rz = (Ready (Ok ()), r, buf, rz)"
  by (simp add: read_at_least.simps [of chunk r len buf rz])

lemma read_at_least_bytes:
  "read_at_least chunk r len buf rz = (p, r', buf', rz') \<Longrightarrow>
     buf' @ rx_bytes r' = buf @ rx_bytes r \<and> (p = Ready (Ok ()) \<longrightarrow> len \<le> length buf' \<and> rz' = rz)"
proof (induction chunk r len buf rz rule: read_at_least.induct)
  case (1 chunk r len buf rz)
  show ?case
  proof (cases "length buf < len")
    case True
    obtain q s b where q: "poll_read_buf chunk r buf = (q, s, b)"
      by (cases "poll_read_buf chunk r buf")
    show ?thesis
    proof (cases q)
      case (Ready x)
      then show ?thesis
        using 1 True q poll_read_buf_Ok [of chunk r buf _ s b] poll_read_buf_other [of chunk r buf q s b]
        by (cases x) (auto simp: read_at_least.simps [of chunk r len buf rz] split: if_splits)
    next
      case Pending
      then show ?thesis
        using 1(2) True q poll_read_buf_other [of chunk r buf q s b]
        by (auto simp: read_at_least.simps [of chunk r len buf rz])
    qed
  next
    case False
    with 1(2) show ?thesis by auto
  qed
qed

definition calc_data_to_put :: "nat \<Rightarrow> nat \<Rightarrow> nat" where
  "calc_data_to_put data_length dst_remaining = min data_length dst_remaining"

section \<open>Awaiting exact reads\<close>

text \<open>
  A stream operation in an \<open>async\<close> function: a result and the stream after it.
\<close>

fun bind_io :: "'a res \<times> 's \<Rightarrow> ('a \<Rightarrow> 's \<Rightarrow> 'b res \<times> 's) \<Rightarrow> 'b res \<times> 's" where
  "bind_io (Ok x, s) f = f x s"
| "bind_io (Err e, s) f = (Err e, s)"
| "bind_io (Panic, s) f = (Panic, s)"

lemma bind_io_Ok_iff [res_simps]:
  "bind_io m f = (Ok y, t) \<longleftrightarrow> (\<exists>x s. m = (Ok x, s) \<and> f x s = (Ok y, t))"
  by (cases "(m, f)" rule: bind_io.cases) auto

text \<open>
  \<open>read_exact(buf).await\<close> with a buffer of \<open>n\<close> bytes: wait for exactly \<open>n\<close> bytes, and fail with
  \<open>UnexpectedEof\<close> when the stream ends first.
\<close>

function read_exact_acc :: "nat \<Rightarrow> bytes \<Rightarrow> reader \<Rightarrow> bytes res \<times> reader" where
  "read_exact_acc n acc r =
     (if n = 0 then (Ok acc, r)
      else case r of
             [] \<Rightarrow> (Err (IoError UnexpectedEof ''early eof''), [])
           | RPending # r' \<Rightarrow> read_exact_acc n acc r'
           | _ \<Rightarrow>
             (case poll_read n r of
                (Ready (Ok bs), r') \<Rightarrow>
                  if bs = [] then (Err (IoError UnexpectedEof ''early eof''), r')
                  else read_exact_acc (n - length bs) (acc @ bs) r'
              | (Ready (Err e), r') \<Rightarrow> (Err e, r')
              | (_, r') \<Rightarrow> (Panic, r')))"
  by pat_completeness auto
termination
  by (relation "measure (\<lambda>(n, acc, r). rx_size r)")
    (auto split: if_splits list.splits read_event.splits)

declare read_exact_acc.simps [simp del]

definition read_exact :: "nat \<Rightarrow> reader \<Rightarrow> bytes res \<times> reader" where
  "read_exact n r = read_exact_acc n [] r"

lemma read_exact_acc_0 [simp]: "read_exact_acc 0 acc r = (Ok acc, r)"
  by (simp add: read_exact_acc.simps)

lemma read_exact_acc_Ok:
  "read_exact_acc n acc r = (Ok bs, r') \<Longrightarrow>
     bs @ rx_bytes r' = acc @ rx_bytes r \<and> length bs = length acc + n"
proof (induction n acc r rule: read_exact_acc.induct)
  case (1 n acc r)
  show ?case
  proof (cases "n = 0")
    case True
    with "1.prems" show ?thesis by simp
  next
    case False
    show ?thesis
    proof (cases r)
      case Nil
      with "1.prems" False show ?thesis by (simp add: read_exact_acc.simps [of n acc "[]"])
    next
      case (Cons e s)
      then show ?thesis
        using 1 False
        by (cases e)
          (auto simp: read_exact_acc.simps [of n acc "RData _ # s"]
            read_exact_acc.simps [of n acc "RPending # s"]
            read_exact_acc.simps [of n acc "RErr _ # s"] split: if_splits)
    qed
  qed
qed

lemma read_exact_Ok:
  "read_exact n r = (Ok bs, r') \<Longrightarrow> rx_bytes r = bs @ rx_bytes r' \<and> length bs = n"
  by (auto simp: read_exact_def dest: read_exact_acc_Ok)

text \<open>
  A peer is \<open>clean\<close> when it reports no error and every delivery is nonempty: then an exact read
  depends on the delivered bytes alone, not on how they are cut into deliveries.
\<close>

fun clean :: "reader \<Rightarrow> bool" where
  "clean [] = True"
| "clean (RData bs # r) = (bs \<noteq> [] \<and> clean r)"
| "clean (RPending # r) = clean r"
| "clean (RErr e # r) = False"

lemma read_exact_acc_clean:
  "clean r \<Longrightarrow> n \<le> length (rx_bytes r) \<Longrightarrow>
     \<exists>r'. read_exact_acc n acc r = (Ok (acc @ take n (rx_bytes r)), r') \<and>
          rx_bytes r' = drop n (rx_bytes r) \<and> clean r'"
proof (induction n acc r rule: read_exact_acc.induct)
  case (1 n acc r)
  show ?case
  proof (cases "n = 0")
    case True
    with "1.prems" show ?thesis by simp
  next
    case False
    show ?thesis
    proof (cases r)
      case Nil
      with "1.prems" False show ?thesis by simp
    next
      case (Cons e s)
      then show ?thesis
        using 1 False
        by (cases e)
          (auto simp: read_exact_acc.simps [of n acc "RData _ # s"]
            read_exact_acc.simps [of n acc "RPending # s"])
    qed
  qed
qed

lemma read_exact_clean:
  "clean r \<Longrightarrow> rx_bytes r = bs @ rest \<Longrightarrow> length bs = n \<Longrightarrow>
     \<exists>r'. read_exact n r = (Ok bs, r') \<and> rx_bytes r' = rest \<and> clean r'"
  using read_exact_acc_clean [of r n "[]"] by (auto simp: read_exact_def)

lemma read_exact_acc_eof:
  "clean r \<Longrightarrow> length (rx_bytes r) < n \<Longrightarrow>
     \<exists>r'. read_exact_acc n acc r = (Err (IoError UnexpectedEof ''early eof''), r')"
proof (induction n acc r rule: read_exact_acc.induct)
  case (1 n acc r)
  show ?case
  proof (cases r)
    case Nil
    with "1.prems" show ?thesis by (simp add: read_exact_acc.simps [of n acc "[]"])
  next
    case (Cons e s)
    then show ?thesis
      using 1
      by (cases e)
        (auto simp: read_exact_acc.simps [of n acc "RData _ # s"]
          read_exact_acc.simps [of n acc "RPending # s"] split: if_splits)
  qed
qed

text \<open>On a clean peer that still has enough to deliver, \<open>read_at_least\<close> never fails.\<close>

definition chunky :: "(bytes \<Rightarrow> nat) \<Rightarrow> bool" where
  "chunky chunk \<longleftrightarrow> (\<forall>buf. 0 < chunk buf)"

lemma poll_read_clean:
  assumes "clean r" "0 < n" "poll_read n r = (p, r')"
  shows "clean r' \<and> (p = Pending \<and> rx_size r' < rx_size r \<or>
    (\<exists>bs. p = Ready (Ok bs) \<and> (bs = [] \<longrightarrow> rx_bytes r = [])))"
proof (cases r)
  case Nil
  then have "p = Ready (Ok [])" "r' = []" using assms(3) by simp_all
  with Nil show ?thesis by simp
next
  case (Cons e s)
  show ?thesis
  proof (cases e)
    case (RData bs)
    then have "p = Ready (Ok (take n bs))" "r' = (if length bs \<le> n then s else RData (drop n bs) # s)"
      using assms(3) Cons by simp_all
    with assms(1,2) Cons RData show ?thesis by simp
  next
    case RPending
    then have "p = Pending" "r' = s" using assms(3) Cons by simp_all
    with assms(1) Cons RPending show ?thesis by simp
  qed (use assms(1) Cons in simp)
qed

lemma poll_read_size_le: "poll_read n r = (p, r') \<Longrightarrow> rx_size r' \<le> rx_size r"
  by (cases "(n, r)" rule: poll_read.cases) (auto split: if_splits)

lemma read_at_least_clean:
  "chunky chunk \<Longrightarrow> clean r \<Longrightarrow> len \<le> length (buf @ rx_bytes r) \<Longrightarrow> len \<le> usize_max \<Longrightarrow>
    read_at_least chunk r len buf rz = (p, r', buf', rz') \<Longrightarrow>
      clean r' \<and> rz' = rz \<and> rx_size r' \<le> rx_size r \<and>
      (p = Ready (Ok ()) \<or> p = Pending \<and> rx_size r' < rx_size r)"
proof (induction chunk r len buf rz rule: read_at_least.induct)
  case (1 ch r len buf rz)
  show ?case
  proof (cases "length buf < len")
    case False
    with "1.prems" show ?thesis by simp
  next
    case True
    then have um: "usize_max - length buf \<noteq> 0" using "1.prems"(4) by simp
    obtain q s where q: "poll_read (ch buf) r = (q, s)" by fastforce
    have pos: "0 < ch buf" using "1.prems"(1) by (simp add: chunky_def)
    from poll_read_clean [OF "1.prems"(2) pos q] show ?thesis
    proof (elim conjE disjE exE)
      assume "clean s" "q = Pending" "rx_size s < rx_size r"
      with True um q "1.prems"(5) show ?thesis
        by (auto simp: read_at_least.simps [of ch r len buf rz] poll_read_buf_def)
    next
      fix bs assume bs: "clean s" "q = Ready (Ok bs)" "bs = [] \<longrightarrow> rx_bytes r = []"
      have ne: "bs \<noteq> []" using bs(3) True "1.prems"(3) by auto
      have pb: "poll_read_buf ch r buf = (Ready (Ok (length bs)), s, buf @ bs)"
        using um q bs by (simp add: poll_read_buf_def)
      have rx: "rx_bytes r = bs @ rx_bytes s" using poll_read_bytes q bs by simp
      have lt: "rx_size s < rx_size r" using poll_read_size [of "ch buf" r bs s] q bs ne by simp
      have rl: "read_at_least ch s len (buf @ bs) rz = (p, r', buf', rz')"
        using "1.prems"(5) True ne by (simp add: read_at_least.simps [of ch r len buf rz] pb)
      have "clean r' \<and> rz' = rz \<and> rx_size r' \<le> rx_size s \<and>
          (p = Ready (Ok ()) \<or> p = Pending \<and> rx_size r' < rx_size s)"
      proof (rule "1.IH" [OF True pb [symmetric] refl refl refl _ "1.prems"(1) bs(1) _ "1.prems"(4) rl])
        show "length bs \<noteq> 0" using ne by simp
        show "len \<le> length ((buf @ bs) @ rx_bytes s)" using "1.prems"(3) rx by simp
      qed
      with lt show ?thesis by auto
    qed
  qed
qed

lemma read_at_least_clean_eof:
  "clean r \<Longrightarrow> chunky chunk \<Longrightarrow> length (buf @ rx_bytes r) < len \<Longrightarrow> len \<le> usize_max \<Longrightarrow>
    read_at_least chunk r len buf rz = (p, r', buf', rz') \<Longrightarrow>
      clean r' \<and> (p = Pending \<and> rz' = rz \<and> rx_size r' < rx_size r \<or>
        p = Ready (Err (IoError UnexpectedEof '''')) \<and> rz')"
proof (induction chunk r len buf rz rule: read_at_least.induct)
  case (1 ch r len buf rz)
  have lt: "length buf < len" using "1.prems"(3) by simp
  then have um: "usize_max - length buf \<noteq> 0" using "1.prems"(4) by simp
  obtain q s where q: "poll_read (ch buf) r = (q, s)" by fastforce
  have pos: "0 < ch buf" using "1.prems"(2) by (simp add: chunky_def)
  from poll_read_clean [OF "1.prems"(1) pos q] show ?case
  proof (elim conjE disjE exE)
    assume "clean s" "q = Pending" "rx_size s < rx_size r"
    with lt um q "1.prems"(5) show ?thesis
      by (auto simp: read_at_least.simps [of ch r len buf rz] poll_read_buf_def)
  next
    fix bs assume bs: "clean s" "q = Ready (Ok bs)"
    have pb: "poll_read_buf ch r buf = (Ready (Ok (length bs)), s, buf @ bs)"
      using um q bs by (simp add: poll_read_buf_def)
    show ?thesis
    proof (cases "bs = []")
      case True
      with "1.prems"(5) lt bs(1) show ?thesis
        by (auto simp: read_at_least.simps [of ch r len buf rz] pb)
    next
      case False
      have rx: "rx_bytes r = bs @ rx_bytes s" using poll_read_bytes q bs by simp
      have dec: "rx_size s < rx_size r" using poll_read_size [of "ch buf" r bs s] q bs False by simp
      have rl: "read_at_least ch s len (buf @ bs) rz = (p, r', buf', rz')"
        using "1.prems"(5) lt False by (simp add: read_at_least.simps [of ch r len buf rz] pb)
      have "clean r' \<and> (p = Pending \<and> rz' = rz \<and> rx_size r' < rx_size s \<or>
          p = Ready (Err (IoError UnexpectedEof '''')) \<and> rz')"
      proof (rule "1.IH" [OF lt pb [symmetric] refl refl refl _ bs(1) "1.prems"(2) _ "1.prems"(4) rl])
        show "length bs \<noteq> 0" using False by simp
        show "length ((buf @ bs) @ rx_bytes s) < len" using "1.prems"(3) rx by simp
      qed
      with dec show ?thesis by auto
    qed
  qed
qed

lemma read_at_least_size:
  "read_at_least chunk r len buf rz = (p, r', buf', rz') \<Longrightarrow>
     length buf' + rx_size r' \<le> length buf + rx_size r"
proof (induction chunk r len buf rz rule: read_at_least.induct)
  case (1 ch r len buf rz)
  obtain q s b where pb: "poll_read_buf ch r buf = (q, s, b)"
    by (cases "poll_read_buf ch r buf")
  have le: "length b + rx_size s \<le> length buf + rx_size r"
    using pb by (cases "(ch buf, r)" rule: poll_read.cases)
      (auto simp: poll_read_buf_def split: if_splits)
  show ?case
  proof (cases "length buf < len \<and> (\<exists>n. q = Ready (Ok n) \<and> n \<noteq> 0)")
    case True
    then obtain n where n: "q = Ready (Ok n)" "n \<noteq> 0" by blast
    have rl: "read_at_least ch s len b rz = (p, r', buf', rz')"
      using "1.prems" True n by (simp add: read_at_least.simps [of ch r len buf rz] pb)
    have "length buf' + rx_size r' \<le> length b + rx_size s"
      by (rule "1.IH" [OF _ pb [symmetric] n(1) refl refl n(2) rl]) (use True in simp)
    with le show ?thesis by simp
  next
    case False
    with "1.prems" le show ?thesis
      by (cases "\<exists>n. q = Ready (Ok n)"; cases q rule: is_error.cases)
        (auto simp: read_at_least.simps [of ch r len buf rz] pb split: if_splits)
  qed
qed

lemma read_at_least_await:
  assumes "chunky chunk" "clean r" "len \<le> length (buf @ rx_bytes r)" "len \<le> usize_max"
  obtains p r' buf' where "read_at_least chunk r len buf rz = (p, r', buf', rz)"
    "buf' @ rx_bytes r' = buf @ rx_bytes r" "clean r'" "rx_size r' \<le> rx_size r"
    "p = Pending \<and> rx_size r' < rx_size r \<or> p = Ready (Ok ()) \<and> len \<le> length buf'"
proof -
  obtain p r' buf' rz' where q: "read_at_least chunk r len buf rz = (p, r', buf', rz')"
    by (cases "read_at_least chunk r len buf rz")
  from read_at_least_clean [OF assms q] read_at_least_bytes [OF q] show ?thesis
    using q by (intro that [of p r' buf']) auto
qed

lemma read_at_least_await_eof:
  assumes "chunky chunk" "clean r" "length (buf @ rx_bytes r) < len" "len \<le> usize_max"
  obtains r' buf' where "read_at_least chunk r len buf rz = (Pending, r', buf', rz)"
      "buf' @ rx_bytes r' = buf @ rx_bytes r" "clean r'" "rx_size r' < rx_size r"
  | r' buf' where
      "read_at_least chunk r len buf rz = (Ready (Err (IoError UnexpectedEof '''')), r', buf', True)"
proof -
  obtain p r' buf' rz' where q: "read_at_least chunk r len buf rz = (p, r', buf', rz')"
    by (cases "read_at_least chunk r len buf rz")
  from read_at_least_clean_eof [OF assms(2,1,3,4) q] read_at_least_bytes [OF q] show ?thesis
    using q that by auto
qed

section \<open>Writing a buffer\<close>

text \<open>
  The loop with which the protocol writers push out a buffer (\<open>write_data\<close> of the Shadowsocks and
  VMess writers, \<open>write_data\<close> and \<open>write_buffer_data\<close> of the Trojan writer), from a position on;
  the answer is \<open>data_len\<close>, whatever buffer is written.
\<close>

function write_loop :: "nat \<Rightarrow> bytes \<Rightarrow> nat \<Rightarrow> writer \<Rightarrow> nat poll \<times> nat \<times> writer" where
  "write_loop data_len buffer pos w =
     (if pos < length buffer then
        (case poll_write (drop pos buffer) w of
           (Ready (Ok n), w') \<Rightarrow>
             if n = 0 then
               (Ready (Err (IoError WriteZero ''write zero byte into writer'')), pos + n, w')
             else write_loop data_len buffer (pos + n) w'
         | (Ready (Err e), w') \<Rightarrow> (Ready (Err e), pos, w')
         | (Ready Panic, w') \<Rightarrow> (Ready Panic, pos, w')
         | (Pending, w') \<Rightarrow> (Pending, pos, w'))
      else (Ready (Ok data_len), pos, w))"
  by pat_completeness auto
termination
  by (relation "measure (\<lambda>(d, buffer, pos, w). length buffer - pos)") auto

declare write_loop.simps [simp del]

lemma write_loop_live:
  "writer_live w \<Longrightarrow> pos \<le> length buf \<Longrightarrow> write_loop d buf pos w = (p, pos', w') \<Longrightarrow>
     writer_live w' \<and> pos \<le> pos' \<and> pos' \<le> length buf \<and>
     wr_sent w' = wr_sent w @ take (pos' - pos) (drop pos buf) \<and>
     (p = Pending \<and> length (wr_script w') < length (wr_script w) \<or>
      p = Ready (Ok d) \<and> pos' = length buf \<and> length (wr_script w') \<le> length (wr_script w))"
proof (induction d buf pos w rule: write_loop.induct)
  case (1 d buf pos w)
  show ?case
  proof (cases "pos < length buf")
    case False
    with "1.prems" show ?thesis by (auto simp: write_loop.simps [of d buf "length buf" w])
  next
    case True
    obtain q v where q: "poll_write (drop pos buf) w = (q, v)" by fastforce
    from poll_write_live [OF "1.prems"(1) _ q] True
    have v: "writer_live v" "length (wr_script v) \<le> length (wr_script w)"
      "q = Pending \<and> length (wr_script v) < length (wr_script w) \<or> (\<exists>k > 0. q = Ready (Ok k))"
      by auto
    from v(3) show ?thesis
    proof (elim disjE exE conjE)
      assume "q = Pending" "length (wr_script v) < length (wr_script w)"
      with True q v "1.prems" show ?thesis
        using poll_write_other [OF q] by (auto simp: write_loop.simps [of d buf pos w])
    next
      fix k :: nat assume k: "0 < k" "q = Ready (Ok k)"
      from poll_write_Ok [of "drop pos buf" w k v] q k
      have kl: "k \<le> length buf - pos" "wr_sent v = wr_sent w @ take k (drop pos buf)" by auto
      have rl: "write_loop d buf (pos + k) v = (p, pos', w')"
        using "1.prems"(3) True q k by (simp add: write_loop.simps [of d buf pos w])
      have le: "pos + k \<le> length buf" using kl(1) True by simp
      have "k \<noteq> 0" using k(1) by simp
      note ih = "1.IH" [OF True q [symmetric] k(2) refl this v(1) le rl]
      have "take (pos' - pos) (drop pos buf) =
          take k (drop pos buf) @ take (pos' - (pos + k)) (drop (pos + k) buf)"
        using ih take_add [of k "pos' - (pos + k)" "drop pos buf"] by (simp add: add.commute)
      with ih kl(2) v(2) show ?thesis by auto
    qed
  qed
qed

section \<open>Awaited writes\<close>

text \<open>
  \<open>write_all(buf).await\<close>: write until everything is accepted; a write of zero bytes is an error.
\<close>

function write_all :: "bytes \<Rightarrow> writer \<Rightarrow> unit res \<times> writer" where
  "write_all buf w =
     (if buf = [] then (Ok (), w)
      else case poll_write buf w of
             (Ready (Ok n), w') \<Rightarrow>
               if n = 0 then (Err (IoError WriteZero ''''), w') else write_all (drop n buf) w'
           | (Ready (Err e), w') \<Rightarrow> (Err e, w')
           | (Ready Panic, w') \<Rightarrow> (Panic, w')
           | (Pending, w') \<Rightarrow> write_all buf w')"
  by pat_completeness auto
termination
  by (relation "measure (\<lambda>(buf, w). length buf + length (wr_script w))")
    (auto simp: poll_write_def Let_def split: list.splits write_event.splits if_splits)

declare write_all.simps [simp del]

lemma write_all_live:
  "writer_live w \<Longrightarrow> \<exists>w'. write_all buf w = (Ok (), w') \<and> writer_live w' \<and> wr_sent w' = wr_sent w @ buf"
proof (induction buf w rule: write_all.induct)
  case (1 buf w)
  show ?case
  proof (cases "buf = []")
    case True
    with "1.prems" show ?thesis by (simp add: write_all.simps [of "[]" w])
  next
    case False
    obtain q v where q: "poll_write buf w = (q, v)" by fastforce
    from poll_write_live [OF "1.prems" False q]
    have v: "writer_live v" "q = Pending \<or> (\<exists>k > 0. q = Ready (Ok k))" by auto
    from v(2) show ?thesis
    proof (elim disjE exE conjE)
      assume p: "q = Pending"
      have "wr_sent v = wr_sent w" using poll_write_other [OF q] p by simp
      with "1.IH"(2) [OF False q [symmetric] p v(1)] False q p show ?thesis
        by (simp add: write_all.simps [of buf w])
    next
      fix k :: nat assume k: "0 < k" "q = Ready (Ok k)"
      from k(1) have "k \<noteq> 0" by simp
      from "1.IH"(1) [OF False q [symmetric] k(2) refl this v(1)] poll_write_Ok [of buf w k v] q k False
      show ?thesis by (auto simp: write_all.simps [of buf w])
    qed
  qed
qed

end
