(* ===== verification/Address.thy ===== *)
theory Address
  imports Codec Async_Io
begin

text \<open>
  \<open>src/proxy/address.rs\<close>: socket and domain addresses, their SOCKS5-style wire form (used by
  SOCKS5, Shadowsocks and Trojan) and their VMess wire form. The two readers of the SOCKS5 form,
  from a cursor and from a stream, are modelled separately, as in the source.
\<close>

section \<open>Addresses\<close>

datatype ipv4_addr = Ipv4Addr u8 u8 u8 u8

datatype ipv6_addr = Ipv6Addr u16 u16 u16 u16 u16 u16 u16 u16

fun octets :: "ipv4_addr \<Rightarrow> bytes" where
  "octets (Ipv4Addr a b c d) = [a, b, c, d]"

fun segments :: "ipv6_addr \<Rightarrow> u16 list" where
  "segments (Ipv6Addr a b c d e f g h) = [a, b, c, d, e, f, g, h]"

definition octets6 :: "ipv6_addr \<Rightarrow> bytes" where
  "octets6 ip = concat (map put_u16 (segments ip))"

datatype ip_addr = IpV4 ipv4_addr | IpV6 ipv6_addr

text \<open>A V6 socket address carries a port, the flow information and the scope id.\<close>

datatype socket_addr = SockV4 ipv4_addr u16 | SockV6 ipv6_addr u16 u32 u32

fun sock_ip :: "socket_addr \<Rightarrow> ip_addr" where
  "sock_ip (SockV4 ip p) = IpV4 ip"
| "sock_ip (SockV6 ip p f s) = IpV6 ip"

fun sock_addr_new :: "ip_addr \<Rightarrow> u16 \<Rightarrow> socket_addr" where
  "sock_addr_new (IpV4 ip) p = SockV4 ip p"
| "sock_addr_new (IpV6 ip) p = SockV6 ip p 0 0"

datatype address = SocketAddress socket_addr | DomainNameAddress string u16

definition ADDR_TYPE_IPV4 :: u8 where "ADDR_TYPE_IPV4 = 1"
definition ADDR_TYPE_DOMAIN_NAME :: u8 where "ADDR_TYPE_DOMAIN_NAME = 3"
definition ADDR_TYPE_IPV6 :: u8 where "ADDR_TYPE_IPV6 = 4"

lemmas addr_type_defs = ADDR_TYPE_IPV4_def ADDR_TYPE_DOMAIN_NAME_def ADDR_TYPE_IPV6_def

definition new_dummy_address :: address where
  "new_dummy_address = SocketAddress (sock_addr_new (IpV4 (Ipv4Addr 0 0 0 0)) 0)"

fun is_socket_addr :: "address \<Rightarrow> bool" where
  "is_socket_addr (SocketAddress s) = True"
| "is_socket_addr (DomainNameAddress d p) = False"

fun get_sock_addr :: "address \<Rightarrow> socket_addr res" where
  "get_sock_addr (SocketAddress e) = Ok e"
| "get_sock_addr (DomainNameAddress d p) = Panic"

fun serialized_len :: "address \<Rightarrow> nat" where
  "serialized_len (SocketAddress (SockV4 ip p)) = 1 + 4 + 2"
| "serialized_len (SocketAddress (SockV6 ip p f s)) = 1 + 8 * 2 + 2"
| "serialized_len (DomainNameAddress dmname p) = 1 + 1 + length dmname + 2"

section \<open>Writing\<close>

text \<open>The length of a domain name is written as \<open>len() as u8\<close>, which keeps the low eight bits.\<close>

fun write_to_buf :: "address \<Rightarrow> bytes \<Rightarrow> bytes" where
  "write_to_buf (SocketAddress (SockV4 ip port)) buf =
     buf @ [ADDR_TYPE_IPV4] @ octets ip @ put_u16 port"
| "write_to_buf (SocketAddress (SockV6 ip port f s)) buf =
     buf @ [ADDR_TYPE_IPV6] @ concat (map put_u16 (segments ip)) @ put_u16 port"
| "write_to_buf (DomainNameAddress domain_name port) buf =
     buf @ [ADDR_TYPE_DOMAIN_NAME] @ [of_nat (length domain_name)] @ as_bytes domain_name @
     put_u16 port"

fun write_to_buf_vmess :: "address \<Rightarrow> bytes \<Rightarrow> bytes" where
  "write_to_buf_vmess (SocketAddress (SockV4 ip port)) buf =
     buf @ put_u16 port @ [0x01] @ octets ip"
| "write_to_buf_vmess (SocketAddress (SockV6 ip port f s)) buf =
     buf @ put_u16 port @ [0x03] @ concat (map put_u16 (segments ip))"
| "write_to_buf_vmess (DomainNameAddress domain_name port) buf =
     buf @ put_u16 port @ [0x02] @ [of_nat (length domain_name)] @ as_bytes domain_name"

section \<open>Reading from a cursor\<close>

definition read_v4 :: "bytes \<Rightarrow> (address \<times> bytes) res" where
  "read_v4 cur =
     bind_res (get_u8 cur) (\<lambda>(a, cur).
     bind_res (get_u8 cur) (\<lambda>(b, cur).
     bind_res (get_u8 cur) (\<lambda>(c, cur).
     bind_res (get_u8 cur) (\<lambda>(d, cur).
     bind_res (get_u16 cur) (\<lambda>(port, cur).
       Ok (SocketAddress (SockV4 (Ipv4Addr a b c d) port), cur))))))"

definition read_v6 :: "bytes \<Rightarrow> (address \<times> bytes) res" where
  "read_v6 cur =
     bind_res (get_u16 cur) (\<lambda>(a, cur).
     bind_res (get_u16 cur) (\<lambda>(b, cur).
     bind_res (get_u16 cur) (\<lambda>(c, cur).
     bind_res (get_u16 cur) (\<lambda>(d, cur).
     bind_res (get_u16 cur) (\<lambda>(e, cur).
     bind_res (get_u16 cur) (\<lambda>(f, cur).
     bind_res (get_u16 cur) (\<lambda>(g, cur).
     bind_res (get_u16 cur) (\<lambda>(h, cur).
     bind_res (get_u16 cur) (\<lambda>(port, cur).
       Ok (SocketAddress (SockV6 (Ipv6Addr a b c d e f g h) port 0 0), cur))))))))))"

text \<open>
  The text of \<open>FromUtf8Error\<close>: where the valid part ends, and how many bytes from there are wrong
  (none is said when the input ends within a character).
\<close>

fun utf8_error :: "nat \<Rightarrow> bytes \<Rightarrow> (nat \<times> nat option) option" where
  "utf8_error i [] = None"
| "utf8_error i (b # bs) =
     (if b < 0x80 then utf8_error (i + 1) bs
      else if 0xC2 \<le> b \<and> b \<le> 0xDF then
        (case bs of
           [] \<Rightarrow> Some (i, None)
         | c1 # r \<Rightarrow> if utf8_cont c1 then utf8_error (i + 2) r else Some (i, Some 1))
      else if 0xE0 \<le> b \<and> b \<le> 0xEF then
        (case bs of
           [] \<Rightarrow> Some (i, None)
         | c1 # r1 \<Rightarrow>
             if utf8_cont c1 \<and> (b = 0xE0 \<longrightarrow> 0xA0 \<le> c1) \<and> (b = 0xED \<longrightarrow> c1 \<le> 0x9F) then
               (case r1 of
                  [] \<Rightarrow> Some (i, None)
                | c2 # r \<Rightarrow> if utf8_cont c2 then utf8_error (i + 3) r else Some (i, Some 2))
             else Some (i, Some 1))
      else if 0xF0 \<le> b \<and> b \<le> 0xF4 then
        (case bs of
           [] \<Rightarrow> Some (i, None)
         | c1 # r1 \<Rightarrow>
             if utf8_cont c1 \<and> (b = 0xF0 \<longrightarrow> 0x90 \<le> c1) \<and> (b = 0xF4 \<longrightarrow> c1 \<le> 0x8F) then
               (case r1 of
                  [] \<Rightarrow> Some (i, None)
                | c2 # r2 \<Rightarrow>
                    if utf8_cont c2 then
                      (case r2 of
                         [] \<Rightarrow> Some (i, None)
                       | c3 # r \<Rightarrow> if utf8_cont c3 then utf8_error (i + 4) r else Some (i, Some 3))
                    else Some (i, Some 2))
             else Some (i, Some 1))
      else Some (i, Some 1))"

definition utf8_error_text :: "bytes \<Rightarrow> string" where
  "utf8_error_text bs =
     (case utf8_error 0 bs of
        Some (i, Some n) \<Rightarrow>
          ''invalid utf-8 sequence of '' @ show_dec n @ '' bytes from index '' @ show_dec i
      | Some (i, None) \<Rightarrow> ''incomplete utf-8 byte sequence from index '' @ show_dec i
      | None \<Rightarrow> [])"

text \<open>There is such a place exactly when the check fails.\<close>

lemma utf8_error_None_iff: "utf8_error i bs = None \<longleftrightarrow> valid_utf8 bs"
  by (induction i bs rule: utf8_error.induct) (auto split: list.splits)

definition read_from_cursor :: "bytes \<Rightarrow> (address \<times> bytes) res" where
  "read_from_cursor cur =
     (if length cur < 1 + 1 then Err (new_error ''invalid address buffer'')
      else bind_res (get_u8 cur) (\<lambda>(addr_type, cur).
        if addr_type = ADDR_TYPE_IPV4 then
          (if length cur < 4 + 2 then Err (new_error ''IPv4 address too short'') else read_v4 cur)
        else if addr_type = ADDR_TYPE_DOMAIN_NAME then
          bind_res (get_u8 cur) (\<lambda>(domain_len, cur).
            if length cur < unat domain_len then Err (new_error ''Domain name too short'')
            else bind_res (copy_to_slice (unat domain_len) cur) (\<lambda>(domain_name, cur).
                 bind_res (get_u16 cur) (\<lambda>(port, cur).
                   case from_utf8 domain_name of
                     None \<Rightarrow> Err (new_error (''invalid utf8 domain name '' @ utf8_error_text domain_name))
                   | Some s \<Rightarrow> Ok (DomainNameAddress s port, cur))))
        else if addr_type = ADDR_TYPE_IPV6 then
          (if length cur < 8 * 2 + 2 then Err (new_error ''IPv4 address too short'') else read_v6 cur)
        else Err (new_error (''unknown address type '' @ show_dec (unat addr_type)))))"

definition read_from_buf :: "bytes \<Rightarrow> address res" where
  "read_from_buf buf = map_res fst (read_from_cursor buf)"

section \<open>Reading from a stream\<close>

definition read_from_stream :: "reader \<Rightarrow> address res \<times> reader" where
  "read_from_stream stream =
     bind_io (read_exact 1 stream) (\<lambda>addr_type_buf stream.
       let addr_type = addr_type_buf ! 0 in
       if addr_type = ADDR_TYPE_IPV4 then
         bind_io (read_exact 6 stream) (\<lambda>buf stream. (map_res fst (read_v4 buf), stream))
       else if addr_type = ADDR_TYPE_IPV6 then
         bind_io (read_exact 18 stream) (\<lambda>buf stream. (map_res fst (read_v6 buf), stream))
       else if addr_type = ADDR_TYPE_DOMAIN_NAME then
         bind_io (read_exact 1 stream) (\<lambda>length_buf stream.
           let len = unat (length_buf ! 0) in
           bind_io (read_exact (len + 2) stream) (\<lambda>addr_buf stream.
             let domain_buf = take len addr_buf in
             case from_utf8 domain_buf of
               None \<Rightarrow> (Err (IoError Other ''invalid address encoding''), stream)
             | Some addr \<Rightarrow>
                 (let port_buf = take 2 (drop len addr_buf)
                  in (map_res (\<lambda>(port, _). DomainNameAddress addr port) (get_u16 port_buf), stream))))
       else (Err (IoError Other (''not supported address type '' @ show_hex (unat addr_type))), stream))"

section \<open>The wire format is a codec\<close>

fun wire_ok :: "address \<Rightarrow> bool" where
  "wire_ok (SocketAddress (SockV4 ip p)) = True"
| "wire_ok (SocketAddress (SockV6 ip p f s)) = (f = 0 \<and> s = 0)"
| "wire_ok (DomainNameAddress d p) = (utf8_string d \<and> length d \<le> 255)"

definition encode_address :: "address \<Rightarrow> bytes" where
  "encode_address a = write_to_buf a []"

lemma write_to_buf_append: "write_to_buf a buf = buf @ encode_address a"
  by (cases "(a, buf)" rule: write_to_buf.cases) (simp_all add: encode_address_def)

lemma length_concat_put_u16 [simp]: "length (concat (map put_u16 ws)) = 2 * length ws"
  by (induction ws) auto

lemma length_segments [simp]: "length (segments ip) = 8"
  by (cases ip) simp

lemma length_octets [simp]: "length (octets ip) = 4"
  by (cases ip) simp

lemma length_encode_address: "length (encode_address a) = serialized_len a"
  by (cases a rule: serialized_len.cases) (simp_all add: encode_address_def)

lemma encode_address_nonempty [simp]: "encode_address a \<noteq> []"
  by (cases a rule: serialized_len.cases) (simp_all add: encode_address_def)

lemma read_v4_iff:
  "read_v4 cur = Ok (a, r) \<longleftrightarrow>
     (\<exists>ip port. a = SocketAddress (SockV4 ip port) \<and> cur = octets ip @ put_u16 port @ r)"
proof
  assume "read_v4 cur = Ok (a, r)"
  then show "\<exists>ip port. a = SocketAddress (SockV4 ip port) \<and> cur = octets ip @ put_u16 port @ r"
    by (fastforce simp: read_v4_def res_simps split: prod.splits)
next
  assume "\<exists>ip port. a = SocketAddress (SockV4 ip port) \<and> cur = octets ip @ put_u16 port @ r"
  then obtain ip port where "a = SocketAddress (SockV4 ip port)" "cur = octets ip @ put_u16 port @ r"
    by blast
  then show "read_v4 cur = Ok (a, r)" by (cases ip) (simp add: read_v4_def codec_simps)
qed

lemma read_v6_iff:
  "read_v6 cur = Ok (a, r) \<longleftrightarrow>
     (\<exists>ip port. a = SocketAddress (SockV6 ip port 0 0) \<and>
        cur = concat (map put_u16 (segments ip)) @ put_u16 port @ r)"
proof
  assume "read_v6 cur = Ok (a, r)"
  then obtain s1 s2 s3 s4 s5 s6 s7 s8 port where
    "a = SocketAddress (SockV6 (Ipv6Addr s1 s2 s3 s4 s5 s6 s7 s8) port 0 0)"
    "cur = concat (map put_u16 [s1, s2, s3, s4, s5, s6, s7, s8]) @ put_u16 port @ r"
    by (auto simp: read_v6_def res_simps split: prod.splits)
  then show "\<exists>ip port. a = SocketAddress (SockV6 ip port 0 0) \<and>
      cur = concat (map put_u16 (segments ip)) @ put_u16 port @ r"
    by (intro exI [of _ "Ipv6Addr s1 s2 s3 s4 s5 s6 s7 s8"] exI [of _ port]) simp
next
  assume "\<exists>ip port. a = SocketAddress (SockV6 ip port 0 0) \<and>
      cur = concat (map put_u16 (segments ip)) @ put_u16 port @ r"
  then obtain ip port where "a = SocketAddress (SockV6 ip port 0 0)"
      "cur = concat (map put_u16 (segments ip)) @ put_u16 port @ r"
    by blast
  then show "read_v6 cur = Ok (a, r)" by (cases ip) (simp add: read_v6_def codec_simps)
qed

lemma read_v4_total: "6 \<le> length cur \<Longrightarrow> \<exists>a r. read_v4 cur = Ok (a, r)"
  by (auto simp: read_v4_def get_u16_def Suc_le_length_iff numeral_eq_Suc)

lemma bind_get_u16_total:
  assumes "n + 2 \<le> length cur"
    and "\<And>w r. n \<le> length r \<Longrightarrow> \<exists>a s. f (w, r) = Ok (a, s)"
  shows "\<exists>a s. bind_res (get_u16 cur) f = Ok (a, s)"
  using assms by (simp add: get_u16_def)

lemma read_v6_total: "18 \<le> length cur \<Longrightarrow> \<exists>a r. read_v6 cur = Ok (a, r)"
  unfolding read_v6_def
  apply (rule bind_get_u16_total [of 16], simp, simp only: prod.case)+
  apply (rule bind_get_u16_total [of 14], simp, simp only: prod.case)+
  apply (rule bind_get_u16_total [of 12], simp, simp only: prod.case)+
  apply (rule bind_get_u16_total [of 10], simp, simp only: prod.case)+
  apply (rule bind_get_u16_total [of 8], simp, simp only: prod.case)+
  apply (rule bind_get_u16_total [of 6], simp, simp only: prod.case)+
  apply (rule bind_get_u16_total [of 4], simp, simp only: prod.case)+
  apply (rule bind_get_u16_total [of 2], simp, simp only: prod.case)+
  apply (rule bind_get_u16_total [of 0], simp, simp)
  done

lemma unat_length_u8 [simp]: "n \<le> 255 \<Longrightarrow> unat (of_nat n :: u8) = n"
  by (simp add: unat_of_nat_u8)

lemma read_from_cursor_encode:
  "wire_ok a \<Longrightarrow> read_from_cursor (encode_address a @ r) = Ok (a, r)"
proof (cases a rule: wire_ok.cases)
  case (1 ip p)
  have "read_v4 (octets ip @ put_u16 p @ r) = Ok (a, r)"
    using 1 by (simp add: read_v4_iff)
  with 1 show ?thesis
    by (simp add: read_from_cursor_def encode_address_def addr_type_defs)
next
  case (2 ip p f s)
  moreover assume "wire_ok a"
  ultimately have "read_v6 (concat (map put_u16 (segments ip)) @ put_u16 p @ r) = Ok (a, r)"
    by (simp add: read_v6_iff)
  with 2 show ?thesis
    by (simp add: read_from_cursor_def encode_address_def addr_type_defs)
next
  case (3 d p)
  moreover assume "wire_ok a"
  ultimately show ?thesis
    using copy_to_slice_append [of "as_bytes d" "put_u16 p @ r"]
    by (simp add: read_from_cursor_def encode_address_def addr_type_defs codec_simps)
qed

lemma read_from_cursor_sound:
  assumes "read_from_cursor bs = Ok (a, r)"
  shows "wire_ok a \<and> bs = encode_address a @ r"
proof -
  from assms obtain t cur where bs: "bs = t # cur" and len: "1 \<le> length cur"
    by (cases bs) (auto simp: read_from_cursor_def Suc_le_eq split: if_splits)
  consider "t = ADDR_TYPE_IPV4" | "t = ADDR_TYPE_DOMAIN_NAME" | "t = ADDR_TYPE_IPV6"
    using assms bs by (auto simp: read_from_cursor_def split: if_splits)
  then show ?thesis
  proof cases
    case 1
    with assms bs len have "read_v4 cur = Ok (a, r)"
      by (auto simp: read_from_cursor_def split: if_splits)
    with 1 bs show ?thesis by (auto simp: read_v4_iff encode_address_def)
  next
    case 2
    with assms bs len show ?thesis
      by (auto simp: read_from_cursor_def addr_type_defs res_simps encode_address_def
          from_utf8_Some_iff split: if_splits option.splits)
  next
    case 3
    with assms bs len have "read_v6 cur = Ok (a, r)"
      by (auto simp: read_from_cursor_def addr_type_defs split: if_splits)
    with 3 bs show ?thesis by (auto simp: read_v6_iff encode_address_def)
  qed
qed

interpretation addr: exact_codec encode_address read_from_cursor wire_ok
  by unfold_locales (simp_all add: read_from_cursor_encode read_from_cursor_sound)

section \<open>Failures of the cursor reader\<close>

text \<open>
  The domain branch checks that the name fits but not that the two port bytes follow, so the port
  read is the one place where a malformed buffer panics.
\<close>

definition truncated_port :: "bytes \<Rightarrow> bool" where
  "truncated_port bs \<longleftrightarrow>
     2 \<le> length bs \<and> bs ! 0 = ADDR_TYPE_DOMAIN_NAME \<and>
     unat (bs ! 1) + 2 \<le> length bs \<and> length bs < unat (bs ! 1) + 4"

lemma read_from_cursor_Panic_iff: "read_from_cursor bs = Panic \<longleftrightarrow> truncated_port bs"
proof (cases "length bs < 2")
  case True
  then show ?thesis by (simp add: read_from_cursor_def truncated_port_def)
next
  case False
  then obtain t n cur where bs: "bs = t # n # cur"
    by (cases bs; cases "tl bs") auto
  consider (v4) "t = 1" | (dom) "t = 3" | (v6) "t = 4" | (none) "t \<noteq> 1" "t \<noteq> 3" "t \<noteq> 4"
    by blast
  then show ?thesis
  proof cases
    case v4
    then show ?thesis
      using read_v4_total [of "n # cur"]
      by (auto simp: bs read_from_cursor_def truncated_port_def addr_type_defs)
  next
    case dom
    then show ?thesis
      by (auto simp: bs read_from_cursor_def truncated_port_def addr_type_defs copy_to_slice_def
          get_u16_def split: option.splits)
  next
    case v6
    then show ?thesis
      using read_v6_total [of "n # cur"]
      by (auto simp: bs read_from_cursor_def truncated_port_def addr_type_defs)
  next
    case none
    then show ?thesis
      by (simp add: bs read_from_cursor_def truncated_port_def addr_type_defs)
  qed
qed

section \<open>The stream reader\<close>

lemma read_exact_1: "read_exact 1 r = (Ok bs, r') \<Longrightarrow> bs = [bs ! 0]"
  using read_exact_Ok [of 1 r bs r'] by (cases bs) auto

lemma read_from_stream_sound:
  assumes "read_from_stream r = (Ok a, r')"
  shows "wire_ok a \<and> rx_bytes r = encode_address a @ rx_bytes r'"
proof -
  from assms obtain tb r1 where t: "read_exact 1 r = (Ok tb, r1)"
    by (auto simp: read_from_stream_def res_simps)
  then have r: "rx_bytes r = (tb ! 0) # rx_bytes r1"
    using read_exact_Ok [OF t] read_exact_1 [OF t] by (metis append_Cons append_Nil)
  consider "tb ! 0 = ADDR_TYPE_IPV4" | "tb ! 0 = ADDR_TYPE_DOMAIN_NAME" | "tb ! 0 = ADDR_TYPE_IPV6"
    using assms t by (auto simp: read_from_stream_def Let_def split: if_splits)
  then show ?thesis
  proof cases
    case 1
    with assms t obtain buf q where
      b: "read_exact 6 r1 = (Ok buf, r')" "read_v4 buf = Ok (a, q)"
      by (auto simp: read_from_stream_def Let_def res_simps)
    then have "q = []" using read_exact_Ok [OF b(1)] by (auto simp: read_v4_iff)
    with b r 1 show ?thesis
      using read_exact_Ok [OF b(1)] by (auto simp: read_v4_iff encode_address_def)
  next
    case 2
    with assms t obtain lb r2 ab d port q where
      b: "read_exact 1 r1 = (Ok lb, r2)" "read_exact (unat (lb ! 0) + 2) r2 = (Ok ab, r')"
        "from_utf8 (take (unat (lb ! 0)) ab) = Some d"
        "get_u16 (take 2 (drop (unat (lb ! 0)) ab)) = Ok (port, q)"
        "a = DomainNameAddress d port"
      by (auto simp: read_from_stream_def addr_type_defs res_simps Let_def split: option.splits)
    have r1: "rx_bytes r1 = (lb ! 0) # rx_bytes r2"
      using read_exact_Ok [OF b(1)] read_exact_1 [OF b(1)] by (metis append_Cons append_Nil)
    have ab: "rx_bytes r2 = ab @ rx_bytes r'" "length ab = unat (lb ! 0) + 2"
      using read_exact_Ok [OF b(2)] by auto
    have dr: "drop (unat (lb ! 0)) ab = put_u16 port @ q"
      using b(4) ab(2) by (simp add: res_simps)
    with ab(2) have "q = []"
      by (metis add_diff_cancel_left' append_Nil2 length_append length_drop length_put_u16 add_0_right
          add_left_cancel length_0_conv)
    moreover have tk: "take (unat (lb ! 0)) ab = as_bytes d"
      using b(3) by (simp add: from_utf8_Some_iff)
    ultimately have d: "ab = as_bytes d @ put_u16 port"
      using dr append_take_drop_id [of "unat (lb ! 0)" ab] by simp
    with ab(2) have ln: "length d = unat (lb ! 0)" by simp
    from b(3) have "utf8_string d" by (simp add: from_utf8_Some_iff)
    with d ln show ?thesis
      by (simp add: r r1 ab(1) 2 b(5) encode_address_def)
  next
    case 3
    with assms t obtain buf q where
      b: "read_exact 18 r1 = (Ok buf, r')" "read_v6 buf = Ok (a, q)"
      by (auto simp: read_from_stream_def Let_def addr_type_defs res_simps)
    then have "q = []" using read_exact_Ok [OF b(1)] by (auto simp: read_v6_iff)
    with b r 3 show ?thesis
      using read_exact_Ok [OF b(1)] by (auto simp: read_v6_iff encode_address_def)
  qed
qed

lemma read_from_stream_complete:
  assumes ok: "wire_ok a" and cl: "clean r" and rx: "rx_bytes r = encode_address a @ rest"
  shows "\<exists>r'. read_from_stream r = (Ok a, r') \<and> rx_bytes r' = rest \<and> clean r'"
proof -
  obtain t body where e: "encode_address a = t # body"
    by (cases "encode_address a") auto
  with rx obtain r1 where r1: "read_exact 1 r = (Ok [t], r1)" "rx_bytes r1 = body @ rest" "clean r1"
    using read_exact_clean [OF cl, of "[t]" "body @ rest" 1] by auto
  show ?thesis
  proof (cases a rule: wire_ok.cases)
    case (1 ip p)
    with e have "t = 1" "body = octets ip @ put_u16 p"
      by (auto simp: encode_address_def addr_type_defs)
    moreover from this obtain r2 where
      "read_exact 6 r1 = (Ok body, r2)" "rx_bytes r2 = rest" "clean r2"
      using read_exact_clean [OF r1(3) r1(2), of 6] by auto
    moreover have "read_v4 (octets ip @ put_u16 p) = Ok (a, [])" using 1 by (simp add: read_v4_iff)
    ultimately show ?thesis using r1 by (simp add: read_from_stream_def addr_type_defs)
  next
    case (2 ip p f s)
    with e have "t = 4" "body = concat (map put_u16 (segments ip)) @ put_u16 p"
      by (auto simp: encode_address_def addr_type_defs)
    moreover from this obtain r2 where
      "read_exact 18 r1 = (Ok body, r2)" "rx_bytes r2 = rest" "clean r2"
      using read_exact_clean [OF r1(3) r1(2), of 18] by auto
    moreover have "read_v6 (concat (map put_u16 (segments ip)) @ put_u16 p) = Ok (a, [])"
      using 2 ok by (simp add: read_v6_iff)
    ultimately show ?thesis using r1 by (simp add: read_from_stream_def addr_type_defs)
  next
    case (3 d p)
    with e have t: "t = 3" and body: "body = of_nat (length d) # as_bytes d @ put_u16 p"
      by (auto simp: encode_address_def addr_type_defs)
    have ln: "length d \<le> 255" and u: "utf8_string d" using ok 3 by auto
    obtain r2 where r2: "read_exact 1 r1 = (Ok [of_nat (length d)], r2)"
        "rx_bytes r2 = (as_bytes d @ put_u16 p) @ rest" "clean r2"
      using read_exact_clean [OF r1(3), of "[of_nat (length d)]" _ 1] r1(2) body by auto
    obtain r3 where "read_exact (length d + 2) r2 = (Ok (as_bytes d @ put_u16 p), r3)"
        "rx_bytes r3 = rest" "clean r3"
      using read_exact_clean [OF r2(3) r2(2), of "length d + 2"] by auto
    with r1 r2 t ln u 3 show ?thesis
      using get_u16_put_u16 [of p "[]"]
      by (simp add: read_from_stream_def addr_type_defs from_utf8_as_bytes)
  qed
qed

section \<open>The VMess form\<close>

text \<open>
  The client only writes the VMess form; the reader of the protocol's other side is the reference
  against which the writer is checked.
\<close>

definition encode_address_vmess :: "address \<Rightarrow> bytes" where
  "encode_address_vmess a = write_to_buf_vmess a []"

definition decode_address_vmess :: "bytes \<Rightarrow> (address \<times> bytes) res" where
  "decode_address_vmess bs =
     bind_res (get_u16 bs) (\<lambda>(port, bs).
     bind_res (get_u8 bs) (\<lambda>(ty, bs).
       if ty = 1 then map_res (\<lambda>(a, r). (a, drop 2 r)) (read_v4 (take 4 bs @ put_u16 port @ put_u16 0 @ drop 4 bs))
       else if ty = 3 then
         map_res (\<lambda>(a, r). (a, drop 2 r)) (read_v6 (take 16 bs @ put_u16 port @ put_u16 0 @ drop 16 bs))
       else if ty = 2 then
         bind_res (get_u8 bs) (\<lambda>(n, bs).
         bind_res (copy_to_slice (unat n) bs) (\<lambda>(d, bs).
           case from_utf8 d of None \<Rightarrow> Err (new_error ''invalid domain'')
           | Some s \<Rightarrow> Ok (DomainNameAddress s port, bs)))
       else Err (new_error ''invalid address type'')))"

lemma write_to_buf_vmess_append: "write_to_buf_vmess a buf = buf @ encode_address_vmess a"
  by (cases "(a, buf)" rule: write_to_buf_vmess.cases) (simp_all add: encode_address_vmess_def)

lemma decode_encode_address_vmess:
  assumes "wire_ok a"
  shows "decode_address_vmess (encode_address_vmess a @ r) = Ok (a, r)"
proof (cases a rule: wire_ok.cases)
  case (1 ip p)
  have "read_v4 (octets ip @ put_u16 p @ put_u16 0 @ r) = Ok (a, put_u16 0 @ r)"
    using 1 by (simp add: read_v4_iff)
  with 1 show ?thesis
    by (simp add: decode_address_vmess_def encode_address_vmess_def codec_simps)
next
  case (2 ip p f s)
  with assms have "read_v6 (concat (map put_u16 (segments ip)) @ put_u16 p @ put_u16 0 @ r) =
      Ok (a, put_u16 0 @ r)"
    by (simp add: read_v6_iff)
  with 2 show ?thesis
    by (simp add: decode_address_vmess_def encode_address_vmess_def codec_simps)
next
  case (3 d p)
  with assms show ?thesis
    using copy_to_slice_append [of "as_bytes d" r]
    by (simp add: decode_address_vmess_def encode_address_vmess_def codec_simps)
qed

interpretation vaddr: wire_codec encode_address_vmess decode_address_vmess wire_ok
  by unfold_locales (rule decode_encode_address_vmess)

end
