(* ===== verification/Datagram.thy ===== *)
theory Datagram
  imports Address
begin

text \<open>
  The datagram interface of \<open>src/proxy/mod.rs\<close> (\<open>UdpRead\<close>, \<open>UdpWrite\<close>): one poll hands over at
  most one datagram together with the address it concerns. The locales state what a stream that
  carries datagrams promises; Trojan and Shadowsocks provide them.
\<close>

type_synonym packet = "address \<times> bytes"
type_synonym 's recv_poll = "'s \<Rightarrow> (address poll \<times> bytes) \<times> 's"

text \<open>A buffer that is long enough begins with the header its stream begins with.\<close>

lemma buffer_prefix:
  assumes "xs @ s = h @ z" "length h \<le> length xs"
  shows "\<exists>b. xs = h @ b \<and> b @ s = z"
proof -
  from assms(1) consider us where "xs = h @ us" "us @ s = z" | us where "xs @ us = h" "s = us @ z"
    by (auto simp: append_eq_append_conv2)
  then show ?thesis
  proof cases
    case 2
    then show ?thesis using assms by (intro exI [of _ "[]"]) auto
  qed auto
qed

text \<open>
  The receiving side, polled again and again: the datagrams delivered in a number of polls, and
  whether the end (a poll that is ready with nothing) was seen.
\<close>

fun recv_run :: "'s recv_poll \<Rightarrow> nat \<Rightarrow> 's \<Rightarrow> packet list \<times> bool" where
  "recv_run recv 0 s = ([], False)"
| "recv_run recv (Suc n) s =
     (case recv s of
        ((Pending, _), s') \<Rightarrow> recv_run recv n s'
      | ((Ready (Ok a), bs), s') \<Rightarrow>
          if bs = [] then ([], True)
          else (case recv_run recv n s' of (ps, e) \<Rightarrow> ((a, bs) # ps, e))
      | ((Ready _, _), s') \<Rightarrow> ([], False))"

locale datagram_source =
  fixes recv :: "'s recv_poll"
    and inv :: "packet list \<Rightarrow> 's \<Rightarrow> bool"
    and events :: "'s \<Rightarrow> nat"
  assumes recv_next:
      "inv ((a, bs) # ps) s \<Longrightarrow> recv s = (out, s') \<Longrightarrow>
         bs \<noteq> [] \<and>
         (fst out = Pending \<and> inv ((a, bs) # ps) s' \<and> events s' < events s \<or>
          out = (Ready (Ok a), bs) \<and> inv ps s')"
    and recv_end:
      "inv [] s \<Longrightarrow> recv s = (out, s') \<Longrightarrow>
         fst out = Pending \<and> inv [] s' \<and> events s' < events s \<or>
         (\<exists>a. out = (Ready (Ok a), []))"
begin

lemma recv_end_run: "inv [] s \<Longrightarrow> \<exists>n. recv_run recv n s = ([], True)"
proof (induction s rule: measure_induct_rule [of events])
  case (less s)
  obtain p bs s' where r: "recv s = ((p, bs), s')" by (metis surj_pair)
  from recv_end [OF less.prems r] show ?case
  proof (elim disjE conjE exE)
    assume p: "fst (p, bs) = Pending" "inv [] s'" "events s' < events s"
    from less.IH [OF p(3,2)] obtain n where "recv_run recv n s' = ([], True)" by blast
    with r p(1) have "recv_run recv (Suc n) s = ([], True)" by simp
    then show ?thesis by blast
  next
    fix a assume "(p, bs) = (Ready (Ok a), [])"
    with r have "recv_run recv (Suc 0) s = ([], True)" by simp
    then show ?thesis by blast
  qed
qed

lemma recv_all: "inv ps s \<Longrightarrow> \<exists>n. recv_run recv n s = (ps, True)"
proof (induction ps arbitrary: s)
  case Nil
  then show ?case by (rule recv_end_run)
next
  case (Cons x ps)
  obtain a bs where x: "x = (a, bs)" by (cases x)
  from Cons.prems show ?case
  proof (induction s rule: measure_induct_rule [of events])
    case (less s)
    obtain out s' where r: "recv s = (out, s')" by (metis surj_pair)
    from recv_next [OF less.prems [unfolded x] r] have ne: "bs \<noteq> []"
      and next_or_wait: "fst out = Pending \<and> inv (x # ps) s' \<and> events s' < events s \<or>
        out = (Ready (Ok a), bs) \<and> inv ps s'" by (auto simp: x)
    from next_or_wait show ?case
    proof (elim disjE conjE)
      assume p: "fst out = Pending" "inv (x # ps) s'" "events s' < events s"
      from less.IH [OF p(3,2)] obtain n where "recv_run recv n s' = (x # ps, True)" by blast
      with r p(1) have "recv_run recv (Suc n) s = (x # ps, True)" by (cases out) simp
      then show ?thesis by blast
    next
      assume o: "out = (Ready (Ok a), bs)" "inv ps s'"
      from Cons.IH [OF o(2)] obtain n where "recv_run recv n s' = (ps, True)" by blast
      with r o(1) ne x have "recv_run recv (Suc n) s = (x # ps, True)" by simp
      then show ?thesis by blast
    qed
  qed
qed

end

text \<open>
  The sending side: a caller polls with the same message until the poll is ready, then takes the
  next one. \<open>send_run\<close> is the state after all of them, within a number of polls. A message is a
  datagram with its target, or a piece of a byte stream.
\<close>

type_synonym ('p, 's) send_poll = "'p \<Rightarrow> 's \<Rightarrow> nat poll \<times> 's"

fun send_run :: "('p, 's) send_poll \<Rightarrow> nat \<Rightarrow> 'p list \<Rightarrow> 's \<Rightarrow> 's option" where
  "send_run send n [] s = Some s"
| "send_run send 0 (p # ps) s = None"
| "send_run send (Suc n) (p # ps) s =
     (case send p s of
        (Pending, s') \<Rightarrow> send_run send n (p # ps) s'
      | (Ready (Ok k), s') \<Rightarrow> send_run send n ps s'
      | (Ready _, s') \<Rightarrow> None)"

text \<open>The number of polls does not matter once it is enough.\<close>

lemma send_run_mono: "send_run send n ps s = Some x \<Longrightarrow> send_run send (n + k) ps s = Some x"
proof (induction send n ps s rule: send_run.induct)
  case (3 send n p ps s)
  then show ?case by (auto split: prod.splits poll.splits res.splits)
qed simp_all

lemma send_run_unique: "send_run send n ps s = Some x \<Longrightarrow> send_run send m ps s = Some y \<Longrightarrow> x = y"
  using send_run_mono [of send n ps s x m] send_run_mono [of send m ps s y n]
  by (simp add: add.commute)

text \<open>
  What goes out may depend on what went before (a cipher's counter): \<open>c\<close> is that context, \<open>enc c p\<close>
  the bytes of message \<open>p\<close> in it and \<open>adv c p\<close> the context after it. \<open>busy c p k s\<close>: the message
  \<open>p\<close> is being written and \<open>k\<close> bytes of its encoding have gone out.
\<close>

fun enc_all :: "('c \<Rightarrow> 'p \<Rightarrow> bytes) \<Rightarrow> ('c \<Rightarrow> 'p \<Rightarrow> 'c) \<Rightarrow> 'c \<Rightarrow> 'p list \<Rightarrow> bytes" where
  "enc_all enc adv c [] = []"
| "enc_all enc adv c (p # ps) = enc c p @ enc_all enc adv (adv c p) ps"

text \<open>Every message of a sequence may be sent in the context it meets.\<close>

fun all_ok :: "('c \<Rightarrow> 'p \<Rightarrow> bool) \<Rightarrow> ('c \<Rightarrow> 'p \<Rightarrow> 'c) \<Rightarrow> 'c \<Rightarrow> 'p list \<Rightarrow> bool" where
  "all_ok ok adv c [] = True"
| "all_ok ok adv c (p # ps) = (ok c p \<and> all_ok ok adv (adv c p) ps)"

lemma all_ok_const: "(\<And>p. p \<in> set ps \<Longrightarrow> ok p) \<Longrightarrow> all_ok (\<lambda>c. ok) adv c ps"
  by (induction ps arbitrary: c) simp_all

locale message_sink =
  fixes send :: "('p, 's) send_poll"
    and ok :: "'c \<Rightarrow> 'p \<Rightarrow> bool"
    and answer :: "'p \<Rightarrow> nat"
    and enc :: "'c \<Rightarrow> 'p \<Rightarrow> bytes"
    and adv :: "'c \<Rightarrow> 'p \<Rightarrow> 'c"
    and idle :: "'c \<Rightarrow> 's \<Rightarrow> bool"
    and busy :: "'c \<Rightarrow> 'p \<Rightarrow> nat \<Rightarrow> 's \<Rightarrow> bool"
    and sent :: "'s \<Rightarrow> bytes"
    and events :: "'s \<Rightarrow> nat"
  assumes idle_busy: "idle c s \<Longrightarrow> busy c p 0 s"
    and send_poll:
      "ok c p \<Longrightarrow> busy c p k s \<Longrightarrow> send p s = (out, s') \<Longrightarrow>
         (\<exists>k'. out = Pending \<and> k \<le> k' \<and> busy c p k' s' \<and> events s' < events s \<and>
            sent s' = sent s @ take (k' - k) (drop k (enc c p))) \<or>
         out = Ready (Ok (answer p)) \<and> idle (adv c p) s' \<and> sent s' = sent s @ drop k (enc c p)"
begin

lemma send_message:
  assumes "ok c p"
  shows "busy c p k s \<Longrightarrow>
    \<exists>s' n. idle (adv c p) s' \<and> sent s' = sent s @ drop k (enc c p) \<and>
      (\<forall>m ps. send_run send (n + m) (p # ps) s = send_run send m ps s')"
proof (induction s arbitrary: k rule: measure_induct_rule [of events])
  case (less s)
  obtain out s1 where r: "send p s = (out, s1)" by fastforce
  from send_poll [OF assms less.prems r] show ?case
  proof (elim disjE exE conjE)
    fix k' assume w: "out = Pending" "k \<le> k'" "busy c p k' s1" "events s1 < events s"
      "sent s1 = sent s @ take (k' - k) (drop k (enc c p))"
    from less.IH [OF w(4,3)] obtain s' n where n: "idle (adv c p) s'"
      "sent s' = sent s1 @ drop k' (enc c p)"
      "\<forall>m ps. send_run send (n + m) (p # ps) s1 = send_run send m ps s'" by blast
    have "drop k' (enc c p) = drop (k' - k) (drop k (enc c p))" using w(2) by simp
    then have "sent s' = sent s @ drop k (enc c p)" using n(2) w(5) by (metis append_assoc append_take_drop_id)
    moreover have "send_run send (Suc n + m) (p # ps) s = send_run send m ps s'" for m ps
      using n(3) r w(1) by simp
    ultimately show ?thesis using n(1) by blast
  next
    assume d: "out = Ready (Ok (answer p))" "idle (adv c p) s1" "sent s1 = sent s @ drop k (enc c p)"
    have "send_run send (Suc 0 + m) (p # ps) s = send_run send m ps s1" for m ps
      using r d(1) by simp
    with d show ?thesis by blast
  qed
qed

lemma send_all:
  "all_ok ok adv c ps \<Longrightarrow> idle c s \<Longrightarrow>
     \<exists>n s'. send_run send n ps s = Some s' \<and> sent s' = sent s @ enc_all enc adv c ps"
proof (induction ps arbitrary: c s)
  case Nil
  then show ?case by auto
next
  case (Cons p ps)
  have "ok c p" "all_ok ok adv (adv c p) ps" using Cons.prems(1) by simp_all
  note rest = this(2)
  from send_message [OF \<open>ok c p\<close> idle_busy [OF Cons.prems(2)]]
  obtain s1 n where s1: "idle (adv c p) s1" "sent s1 = sent s @ enc c p"
    "\<And>m ps. send_run send (n + m) (p # ps) s = send_run send m ps s1" by (metis drop0)
  have "\<exists>n s'. send_run send n ps s1 = Some s' \<and>
      sent s' = sent s1 @ enc_all enc adv (adv c p) ps"
    by (rule Cons.IH [OF rest s1(1)])
  then obtain m s' where
    "send_run send m ps s1 = Some s'" "sent s' = sent s1 @ enc_all enc adv (adv c p) ps" by blast
  with s1 show ?case by (intro exI [of _ "n + m"] exI [of _ s']) simp
qed

end

lemma enc_all_const: "enc_all (\<lambda>_. enc) (\<lambda>c p. c) c ps = concat (map enc ps)"
  by (induction ps) simp_all

text \<open>
  A byte stream under \<open>AsyncRead\<close>: one poll with room for \<open>n\<close> bytes is pending, or delivers some of
  the bytes still to come, or finds the end.
\<close>

type_synonym 's read_poll = "nat \<Rightarrow> 's \<Rightarrow> (unit poll \<times> bytes) \<times> 's"

fun read_run :: "'s read_poll \<Rightarrow> nat list \<Rightarrow> 's \<Rightarrow> bytes \<times> bool" where
  "read_run read [] s = ([], False)"
| "read_run read (n # ns) s =
     (case read n s of
        ((Pending, _), s') \<Rightarrow> read_run read ns s'
      | ((Ready (Ok u), bs), s') \<Rightarrow>
          if bs = [] then ([], True)
          else (case read_run read ns s' of (cs, e) \<Rightarrow> (bs @ cs, e))
      | ((Ready _, _), s') \<Rightarrow> ([], False))"

locale byte_source =
  fixes read :: "'s read_poll"
    and inv :: "bytes \<Rightarrow> 's \<Rightarrow> bool"
    and events :: "'s \<Rightarrow> nat"
  assumes read_poll:
    "inv bs s \<Longrightarrow> 0 < n \<Longrightarrow> read n s = (out, s') \<Longrightarrow>
       fst out = Pending \<and> inv bs s' \<and> events s' < events s \<or>
       (\<exists>cs ds. out = (Ready (Ok ()), cs) \<and> bs = cs @ ds \<and> length cs \<le> n \<and>
          (cs = [] \<longrightarrow> bs = []) \<and> (cs \<noteq> [] \<longrightarrow> inv ds s' \<and> events s' \<le> events s))"
begin

text \<open>Whatever room the polls offer, enough of them deliver exactly the bytes to come.\<close>

lemma read_all:
  "inv bs s \<Longrightarrow> (\<And>n. n \<in> set ns \<Longrightarrow> 0 < n) \<Longrightarrow> length bs + events s < length ns \<Longrightarrow>
     read_run read ns s = (bs, True)"
proof (induction ns arbitrary: bs s)
  case Nil
  then show ?case by simp
next
  case (Cons n ns)
  obtain p cs s' where r: "read n s = ((p, cs), s')" by (metis surj_pair)
  have "0 < n" using Cons.prems(2) by simp
  from read_poll [OF Cons.prems(1) this r] show ?case
  proof (elim disjE exE conjE)
    assume "fst (p, cs) = Pending" "inv bs s'" "events s' < events s"
    moreover from this have "read_run read ns s' = (bs, True)"
      using Cons.prems by (intro Cons.IH) auto
    ultimately show ?thesis using r by simp
  next
    fix es ds assume o: "(p, cs) = (Ready (Ok ()), es)" "bs = es @ ds" "es = [] \<longrightarrow> bs = []"
      "es \<noteq> [] \<longrightarrow> inv ds s' \<and> events s' \<le> events s"
    show ?thesis
    proof (cases "es = []")
      case True
      with o r show ?thesis by simp
    next
      case False
      have "Suc 0 \<le> length es" using False by (cases es) simp_all
      moreover have "length bs = length es + length ds" using o(2) by simp
      ultimately have "length ds + events s' < length ns" using Cons.prems(3) o(4) False by simp
      then have "read_run read ns s' = (ds, True)"
        using False o(4) Cons.prems(2) by (intro Cons.IH) auto
      with False o r show ?thesis by simp
    qed
  qed
qed

end

section \<open>Readers that run in sections\<close>

text \<open>
  A reader written as a generator runs section by section: a section suspends it with an answer and
  the bytes put into the caller's buffer, or leads to the next one.
\<close>

datatype 's dr_step = DrYield "unit poll" bytes 's | DrStep 's

definition yields ::
  "(bytes \<Rightarrow> 's \<Rightarrow> bool) \<Rightarrow> ('s \<Rightarrow> nat) \<Rightarrow> nat \<Rightarrow> bytes \<Rightarrow> 's \<Rightarrow> unit poll \<Rightarrow> bytes \<Rightarrow> 's \<Rightarrow> bool" where
  "yields src events n bs s p cs s' \<longleftrightarrow>
     p = Pending \<and> src bs s' \<and> events s' < events s \<or>
     p = Ready (Ok ()) \<and>
       (cs = [] \<and> bs = [] \<or>
        cs \<noteq> [] \<and> length cs \<le> n \<and>
          (\<exists>ds. bs = cs @ ds \<and> src ds s' \<and> events s' \<le> events s))"

definition advances ::
  "(bytes \<Rightarrow> 's \<Rightarrow> bool) \<Rightarrow> ('s \<Rightarrow> nat) \<Rightarrow> nat \<Rightarrow> bytes \<Rightarrow> 's \<Rightarrow> 's dr_step \<Rightarrow> bool" where
  "advances src events n bs s out \<longleftrightarrow>
     (case out of
        DrStep s' \<Rightarrow> src bs s' \<and> events s' \<le> events s
      | DrYield p cs s' \<Rightarrow> yields src events n bs s p cs s')"

text \<open>If every section keeps the bytes to come, the reader is a byte stream.\<close>

locale stepped_source =
  fixes step :: "nat \<Rightarrow> 's \<Rightarrow> 's dr_step"
    and read :: "'s read_poll"
    and inv :: "bytes \<Rightarrow> 's \<Rightarrow> bool"
    and events :: "'s \<Rightarrow> nat"
    and rel :: "('s \<times> 's) set"
  assumes wf_rel: "wf rel"
    and step_rel: "step n s = DrStep s' \<Longrightarrow> (s', s) \<in> rel"
    and read_step:
      "read n s = (case step n s of DrYield p bs s' \<Rightarrow> ((p, bs), s') | DrStep s' \<Rightarrow> read n s')"
    and step_advances: "inv bs s \<Longrightarrow> 0 < n \<Longrightarrow> advances inv events n bs s (step n s)"
begin

lemma read_yields:
  "inv bs s \<Longrightarrow> 0 < n \<Longrightarrow> read n s = ((p, cs), s') \<Longrightarrow> yields inv events n bs s p cs s'"
proof (induction s rule: wf_induct_rule [OF wf_rel])
  case (1 s)
  have adv: "advances inv events n bs s (step n s)" using step_advances "1.prems"(1,2) .
  show ?case
  proof (cases "step n s")
    case (DrYield q ds u)
    with adv "1.prems"(3) show ?thesis by (simp add: read_step [of n s] advances_def)
  next
    case (DrStep u)
    then have u: "read n u = ((p, cs), s')" using "1.prems"(3) by (simp add: read_step [of n s])
    have src: "inv bs u" "events u \<le> events s" using adv DrStep by (simp_all add: advances_def)
    have "yields inv events n bs u p cs s'"
      by (rule "1.IH" [OF step_rel [OF DrStep] src(1) "1.prems"(2) u])
    with src(2) show ?thesis by (fastforce simp: yields_def)
  qed
qed

end

sublocale stepped_source \<subseteq> byte_source read inv events
proof
  fix bs s n out s'
  assume "inv bs s" "0 < n" "read n s = (out, s')"
  then show "fst out = Pending \<and> inv bs s' \<and> events s' < events s \<or>
    (\<exists>cs ds. out = (Ready (Ok ()), cs) \<and> bs = cs @ ds \<and> length cs \<le> n \<and>
       (cs = [] \<longrightarrow> bs = []) \<and> (cs \<noteq> [] \<longrightarrow> inv ds s' \<and> events s' \<le> events s))"
    using read_yields [of bs s n "fst out" "snd out" s'] by (cases out) (fastforce simp: yields_def)
qed

end
