(* ===== verification/Trojan.thy ===== *)
theory Trojan
  imports Datagram
begin

text \<open>
  The Trojan protocol: \<open>src/proxy/trojan/mod.rs\<close> (the builder) and
  \<open>src/proxy/trojan/trojan_stream.rs\<close> (request header, datagrams over a byte stream). The two
  generators of the source are program counters with one step per suspension point.
\<close>

section \<open>Request header\<close>

definition CMD_TCP_CONNECT :: u8 where "CMD_TCP_CONNECT = 0x01"
definition CMD_UDP_ASSOCIATE :: u8 where "CMD_UDP_ASSOCIATE = 0x03"
definition HASH_STR_LEN :: nat where "HASH_STR_LEN = 56"
definition crlf :: bytes where "crlf = [0x0D, 0x0A]"

datatype request_header = TcpConnect bytes address | UdpAssociate bytes

fun request_bytes :: "request_header \<Rightarrow> bytes" where
  "request_bytes (TcpConnect hash addr) =
     (let cursor = hash @ crlf @ [CMD_TCP_CONNECT]; cursor = write_to_buf addr cursor
      in cursor @ crlf)"
| "request_bytes (UdpAssociate hash) =
     (let cursor = hash @ crlf @ [CMD_UDP_ASSOCIATE];
          cursor = write_to_buf new_dummy_address cursor
      in cursor @ crlf)"

definition write_to :: "request_header \<Rightarrow> writer \<Rightarrow> unit res \<times> writer" where
  "write_to h w = write_all (request_bytes h) w"

text \<open>
  \<open>read(buf).await\<close>: the first poll that is not pending, with what it delivers.
\<close>

fun read_some :: "nat \<Rightarrow> reader \<Rightarrow> bytes res \<times> reader" where
  "read_some n (RPending # r) = read_some n r"
| "read_some n r =
     (case poll_read n r of
        (Ready x, r') \<Rightarrow> (x, r')
      | (Pending, r') \<Rightarrow> (Ok [], r'))"

text \<open>
  \<open>RequestHeader::read_from\<close>; the last component is what \<open>first_packet\<close> is extended with. The
  lossy rendering of an invalid hash in the error text is a parameter.
\<close>

definition read_from ::
  "(bytes \<Rightarrow> string) \<Rightarrow> bytes \<Rightarrow> reader \<Rightarrow> (request_header res \<times> reader) \<times> bytes" where
  "read_from utf8_lossy valid_hash stream =
     (case read_some HASH_STR_LEN stream of
        (Ok hash_buf, stream) \<Rightarrow>
          if length hash_buf \<noteq> HASH_STR_LEN then
            ((Err (new_error ''first packet too short''), stream), hash_buf)
          else if valid_hash \<noteq> hash_buf then
            ((Err (new_error (''invalid password hash: '' @ utf8_lossy hash_buf)), stream), hash_buf)
          else
            (bind_io (read_exact 2 stream) (\<lambda>_ stream.
             bind_io (read_exact 1 stream) (\<lambda>cmd_buf stream.
             bind_io (read_from_stream stream) (\<lambda>addr stream.
             bind_io (read_exact 2 stream) (\<lambda>_ stream.
               (if cmd_buf ! 0 = CMD_TCP_CONNECT then Ok (TcpConnect hash_buf addr)
                else if cmd_buf ! 0 = CMD_UDP_ASSOCIATE then Ok (UdpAssociate hash_buf)
                else Err (new_error ''invalid command''), stream))))), [])
      | (Err e, stream) \<Rightarrow> ((Err e, stream), [])
      | (Panic, stream) \<Rightarrow> ((Panic, stream), []))"

section \<open>The builder\<close>

definition HEX_CHARS_LOWER :: bytes where
  "HEX_CHARS_LOWER = as_bytes ''0123456789abcdef''"

text \<open>\<open>sha224\<close> is the library's hash: 28 bytes for every input.\<close>

definition hex_password :: "(bytes \<Rightarrow> bytes) \<Rightarrow> bytes \<Rightarrow> bytes" where
  "hex_password sha224 password =
     fold (\<lambda>(i, t) p. p
         [i * 2 := HEX_CHARS_LOWER ! unat (drop_bit 4 t),
          i * 2 + 1 := HEX_CHARS_LOWER ! unat (t AND 0x0F)])
       (enumerate 0 (sha224 password)) (replicate 56 0)"

record trojan_stream_builder =
  tb_password :: bytes
  tb_addr :: address

definition trojan_new :: "(bytes \<Rightarrow> bytes) \<Rightarrow> address \<Rightarrow> bytes \<Rightarrow> bool \<Rightarrow> trojan_stream_builder" where
  "trojan_new sha224 addr password is_udp =
     \<lparr>tb_password = hex_password sha224 password, tb_addr = addr\<rparr>"

definition trojan_build_tcp :: "trojan_stream_builder \<Rightarrow> writer \<Rightarrow> writer res \<times> writer" where
  "trojan_build_tcp b io =
     (let header = TcpConnect (tb_password b) (tb_addr b)
      in case write_to header io of (x, io) \<Rightarrow> (map_res (\<lambda>_. io) x, io))"

section \<open>Receiving datagrams\<close>

text \<open>
  The generator of \<open>TrojanUdpReader::priv_poll_read\<close>: one constructor per \<open>co_await\<close> or
  \<open>co_yield\<close> it can be suspended at, and its completion by a \<open>return\<close>. Where it resumes after
  the \<open>?\<close> of the address decoder is left to the generator macro: the parameter \<open>broken\<close>.
\<close>

datatype trojan_reader_pc = AtAddr | AtHeader | AtData | AtPut | AtDone

record trojan_reader =
  read_state :: trojan_reader_pc
  tr_addr :: address
  tr_buffer :: bytes
  minimal_data_to_put :: nat
  read_res :: "unit poll"
  tr_data_length :: nat
  tr_read_zero :: bool

definition trojan_reader_new :: trojan_reader where
  "trojan_reader_new =
     \<lparr>read_state = AtAddr, tr_addr = new_dummy_address, tr_buffer = [], minimal_data_to_put = 0,
      read_res = Pending, tr_data_length = 0, tr_read_zero = False\<rparr>"

text \<open>
  The shape shared by the three \<open>co_await(self.read_at_least(..))\<close>: stay suspended while pending,
  return on an error (an end of the stream is a success without data), go on otherwise.
\<close>

datatype 's gen_step = Yield "unit poll" bytes 's | Step 's

definition trojan_await ::
  "(bytes \<Rightarrow> nat) \<Rightarrow> nat \<Rightarrow> (trojan_reader \<Rightarrow> reader \<Rightarrow> (trojan_reader \<times> reader) gen_step) \<Rightarrow>
     trojan_reader \<Rightarrow> reader \<Rightarrow> (trojan_reader \<times> reader) gen_step" where
  "trojan_await chunk len rest t r =
     (case read_at_least chunk r len (tr_buffer t) (tr_read_zero t) of
        (p, r, buf, rz) \<Rightarrow>
          (let t = t\<lparr>tr_buffer := buf, tr_read_zero := rz\<rparr> in
           case p of
             Pending \<Rightarrow> Yield Pending [] (t, r)
           | Ready (Ok u) \<Rightarrow> rest (t\<lparr>read_res := p\<rparr>) r
           | Ready (Err e) \<Rightarrow>
               if rz then Yield (Ready (Ok ())) [] (t\<lparr>read_res := p, read_state := AtDone\<rparr>, r)
               else Yield p [] (t\<lparr>read_res := Pending, read_state := AtDone\<rparr>, r)
           | Ready Panic \<Rightarrow> Yield (Ready Panic) [] (t, r)))"

definition header_length :: "bytes \<Rightarrow> nat option" where
  "header_length buffer =
     (if buffer ! 0 = 0x01 then Some (1 + 4 + 2 + 4)
      else if buffer ! 0 = 0x04 then Some (1 + 16 + 2 + 4)
      else if buffer ! 0 = 0x03 then Some (2 + unat (buffer ! 1) + 2 + 4)
      else None)"

definition trojan_read_addr :: "trojan_reader \<Rightarrow> reader \<Rightarrow> (trojan_reader \<times> reader) gen_step" where
  "trojan_read_addr t r =
     (case header_length (tr_buffer t) of
        Some n \<Rightarrow> Step (t\<lparr>tr_data_length := n, read_state := AtHeader\<rparr>, r)
      | None \<Rightarrow>
          Yield (Ready (Err (IoError Other
              (''not supported address type '' @ show_hex (unat (tr_buffer t ! 0)))))) []
            (t\<lparr>read_state := AtDone\<rparr>, r))"

definition trojan_read_header ::
  "trojan_reader_pc \<Rightarrow> trojan_reader \<Rightarrow> reader \<Rightarrow> (trojan_reader \<times> reader) gen_step" where
  "trojan_read_header broken t r =
     (case read_from_buf (tr_buffer t) of
        Err e \<Rightarrow> Yield (Ready (Err e)) [] (t\<lparr>read_state := broken\<rparr>, r)
      | Panic \<Rightarrow> Yield (Ready Panic) [] (t, r)
      | Ok a \<Rightarrow>
          (case bind_res (advance (serialized_len a) (tr_buffer t)) (\<lambda>b.
                bind_res (get_u16 b) (\<lambda>(n, b).
                map_res (Pair n) (advance 2 b))) of
             Ok (n, b) \<Rightarrow>
               Step (t\<lparr>tr_addr := a, tr_buffer := b, tr_data_length := unat n, read_state := AtData\<rparr>, r)
           | _ \<Rightarrow> Yield (Ready Panic) [] (t, r)))"

definition trojan_put :: "nat \<Rightarrow> trojan_reader \<Rightarrow> reader \<Rightarrow> (trojan_reader \<times> reader) gen_step" where
  "trojan_put remaining t r =
     (let m = calc_data_to_put (tr_data_length t) remaining;
          t = t\<lparr>minimal_data_to_put := m\<rparr>
      in if length (tr_buffer t) < m then Yield (Ready Panic) [] (t, r)
         else if m \<noteq> 0 then
           Yield (Ready (Ok ())) (take m (tr_buffer t))
             (t\<lparr>tr_data_length := tr_data_length t - m, tr_buffer := drop m (tr_buffer t),
                read_state := AtPut\<rparr>, r)
         else Step (t\<lparr>read_state := AtAddr\<rparr>, r))"

definition trojan_step ::
  "(bytes \<Rightarrow> nat) \<Rightarrow> trojan_reader_pc \<Rightarrow> nat \<Rightarrow> trojan_reader \<times> reader \<Rightarrow>
     (trojan_reader \<times> reader) gen_step" where
  "trojan_step chunk broken remaining s =
     (case s of (t, r) \<Rightarrow>
        (case read_state t of
           AtAddr \<Rightarrow> trojan_await chunk 2 trojan_read_addr t r
         | AtHeader \<Rightarrow> trojan_await chunk (tr_data_length t) (trojan_read_header broken) t r
         | AtData \<Rightarrow>
             trojan_await chunk (tr_data_length t) (\<lambda>t r. Step (t\<lparr>read_state := AtPut\<rparr>, r)) t r
         | AtPut \<Rightarrow> trojan_put remaining t r
         | AtDone \<Rightarrow> Yield (Ready (Err (IoError UnexpectedEof ''''))) [] (t, r)))"

text \<open>
  A poll runs the generator from one suspension to the next. Between two visits of \<open>AtAddr\<close> at least
  a header leaves the buffer, so a poll always ends.
\<close>

fun pc_rank :: "trojan_reader_pc \<Rightarrow> nat" where
  "pc_rank AtData = 4"
| "pc_rank AtPut = 3"
| "pc_rank AtAddr = 2"
| "pc_rank AtHeader = 1"
| "pc_rank AtDone = 0"

definition reader_weight :: "trojan_reader \<times> reader \<Rightarrow> nat" where
  "reader_weight s = length (tr_buffer (fst s)) + rx_size (snd s)"

lemma trojan_await_Step:
  assumes "trojan_await chunk n rest t r = Step s"
  shows "\<exists>t' r'. rest t' r' = Step s \<and> reader_weight (t', r') \<le> reader_weight (t, r) \<and>
    read_state t' = read_state t"
proof -
  obtain p r' b z where q: "read_at_least chunk r n (tr_buffer t) (tr_read_zero t) = (p, r', b, z)"
    by (cases "read_at_least chunk r n (tr_buffer t) (tr_read_zero t)")
  have "length b + rx_size r' \<le> length (tr_buffer t) + rx_size r" using read_at_least_size [OF q] .
  moreover have "rest (t\<lparr>tr_buffer := b, tr_read_zero := z, read_res := p\<rparr>) r' = Step s"
    using assms q by (auto simp: trojan_await_def Let_def split: poll.splits res.splits if_splits)
  ultimately show ?thesis by (force simp: reader_weight_def)
qed

lemma trojan_read_header_Step:
  assumes "trojan_read_header broken t r = Step s"
  shows "reader_weight s < reader_weight (t, r) \<and> read_state (fst s) = AtData"
  using assms
  by (auto simp: trojan_read_header_def reader_weight_def advance_def get_u16_def res_simps
      split: res.splits if_splits)

lemma trojan_step_decreases:
  assumes "trojan_step chunk broken remaining s = Step s'"
  shows "reader_weight s' < reader_weight s \<or>
    reader_weight s' \<le> reader_weight s \<and>
    pc_rank (read_state (fst s')) < pc_rank (read_state (fst s))"
proof -
  obtain t r where s: "s = (t, r)" by (cases s)
  show ?thesis
  proof (cases "read_state t")
    case AtAddr
    with assms s have "trojan_await chunk 2 trojan_read_addr t r = Step s'"
      by (simp add: trojan_step_def)
    from trojan_await_Step [OF this] AtAddr s show ?thesis
      by (auto simp: trojan_read_addr_def reader_weight_def split: option.splits)
  next
    case AtHeader
    with assms s have "trojan_await chunk (tr_data_length t) (trojan_read_header broken) t r = Step s'"
      by (simp add: trojan_step_def)
    from trojan_await_Step [OF this] s show ?thesis
      by (auto dest!: trojan_read_header_Step)
  next
    case AtData
    with assms s have "trojan_await chunk (tr_data_length t)
        (\<lambda>t r. Step (t\<lparr>read_state := AtPut\<rparr>, r)) t r = Step s'"
      by (simp add: trojan_step_def)
    from trojan_await_Step [OF this] AtData s show ?thesis
      by (auto simp: reader_weight_def)
  next
    case AtPut
    with assms s show ?thesis
      by (auto simp: trojan_step_def trojan_put_def reader_weight_def Let_def split: if_splits)
  next
    case AtDone
    with assms s show ?thesis by (simp add: trojan_step_def)
  qed
qed

function trojan_poll_read ::
  "(bytes \<Rightarrow> nat) \<Rightarrow> trojan_reader_pc \<Rightarrow> nat \<Rightarrow> trojan_reader \<times> reader \<Rightarrow>
     (unit poll \<times> bytes) \<times> trojan_reader \<times> reader" where
  "trojan_poll_read chunk broken remaining s =
     (case trojan_step chunk broken remaining s of
        Yield p bs s' \<Rightarrow> ((p, bs), s')
      | Step s' \<Rightarrow> trojan_poll_read chunk broken remaining s')"
  by pat_completeness auto
termination
  by (relation "inv_image (less_than <*lex*> less_than)
      (\<lambda>(chunk, broken, remaining, s). (reader_weight s, pc_rank (read_state (fst s))))")
    (auto dest: trojan_step_decreases)

declare trojan_poll_read.simps [simp del]

text \<open>\<open>poll_recv_from\<close>: a ready poll takes the address, leaving the default in its place.\<close>

definition trojan_recv ::
  "(bytes \<Rightarrow> nat) \<Rightarrow> trojan_reader_pc \<Rightarrow> nat \<Rightarrow> (trojan_reader \<times> reader) recv_poll" where
  "trojan_recv chunk broken remaining s =
     (case trojan_poll_read chunk broken remaining s of
        ((Ready (Ok u), bs), (t, r)) \<Rightarrow>
          ((Ready (Ok (tr_addr t)), bs), (t\<lparr>tr_addr := new_dummy_address\<rparr>, r))
      | ((Ready (Err e), bs), s') \<Rightarrow> ((Ready (Err e), bs), s')
      | ((Ready Panic, bs), s') \<Rightarrow> ((Ready Panic, bs), s')
      | ((Pending, bs), s') \<Rightarrow> ((Pending, bs), s'))"

section \<open>Datagrams arrive whole and in order\<close>

definition encode_packet :: "packet \<Rightarrow> bytes" where
  "encode_packet p =
     encode_address (fst p) @ put_u16 (of_nat (length (snd p))) @ crlf @ snd p"

definition packet_ok :: "nat \<Rightarrow> packet \<Rightarrow> bool" where
  "packet_ok cap p \<longleftrightarrow>
     wire_ok (fst p) \<and> snd p \<noteq> [] \<and> length (snd p) \<le> 65535 \<and> length (snd p) \<le> cap"

definition encode_packets :: "packet list \<Rightarrow> bytes" where
  "encode_packets ps = concat (map encode_packet ps)"

lemma encode_packets_simps [simp]:
  "encode_packets [] = []"
  "encode_packets (p # ps) = encode_packet p @ encode_packets ps"
  by (simp_all add: encode_packets_def)

lemma length_encode_packet:
  "length (encode_packet p) = serialized_len (fst p) + 4 + length (snd p)"
  by (simp add: encode_packet_def crlf_def length_encode_address)

lemma serialized_len_bounds:
  "4 \<le> serialized_len a" "wire_ok a \<Longrightarrow> serialized_len a \<le> 259"
  by (cases a rule: serialized_len.cases; simp)+

lemma header_length_encode:
  assumes "wire_ok a" "b @ s = encode_packet (a, bs) @ z" "2 \<le> length b"
  shows "header_length b = Some (serialized_len a + 4)"
proof -
  from assms(3) obtain x y b' where b: "b = x # y # b'"
    by (metis One_nat_def Suc_le_length_iff numeral_2_eq_2)
  show ?thesis
    using assms(1,2)
    by (cases a rule: serialized_len.cases)
      (auto simp: b header_length_def encode_packet_def encode_address_def addr_type_defs
        unat_of_nat_u8)
qed

lemma trojan_read_header_encode:
  assumes "packet_ok cap (a, bs)" "serialized_len a + 4 \<le> length (tr_buffer t)"
    "tr_buffer t @ s = encode_packet (a, bs) @ z"
  shows "\<exists>b. trojan_read_header broken t r =
      Step (t\<lparr>tr_addr := a, tr_buffer := b, tr_data_length := length bs, read_state := AtData\<rparr>, r) \<and>
    b @ s = bs @ z"
proof -
  let ?h = "encode_address a @ put_u16 (of_nat (length bs)) @ crlf"
  have lh: "length ?h = serialized_len a + 4" by (simp add: crlf_def length_encode_address)
  from assms(3) have "tr_buffer t @ s = ?h @ (bs @ z)" by (simp add: encode_packet_def)
  from buffer_prefix [OF this] assms(2) lh
  obtain b where b: "tr_buffer t = ?h @ b" "b @ s = bs @ z" by auto
  then have t: "tr_buffer t = encode_address a @ put_u16 (of_nat (length bs)) @ crlf @ b" by simp
  have w: "wire_ok a" "length bs \<le> 65535" using assms(1) by (simp_all add: packet_ok_def)
  have "read_from_buf (tr_buffer t) = Ok a"
    using w(1) by (simp add: t read_from_buf_def read_from_cursor_encode)
  moreover have "advance (serialized_len a) (tr_buffer t) = Ok (put_u16 (of_nat (length bs)) @ crlf @ b)"
    unfolding t by (simp add: advance_def length_encode_address)
  moreover have "advance 2 (crlf @ b) = Ok b" by (simp add: advance_def crlf_def)
  moreover have "unat (of_nat (length bs) :: u16) = length bs" using w(2) by (simp add: unat_of_nat)
  ultimately show ?thesis using b(2)
    by (intro exI [of _ b]) (simp add: trojan_read_header_def get_u16_put_u16)
qed

text \<open>
  The state of the reader against the datagrams still to come: at every suspension point, what is
  buffered and what the stream will deliver are the rest of the encoding of those datagrams.
\<close>

definition trojan_source :: "nat \<Rightarrow> packet list \<Rightarrow> trojan_reader \<times> reader \<Rightarrow> bool" where
  "trojan_source cap ps s \<longleftrightarrow>
     clean (snd s) \<and> \<not> tr_read_zero (fst s) \<and> (\<forall>p \<in> set ps. packet_ok cap p) \<and>
     (let t = fst s; content = tr_buffer t @ rx_bytes (snd s) in
      case read_state t of
        AtAddr \<Rightarrow> content = encode_packets ps
      | AtHeader \<Rightarrow> ps \<noteq> [] \<and> content = encode_packets ps \<and>
          tr_data_length t = serialized_len (fst (hd ps)) + 4
      | AtData \<Rightarrow> ps \<noteq> [] \<and> tr_addr t = fst (hd ps) \<and>
          tr_data_length t = length (snd (hd ps)) \<and> content = snd (hd ps) @ encode_packets (tl ps)
      | AtPut \<Rightarrow>
          tr_data_length t = 0 \<and> content = encode_packets ps \<or>
          ps \<noteq> [] \<and> tr_addr t = fst (hd ps) \<and> tr_data_length t = length (snd (hd ps)) \<and>
          tr_data_length t \<le> length (tr_buffer t) \<and>
          content = snd (hd ps) @ encode_packets (tl ps)
      | AtDone \<Rightarrow> False)"

text \<open>What one poll, or one step of it, may do from such a state.\<close>

definition trojan_next ::
  "nat \<Rightarrow> packet list \<Rightarrow> trojan_reader \<times> reader \<Rightarrow> unit poll \<Rightarrow> bytes \<Rightarrow> trojan_reader \<times> reader \<Rightarrow>
     bool" where
  "trojan_next cap ps s p bs s' \<longleftrightarrow>
     p = Pending \<and> bs = [] \<and> trojan_source cap ps s' \<and> rx_size (snd s') < rx_size (snd s) \<or>
     p = Ready (Ok ()) \<and>
       (if ps = [] then bs = []
        else tr_addr (fst s') = fst (hd ps) \<and> bs = snd (hd ps) \<and> read_state (fst s') = AtPut \<and>
          tr_data_length (fst s') = 0 \<and> trojan_source cap (tl ps) s')"

lemma trojan_await_source:
  assumes "clean r" "chunky chunk" "\<not> tr_read_zero t" "n \<le> usize_max"
    and enough: "n \<le> length (tr_buffer t @ rx_bytes r)"
  shows "\<exists>t' r'. tr_buffer t' @ rx_bytes r' = tr_buffer t @ rx_bytes r \<and> clean r' \<and>
    \<not> tr_read_zero t' \<and> read_state t' = read_state t \<and> tr_addr t' = tr_addr t \<and>
    tr_data_length t' = tr_data_length t \<and>
    (trojan_await chunk n rest t r = Yield Pending [] (t', r') \<and> rx_size r' < rx_size r \<or>
     trojan_await chunk n rest t r = rest t' r' \<and> n \<le> length (tr_buffer t') \<and>
       rx_size r' \<le> rx_size r)"
proof -
  obtain p r' b z where q: "read_at_least chunk r n (tr_buffer t) (tr_read_zero t) = (p, r', b, z)"
    by (cases "read_at_least chunk r n (tr_buffer t) (tr_read_zero t)")
  note bt = read_at_least_bytes [OF q]
  from read_at_least_clean [OF assms(2,1) enough assms(4) q]
  have c: "clean r'" "z = tr_read_zero t" "rx_size r' \<le> rx_size r"
    and pc: "p = Ready (Ok ()) \<or> p = Pending \<and> rx_size r' < rx_size r" by auto
  from pc show ?thesis
  proof
    assume "p = Ready (Ok ())"
    with bt c q assms(3) show ?thesis
      by (intro exI [of _ "t\<lparr>tr_buffer := b, tr_read_zero := z, read_res := p\<rparr>"] exI [of _ r'])
        (simp add: trojan_await_def)
  next
    assume "p = Pending \<and> rx_size r' < rx_size r"
    with bt c q assms(3) show ?thesis
      by (intro exI [of _ "t\<lparr>tr_buffer := b, tr_read_zero := z\<rparr>"] exI [of _ r'])
        (simp add: trojan_await_def)
  qed
qed

lemma trojan_await_end:
  assumes "clean r" "chunky chunk" "\<not> tr_read_zero t" "n \<le> usize_max"
    and few: "length (tr_buffer t @ rx_bytes r) < n"
  shows "\<exists>t' r'. (trojan_await chunk n rest t r = Yield Pending [] (t', r') \<and>
      tr_buffer t' @ rx_bytes r' = tr_buffer t @ rx_bytes r \<and> clean r' \<and> \<not> tr_read_zero t' \<and>
      read_state t' = read_state t \<and> rx_size r' < rx_size r) \<or>
    trojan_await chunk n rest t r = Yield (Ready (Ok ())) [] (t', r')"
proof -
  obtain p r' b z where q: "read_at_least chunk r n (tr_buffer t) (tr_read_zero t) = (p, r', b, z)"
    by (cases "read_at_least chunk r n (tr_buffer t) (tr_read_zero t)")
  note bt = read_at_least_bytes [OF q]
  from read_at_least_clean_eof [OF assms(1,2) few assms(4) q] show ?thesis
  proof (elim conjE disjE)
    assume "clean r'" "p = Pending" "z = tr_read_zero t" "rx_size r' < rx_size r"
    with bt q assms(3) show ?thesis
      by (intro exI [of _ "t\<lparr>tr_buffer := b, tr_read_zero := z\<rparr>"] exI [of _ r'])
        (simp add: trojan_await_def)
  next
    assume "p = Ready (Err (IoError UnexpectedEof ''''))" z
    with q show ?thesis
      by (intro exI [of _ "t\<lparr>tr_buffer := b, tr_read_zero := z, read_res := p, read_state := AtDone\<rparr>"]
          exI [of _ r'])
        (simp add: trojan_await_def)
  qed
qed

lemma encode_packet_min: "8 \<le> length (encode_packet p)"
  using serialized_len_bounds(1) [of "fst p"] by (simp add: length_encode_packet)

lemma usize_max_large: "n \<le> 65535 + 300 \<Longrightarrow> n \<le> usize_max"
  by (simp add: usize_max_def)

definition trojan_advances ::
  "nat \<Rightarrow> packet list \<Rightarrow> trojan_reader \<times> reader \<Rightarrow> (trojan_reader \<times> reader) gen_step \<Rightarrow> bool" where
  "trojan_advances cap ps s out \<longleftrightarrow>
     (case out of
        Step s' \<Rightarrow> trojan_source cap ps s' \<and> rx_size (snd s') \<le> rx_size (snd s)
      | Yield p bs s' \<Rightarrow> trojan_next cap ps s p bs s')"

lemma trojan_step_addr:
  assumes src: "trojan_source cap ps (t, r)" and ch: "chunky chunk" and st: "read_state t = AtAddr"
  shows "trojan_advances cap ps (t, r) (trojan_step chunk broken cap (t, r))"
proof (cases ps)
  case Nil
  have c: "clean r" "\<not> tr_read_zero t" "length (tr_buffer t @ rx_bytes r) < 2"
    using src st Nil by (auto simp: trojan_source_def)
  from trojan_await_end [OF c(1) ch c(2) _ c(3), of trojan_read_addr] src st Nil show ?thesis
    by (auto simp: trojan_advances_def trojan_step_def trojan_next_def trojan_source_def
        usize_max_def Let_def)
next
  case (Cons q qs)
  have c: "clean r" "\<not> tr_read_zero t" and content: "tr_buffer t @ rx_bytes r = encode_packets ps"
    using src st by (auto simp: trojan_source_def)
  have enough: "2 \<le> length (tr_buffer t @ rx_bytes r)"
    using encode_packet_min [of q] content Cons by simp
  have "2 \<le> usize_max" by (simp add: usize_max_def)
  from trojan_await_source [OF c(1) ch c(2) this enough, of trojan_read_addr]
  obtain t' r' where n: "tr_buffer t' @ rx_bytes r' = encode_packets ps" "clean r'"
    "\<not> tr_read_zero t'" "read_state t' = AtAddr"
    "trojan_await chunk 2 trojan_read_addr t r = Yield Pending [] (t', r') \<and> rx_size r' < rx_size r \<or>
     trojan_await chunk 2 trojan_read_addr t r = trojan_read_addr t' r' \<and> 2 \<le> length (tr_buffer t') \<and>
       rx_size r' \<le> rx_size r"
    using content st by auto
  from n(5) show ?thesis
  proof (elim disjE conjE)
    assume "trojan_await chunk 2 trojan_read_addr t r = Yield Pending [] (t', r')"
      "rx_size r' < rx_size r"
    with n src st show ?thesis
      by (simp add: trojan_advances_def trojan_step_def trojan_next_def trojan_source_def)
  next
    assume s: "trojan_await chunk 2 trojan_read_addr t r = trojan_read_addr t' r'"
      "2 \<le> length (tr_buffer t')" "rx_size r' \<le> rx_size r"
    have "wire_ok (fst q)" using src Cons by (auto simp: trojan_source_def packet_ok_def)
    moreover have "tr_buffer t' @ rx_bytes r' = encode_packet (fst q, snd q) @ encode_packets qs"
      using n(1) Cons by simp
    ultimately have "header_length (tr_buffer t') = Some (serialized_len (fst q) + 4)"
      using s(2) by (rule header_length_encode)
    with s n(1-3) src st Cons show ?thesis
      by (simp add: trojan_advances_def trojan_step_def trojan_read_addr_def trojan_source_def)
  qed
qed

lemma trojan_step_header:
  assumes src: "trojan_source cap ps (t, r)" and ch: "chunky chunk" and st: "read_state t = AtHeader"
  shows "trojan_advances cap ps (t, r) (trojan_step chunk broken cap (t, r))"
proof -
  let ?n = "tr_data_length t"
  obtain a bs qs where ps: "ps = (a, bs) # qs"
    using src st by (cases ps) (auto simp: trojan_source_def)
  have c: "clean r" "\<not> tr_read_zero t" and ok: "packet_ok cap (a, bs)"
    and content: "tr_buffer t @ rx_bytes r = encode_packet (a, bs) @ encode_packets qs"
    and len: "?n = serialized_len a + 4"
    using src st ps by (auto simp: trojan_source_def)
  have "?n \<le> usize_max"
    using serialized_len_bounds(2) [of a] ok len by (intro usize_max_large) (simp add: packet_ok_def)
  moreover have "?n \<le> length (tr_buffer t @ rx_bytes r)"
    by (simp only: content len) (simp add: length_encode_packet)
  ultimately obtain t' r' where n: "tr_buffer t' @ rx_bytes r' = tr_buffer t @ rx_bytes r" "clean r'"
    "\<not> tr_read_zero t'" "read_state t' = AtHeader" "tr_data_length t' = ?n"
    "trojan_await chunk ?n (trojan_read_header broken) t r = Yield Pending [] (t', r') \<and>
       rx_size r' < rx_size r \<or>
     trojan_await chunk ?n (trojan_read_header broken) t r = trojan_read_header broken t' r' \<and>
       ?n \<le> length (tr_buffer t') \<and> rx_size r' \<le> rx_size r"
    using trojan_await_source [OF c(1) ch c(2), of ?n "trojan_read_header broken"] st by auto
  from n(6) show ?thesis
  proof (elim disjE conjE)
    assume "trojan_await chunk ?n (trojan_read_header broken) t r = Yield Pending [] (t', r')"
      "rx_size r' < rx_size r"
    with n src st ps show ?thesis
      by (simp add: trojan_advances_def trojan_step_def trojan_next_def trojan_source_def)
  next
    assume s: "trojan_await chunk ?n (trojan_read_header broken) t r = trojan_read_header broken t' r'"
      "?n \<le> length (tr_buffer t')" "rx_size r' \<le> rx_size r"
    have "serialized_len a + 4 \<le> length (tr_buffer t')" using s(2) len by simp
    moreover have "tr_buffer t' @ rx_bytes r' = encode_packet (a, bs) @ encode_packets qs"
      using n(1) content by simp
    ultimately obtain b where b: "trojan_read_header broken t' r' =
        Step (t'\<lparr>tr_addr := a, tr_buffer := b, tr_data_length := length bs, read_state := AtData\<rparr>, r')"
      "b @ rx_bytes r' = bs @ encode_packets qs"
      using trojan_read_header_encode [OF ok] by blast
    with s n(1-3) src st ps show ?thesis
      by (simp add: trojan_advances_def trojan_step_def trojan_source_def)
  qed
qed

lemma trojan_step_data:
  assumes src: "trojan_source cap ps (t, r)" and ch: "chunky chunk" and st: "read_state t = AtData"
  shows "trojan_advances cap ps (t, r) (trojan_step chunk broken cap (t, r))"
proof -
  let ?n = "tr_data_length t" and ?rest = "\<lambda>t r. Step (t\<lparr>read_state := AtPut\<rparr>, r)"
  obtain a bs qs where ps: "ps = (a, bs) # qs"
    using src st by (cases ps) (auto simp: trojan_source_def)
  have c: "clean r" "\<not> tr_read_zero t" and ok: "packet_ok cap (a, bs)"
    and content: "tr_buffer t @ rx_bytes r = bs @ encode_packets qs" and len: "?n = length bs"
    using src st ps by (auto simp: trojan_source_def)
  have "?n \<le> usize_max" using ok len by (intro usize_max_large) (simp add: packet_ok_def)
  moreover have "?n \<le> length (tr_buffer t @ rx_bytes r)" by (simp only: content len) simp
  ultimately obtain t' r' where n: "tr_buffer t' @ rx_bytes r' = tr_buffer t @ rx_bytes r" "clean r'"
    "\<not> tr_read_zero t'" "read_state t' = AtData" "tr_addr t' = tr_addr t" "tr_data_length t' = ?n"
    "trojan_await chunk ?n ?rest t r = Yield Pending [] (t', r') \<and> rx_size r' < rx_size r \<or>
     trojan_await chunk ?n ?rest t r = ?rest t' r' \<and> ?n \<le> length (tr_buffer t') \<and>
       rx_size r' \<le> rx_size r"
    using trojan_await_source [OF c(1) ch c(2), of ?n ?rest] st by auto
  from n(7) show ?thesis
    using n src st ps content
    by (auto simp: trojan_advances_def trojan_step_def trojan_next_def trojan_source_def)
qed

lemma trojan_step_put:
  assumes src: "trojan_source cap ps (t, r)" and st: "read_state t = AtPut"
  shows "trojan_advances cap ps (t, r) (trojan_step chunk broken cap (t, r))"
proof (cases "tr_data_length t = 0")
  case True
  have ne: "ps \<noteq> [] \<Longrightarrow> snd (hd ps) \<noteq> []"
    using src by (cases ps) (auto simp: trojan_source_def packet_ok_def)
  with True src st show ?thesis
    by (auto simp: trojan_advances_def trojan_step_def trojan_put_def trojan_source_def
        calc_data_to_put_def Let_def)
next
  case False
  then obtain a bs qs where ps: "ps = (a, bs) # qs"
    using src st by (cases ps) (auto simp: trojan_source_def)
  have ok: "packet_ok cap (a, bs)" and len: "tr_data_length t = length bs"
      "length bs \<le> length (tr_buffer t)" and a: "tr_addr t = a"
    and content: "tr_buffer t @ rx_bytes r = bs @ encode_packets qs"
    using src st ps False by (auto simp: trojan_source_def)
  obtain b where b: "tr_buffer t = bs @ b" "b @ rx_bytes r = encode_packets qs"
    using buffer_prefix [OF content len(2)] by blast
  have "min (length bs) cap = length bs" using ok by (simp add: packet_ok_def)
  with b len a ok ps src st show ?thesis
    by (simp add: trojan_advances_def trojan_step_def trojan_put_def trojan_source_def
        calc_data_to_put_def trojan_next_def packet_ok_def)
qed

lemma trojan_step_source:
  assumes "trojan_source cap ps s" "chunky chunk"
  shows "trojan_advances cap ps s (trojan_step chunk broken cap s)"
proof (cases s)
  case (Pair t r)
  with assms show ?thesis
    by (cases "read_state t")
      (auto intro: trojan_step_addr trojan_step_header trojan_step_data trojan_step_put
        simp: trojan_source_def)
qed

lemma trojan_poll_source:
  "trojan_source cap ps s \<Longrightarrow> chunky chunk \<Longrightarrow>
     trojan_poll_read chunk broken cap s = ((p, bs), s') \<Longrightarrow> trojan_next cap ps s p bs s'"
proof (induction chunk broken cap s rule: trojan_poll_read.induct)
  case (1 chunk broken cap s)
  have adv: "trojan_advances cap ps s (trojan_step chunk broken cap s)"
    using trojan_step_source [OF "1.prems"(1,2)] .
  show ?case
  proof (cases "trojan_step chunk broken cap s")
    case (Yield q cs u)
    with adv "1.prems"(3) show ?thesis
      by (simp add: trojan_poll_read.simps [of chunk broken cap s] trojan_advances_def)
  next
    case (Step u)
    then have u: "trojan_poll_read chunk broken cap u = ((p, bs), s')"
      using "1.prems"(3) by (simp add: trojan_poll_read.simps [of chunk broken cap s])
    have src: "trojan_source cap ps u" "rx_size (snd u) \<le> rx_size (snd s)"
      using adv Step by (simp_all add: trojan_advances_def)
    have "trojan_next cap ps u p bs s'" by (rule "1.IH" [OF Step src(1) "1.prems"(2) u])
    with src(2) show ?thesis by (auto simp: trojan_next_def)
  qed
qed

lemma trojan_source_addr:
  assumes "trojan_source cap ps (t, r)" "read_state t = AtPut" "tr_data_length t = 0"
  shows "trojan_source cap ps (t\<lparr>tr_addr := x\<rparr>, r)"
proof -
  have "ps \<noteq> [] \<Longrightarrow> snd (hd ps) \<noteq> []"
    using assms by (cases ps) (auto simp: trojan_source_def packet_ok_def)
  with assms show ?thesis by (auto simp: trojan_source_def Let_def)
qed

lemma trojan_recv_eq:
  assumes "trojan_poll_read chunk broken cap s = ((p, bs), s')"
  shows "trojan_recv chunk broken cap s =
    (case p of
       Ready (Ok u) \<Rightarrow> ((Ready (Ok (tr_addr (fst s'))), bs), (fst s')\<lparr>tr_addr := new_dummy_address\<rparr>, snd s')
     | Ready (Err e) \<Rightarrow> ((Ready (Err e), bs), s')
     | Ready Panic \<Rightarrow> ((Ready Panic, bs), s')
     | Pending \<Rightarrow> ((Pending, bs), s'))"
  using assms by (simp add: trojan_recv_def case_prod_beta split: poll.split res.split)

interpretation trojan_udp: datagram_source
  "trojan_recv chunk broken cap" "\<lambda>ps s. chunky chunk \<and> trojan_source cap ps s" "\<lambda>s. rx_size (snd s)"
  for chunk broken cap
proof
  fix a bs ps s out s'
  assume inv: "chunky chunk \<and> trojan_source cap ((a, bs) # ps) s"
    and r: "trojan_recv chunk broken cap s = (out, s')"
  obtain p cs u where q: "trojan_poll_read chunk broken cap s = ((p, cs), u)" by (metis surj_pair)
  from trojan_poll_source [OF _ _ q] inv have n: "trojan_next cap ((a, bs) # ps) s p cs u" by blast
  have "bs \<noteq> []" using inv by (simp add: trojan_source_def packet_ok_def)
  with n r inv show "bs \<noteq> [] \<and>
      (fst out = Pending \<and> (chunky chunk \<and> trojan_source cap ((a, bs) # ps) s') \<and>
         rx_size (snd s') < rx_size (snd s) \<or>
       out = (Ready (Ok a), bs) \<and> (chunky chunk \<and> trojan_source cap ps s'))"
    by (cases u) (auto simp: trojan_next_def trojan_recv_eq [OF q] trojan_source_addr)
next
  fix s out s'
  assume inv: "chunky chunk \<and> trojan_source cap [] s"
    and r: "trojan_recv chunk broken cap s = (out, s')"
  obtain p cs u where q: "trojan_poll_read chunk broken cap s = ((p, cs), u)" by (metis surj_pair)
  from trojan_poll_source [OF _ _ q] inv have n: "trojan_next cap [] s p cs u" by blast
  with r inv show "fst out = Pending \<and> (chunky chunk \<and> trojan_source cap [] s') \<and>
       rx_size (snd s') < rx_size (snd s) \<or>
      (\<exists>a. out = (Ready (Ok a), []))"
    by (auto simp: trojan_next_def trojan_recv_eq [OF q])
qed

lemma trojan_source_new:
  "clean r \<Longrightarrow> rx_bytes r = encode_packets ps \<Longrightarrow> (\<And>p. p \<in> set ps \<Longrightarrow> packet_ok cap p) \<Longrightarrow>
     trojan_source cap ps (trojan_reader_new, r)"
  by (auto simp: trojan_source_def trojan_reader_new_def)

section \<open>Sending datagrams\<close>

datatype trojan_writer_pc = AtStart | AtWriteHeader | AtWriteData | AtClosed

record trojan_writer =
  write_state :: trojan_writer_pc
  tw_buffer :: bytes
  tw_pos :: nat
  tw_data_len :: nat
  write_res :: "nat poll"

definition trojan_writer_new :: trojan_writer where
  "trojan_writer_new =
     \<lparr>write_state = AtStart, tw_buffer = [], tw_pos = 0, tw_data_len = 0, write_res = Pending\<rparr>"

definition write_data ::
  "bytes \<Rightarrow> trojan_writer \<times> writer \<Rightarrow> nat poll \<times> trojan_writer \<times> writer" where
  "write_data buffer s =
     (case s of (t, w) \<Rightarrow>
        (case write_loop (tw_data_len t) buffer (tw_pos t) w of
           (p, pos, w) \<Rightarrow> (p, t\<lparr>tw_pos := pos\<rparr>, w)))"

definition write_buffer_data ::
  "trojan_writer \<times> writer \<Rightarrow> nat poll \<times> trojan_writer \<times> writer" where
  "write_buffer_data s =
     (case s of (t, w) \<Rightarrow>
        (case write_loop (tw_data_len t) (tw_buffer t) (tw_pos t) w of
           (p, pos, w) \<Rightarrow> (p, t\<lparr>tw_pos := pos\<rparr>, w)))"

text \<open>
  The generator of \<open>TrojanUdpWriter::priv_poll_write\<close>. The result of writing the header is kept in
  \<open>write_res\<close> and overwritten unread; a \<open>return\<close> completes the generator.
\<close>

definition trojan_write_payload ::
  "bytes \<Rightarrow> trojan_writer \<times> writer \<Rightarrow> nat poll \<times> trojan_writer \<times> writer" where
  "trojan_write_payload data s =
     (case write_data data s of
        (Pending, (t, w)) \<Rightarrow> (Pending, t\<lparr>write_res := Pending, write_state := AtWriteData\<rparr>, w)
      | (p, (t, w)) \<Rightarrow> (p, t\<lparr>tw_pos := 0, write_res := Pending, write_state := AtStart\<rparr>, w))"

definition trojan_write_header ::
  "bytes \<Rightarrow> trojan_writer \<times> writer \<Rightarrow> nat poll \<times> trojan_writer \<times> writer" where
  "trojan_write_header data s =
     (case write_buffer_data s of
        (Pending, (t, w)) \<Rightarrow> (Pending, t\<lparr>write_state := AtWriteHeader\<rparr>, w)
      | (p, (t, w)) \<Rightarrow>
          trojan_write_payload data (t\<lparr>write_res := p, tw_pos := 0, tw_buffer := []\<rparr>, w))"

definition trojan_poll_write ::
  "packet \<Rightarrow> trojan_writer \<times> writer \<Rightarrow> nat poll \<times> trojan_writer \<times> writer" where
  "trojan_poll_write p s =
     (case (p, s) of ((addr, data), (t, w)) \<Rightarrow>
        (case write_state t of
           AtStart \<Rightarrow>
             (let t = t\<lparr>tw_data_len := length data\<rparr> in
              if length data = 0 then (Ready (Ok 0), t\<lparr>write_state := AtClosed\<rparr>, w)
              else trojan_write_header data
                     (t\<lparr>tw_buffer := write_to_buf addr (tw_buffer t) @
                         put_u16 (of_nat (length data)) @ crlf\<rparr>, w))
         | AtWriteHeader \<Rightarrow> trojan_write_header data (t, w)
         | AtWriteData \<Rightarrow> trojan_write_payload data (t, w)
         | AtClosed \<Rightarrow> (Ready (Err (IoError UnexpectedEof '''')), t, w)))"

section \<open>Datagrams leave whole and in order\<close>

definition packet_header :: "packet \<Rightarrow> bytes" where
  "packet_header p = encode_address (fst p) @ put_u16 (of_nat (length (snd p))) @ crlf"

lemma encode_packet_split: "encode_packet p = packet_header p @ snd p"
  by (simp add: encode_packet_def packet_header_def)

definition trojan_idle :: "trojan_writer \<times> writer \<Rightarrow> bool" where
  "trojan_idle s \<longleftrightarrow>
     write_state (fst s) = AtStart \<and> tw_buffer (fst s) = [] \<and> tw_pos (fst s) = 0 \<and>
     writer_live (snd s)"

definition trojan_busy :: "packet \<Rightarrow> nat \<Rightarrow> trojan_writer \<times> writer \<Rightarrow> bool" where
  "trojan_busy p k s \<longleftrightarrow>
     trojan_idle s \<and> k = 0 \<or>
     writer_live (snd s) \<and> tw_data_len (fst s) = length (snd p) \<and>
     (write_state (fst s) = AtWriteHeader \<and> tw_buffer (fst s) = packet_header p \<and>
        k = tw_pos (fst s) \<and> k \<le> length (packet_header p) \<or>
      write_state (fst s) = AtWriteData \<and> tw_buffer (fst s) = [] \<and>
        k = length (packet_header p) + tw_pos (fst s) \<and> tw_pos (fst s) \<le> length (snd p))"

definition trojan_sends :: "packet \<Rightarrow> nat \<Rightarrow> trojan_writer \<times> writer \<Rightarrow> nat poll \<Rightarrow>
    trojan_writer \<times> writer \<Rightarrow> bool" where
  "trojan_sends p k s out s' \<longleftrightarrow>
     (\<exists>k'. out = Pending \<and> k \<le> k' \<and> trojan_busy p k' s' \<and>
        length (wr_script (snd s')) < length (wr_script (snd s)) \<and>
        wr_sent (snd s') = wr_sent (snd s) @ take (k' - k) (drop k (encode_packet p))) \<or>
     out = Ready (Ok (length (snd p))) \<and> trojan_idle s' \<and>
     wr_sent (snd s') = wr_sent (snd s) @ drop k (encode_packet p)"

lemma trojan_write_payload_sends:
  assumes "writer_live w" "tw_data_len t = length (snd p)" "tw_buffer t = []"
    "tw_pos t \<le> length (snd p)"
    "trojan_write_payload (snd p) (t, w) = (out, s')"
  shows "trojan_sends p (length (packet_header p) + tw_pos t) (t, w) out s'"
proof -
  obtain q pos v where q: "write_loop (tw_data_len t) (snd p) (tw_pos t) w = (q, pos, v)"
    by (cases "write_loop (tw_data_len t) (snd p) (tw_pos t) w")
  note l = write_loop_live [OF assms(1,4) q]
  from l show ?thesis
  proof (elim conjE disjE)
    assume "q = Pending" "length (wr_script v) < length (wr_script w)" "writer_live v"
      "tw_pos t \<le> pos" "pos \<le> length (snd p)"
      "wr_sent v = wr_sent w @ take (pos - tw_pos t) (drop (tw_pos t) (snd p))"
    moreover from this have "out = Pending" "s' = (t\<lparr>tw_pos := pos, write_res := Pending, write_state := AtWriteData\<rparr>, v)"
      using assms(5) q by (simp_all add: trojan_write_payload_def write_data_def)
    ultimately show ?thesis using assms
      by (auto simp: trojan_sends_def trojan_busy_def encode_packet_split
          intro!: exI [of _ "length (packet_header p) + pos"])
  next
    assume "q = Ready (Ok (tw_data_len t))" "pos = length (snd p)" "writer_live v"
      "wr_sent v = wr_sent w @ take (pos - tw_pos t) (drop (tw_pos t) (snd p))"
    moreover from this have "out = q"
      "s' = (t\<lparr>tw_pos := 0, write_res := Pending, write_state := AtStart\<rparr>, v)"
      using assms(5) q by (simp_all add: trojan_write_payload_def write_data_def)
    ultimately show ?thesis using assms
      by (auto simp: trojan_sends_def trojan_idle_def encode_packet_split)
  qed
qed

lemma trojan_write_header_sends:
  assumes "writer_live w" "tw_data_len t = length (snd p)" "tw_buffer t = packet_header p"
    "tw_pos t \<le> length (packet_header p)"
    "trojan_write_header (snd p) (t, w) = (out, s')"
  shows "trojan_sends p (tw_pos t) (t, w) out s'"
proof -
  obtain q pos v where q: "write_loop (tw_data_len t) (tw_buffer t) (tw_pos t) w = (q, pos, v)"
    by (cases "write_loop (tw_data_len t) (tw_buffer t) (tw_pos t) w")
  from assms(3,4) have "tw_pos t \<le> length (tw_buffer t)" by simp
  note l = write_loop_live [OF assms(1) this q]
  from l show ?thesis
  proof (elim conjE disjE)
    assume "q = Pending" "length (wr_script v) < length (wr_script w)" "writer_live v"
      "tw_pos t \<le> pos" "pos \<le> length (tw_buffer t)"
      "wr_sent v = wr_sent w @ take (pos - tw_pos t) (drop (tw_pos t) (tw_buffer t))"
    moreover from this have "out = Pending" "s' = (t\<lparr>tw_pos := pos, write_state := AtWriteHeader\<rparr>, v)"
      using assms(5) q by (simp_all add: trojan_write_header_def write_buffer_data_def)
    ultimately show ?thesis using assms
      by (auto simp: trojan_sends_def trojan_busy_def encode_packet_split intro!: exI [of _ pos])
  next
    assume d: "q = Ready (Ok (tw_data_len t))" "pos = length (tw_buffer t)" "writer_live v"
      "length (wr_script v) \<le> length (wr_script w)"
      "wr_sent v = wr_sent w @ take (pos - tw_pos t) (drop (tw_pos t) (tw_buffer t))"
    let ?t = "t\<lparr>write_res := q, tw_pos := 0, tw_buffer := []\<rparr>"
    have "trojan_write_payload (snd p) (?t, v) = (out, s')"
      using assms(5) q d by (simp add: trojan_write_header_def write_buffer_data_def)
    from trojan_write_payload_sends [OF d(3) _ _ _ this] assms(2)
    have "trojan_sends p (length (packet_header p)) (?t, v) out s'" by simp
    from this [unfolded trojan_sends_def] show ?thesis
    proof (elim disjE exE conjE)
      fix k' assume k': "out = Pending" "length (packet_header p) \<le> k'" "trojan_busy p k' s'"
        "length (wr_script (snd s')) < length (wr_script (snd (?t, v)))"
        "wr_sent (snd s') = wr_sent (snd (?t, v)) @ take (k' - length (packet_header p))
           (drop (length (packet_header p)) (encode_packet p))"
      moreover have "wr_sent (snd s') = wr_sent w @ take (k' - tw_pos t) (drop (tw_pos t) (encode_packet p))"
        using k'(2,5) d(2,5) assms(3,4) by (simp add: encode_packet_split)
      moreover have "tw_pos t \<le> k'" using k'(2) assms(4) by simp
      moreover have "length (wr_script (snd s')) < length (wr_script w)" using k'(4) d(4) by simp
      ultimately show ?thesis by (auto simp: trojan_sends_def)
    next
      assume "out = Ready (Ok (length (snd p)))" "trojan_idle s'"
        "wr_sent (snd s') = wr_sent (snd (?t, v)) @ drop (length (packet_header p)) (encode_packet p)"
      with d(2,5) assms(3,4) show ?thesis by (simp add: trojan_sends_def encode_packet_split)
    qed
  qed
qed

lemma trojan_poll_write_sends:
  assumes "snd p \<noteq> []" "trojan_busy p k s" "trojan_poll_write p s = (out, s')"
  shows "trojan_sends p k s out s'"
proof -
  obtain t w where s: "s = (t, w)" by (cases s)
  obtain a data where p: "p = (a, data)" by (cases p)
  show ?thesis
  proof (cases "write_state t")
    case AtStart
    let ?t = "t\<lparr>tw_data_len := length data, tw_buffer := packet_header p\<rparr>"
    have idle: "writer_live w" "tw_pos t = 0" "tw_buffer t = []" "k = 0"
      using assms(2) AtStart by (auto simp: s trojan_busy_def trojan_idle_def)
    have "trojan_write_header (snd p) (?t, w) = (out, s')"
      using assms(1,3) AtStart idle
      by (simp add: s p trojan_poll_write_def write_to_buf_append packet_header_def)
    from trojan_write_header_sends [OF idle(1) _ _ _ this] idle p
    have "trojan_sends p 0 (?t, w) out s'" by simp
    with idle s show ?thesis by (simp add: trojan_sends_def)
  next
    case AtWriteHeader
    with assms s p trojan_write_header_sends [of w t p out s'] show ?thesis
      by (auto simp: trojan_busy_def trojan_idle_def trojan_poll_write_def)
  next
    case AtWriteData
    with assms s p trojan_write_payload_sends [of w t p out s'] show ?thesis
      by (auto simp: trojan_busy_def trojan_idle_def trojan_poll_write_def)
  next
    case AtClosed
    with assms s show ?thesis by (auto simp: trojan_busy_def trojan_idle_def)
  qed
qed

interpretation trojan_out: message_sink
  trojan_poll_write "\<lambda>c p. snd p \<noteq> []" "\<lambda>p. length (snd p)" "\<lambda>_. encode_packet" "\<lambda>c p. c"
  "\<lambda>_ :: unit. trojan_idle" "\<lambda>_ :: unit. trojan_busy"
  "\<lambda>s. wr_sent (snd s)" "\<lambda>s. length (wr_script (snd s))"
  by unfold_locales
    (simp add: trojan_busy_def, drule trojan_poll_write_sends, auto simp: trojan_sends_def)

lemma enc_all_stateless: "enc_all (\<lambda>_. enc) adv c ps = concat (map enc ps)"
  by (induction ps arbitrary: c) simp_all

lemma trojan_sends_all:
  assumes "\<forall>p \<in> set ps. snd p \<noteq> []" and "writer_live w"
  shows "\<exists>n s. send_run trojan_poll_write n ps (trojan_writer_new, w) = Some s \<and>
    wr_sent (snd s) = wr_sent w @ encode_packets ps"
proof -
  have idle: "trojan_idle (trojan_writer_new, w)"
    using assms(2) by (simp add: trojan_idle_def trojan_writer_new_def)
  have "\<exists>n s. send_run trojan_poll_write n ps (trojan_writer_new, w) = Some s \<and>
      wr_sent (snd s) = wr_sent (snd (trojan_writer_new, w)) @ enc_all (\<lambda>_. encode_packet) (\<lambda>c p. c) () ps"
    by (rule trojan_out.send_all [OF all_ok_const idle]) (rule assms(1) [rule_format])
  then show ?thesis by (simp only: enc_all_stateless encode_packets_def snd_conv)
qed

text \<open>
  \<open>TrojanStreamBuilder::build_udp\<close>: the header, and then either the stream itself (a TCP
  connection for a protocol inside) or the datagram stream over it.
\<close>

record trojan_udp_stream =
  tus_stream :: "reader \<times> writer"
  tus_reader :: trojan_reader
  tus_writer :: trojan_writer

definition trojan_udp_stream_new :: "reader \<times> writer \<Rightarrow> trojan_udp_stream" where
  "trojan_udp_stream_new stream =
     \<lparr>tus_stream = stream, tus_reader = trojan_reader_new, tus_writer = trojan_writer_new\<rparr>"

datatype trojan_udp = TrojanTcp "reader \<times> writer" | TrojanUdp trojan_udp_stream

definition trojan_build_udp ::
  "trojan_stream_builder \<Rightarrow> reader \<times> writer \<Rightarrow> bool \<Rightarrow> trojan_udp res" where
  "trojan_build_udp b io build_tcp_inside =
     (if build_tcp_inside then
        (let header = TcpConnect (tb_password b) (tb_addr b)
         in case write_to header (snd io) of (x, w) \<Rightarrow> map_res (\<lambda>_. TrojanTcp (fst io, w)) x)
      else
        (let header = UdpAssociate (tb_password b)
         in case write_to header (snd io) of
              (x, w) \<Rightarrow> map_res (\<lambda>_. TrojanUdp (trojan_udp_stream_new (fst io, w))) x))"

definition trojan_get_addr :: "trojan_stream_builder \<Rightarrow> address option" where
  "trojan_get_addr b = Some (tb_addr b)"

section \<open>The request header\<close>

fun request_hash :: "request_header \<Rightarrow> bytes" where
  "request_hash (TcpConnect hash addr) = hash"
| "request_hash (UdpAssociate hash) = hash"

fun request_addr :: "request_header \<Rightarrow> address" where
  "request_addr (TcpConnect hash addr) = addr"
| "request_addr (UdpAssociate hash) = new_dummy_address"

fun request_cmd :: "request_header \<Rightarrow> u8" where
  "request_cmd (TcpConnect hash addr) = CMD_TCP_CONNECT"
| "request_cmd (UdpAssociate hash) = CMD_UDP_ASSOCIATE"

lemma request_bytes_eq:
  "request_bytes h =
     request_hash h @ crlf @ [request_cmd h] @ encode_address (request_addr h) @ crlf"
  by (cases h) (simp_all add: write_to_buf_append)

lemma read_from_written:
  assumes hash: "request_hash h = valid_hash" "length valid_hash = 56"
    and ok: "wire_ok (request_addr h)"
    and r: "clean r" "rx_bytes r = request_bytes h @ rest" and first: "r = RData d # r0" "56 \<le> length d"
  shows "\<exists>r'. read_from lossy valid_hash r = ((Ok h, r'), []) \<and> rx_bytes r' = rest \<and> clean r'"
proof -
  let ?tail = "crlf @ [request_cmd h] @ encode_address (request_addr h) @ crlf @ rest"
  let ?r1 = "if length d \<le> 56 then r0 else RData (drop 56 d) # r0"
  have all: "d @ rx_bytes r0 = valid_hash @ ?tail"
    using r(2) first hash by (simp add: request_bytes_eq)
  have "take 56 d = valid_hash"
    using arg_cong [OF all, of "take 56"] first(2) hash(2) by simp
  then have s: "read_some HASH_STR_LEN r = (Ok valid_hash, ?r1)"
    using first by (simp add: HASH_STR_LEN_def)
  have "rx_bytes ?r1 = drop 56 (d @ rx_bytes r0)" using first(2) by simp
  then have rx1: "clean ?r1" "rx_bytes ?r1 = crlf @ ([request_cmd h] @ encode_address (request_addr h) @ crlf @ rest)"
    using r(1) first all hash(2) by simp_all
  from read_exact_clean [OF rx1, of 2] obtain r2 where r2: "read_exact 2 ?r1 = (Ok crlf, r2)"
    "rx_bytes r2 = [request_cmd h] @ (encode_address (request_addr h) @ crlf @ rest)" "clean r2"
    by (auto simp: crlf_def)
  from read_exact_clean [OF r2(3,2), of 1] obtain r3 where r3: "read_exact 1 r2 = (Ok [request_cmd h], r3)"
    "rx_bytes r3 = encode_address (request_addr h) @ (crlf @ rest)" "clean r3" by auto
  from read_from_stream_complete [OF ok r3(3,2)] obtain r4 where
    r4: "read_from_stream r3 = (Ok (request_addr h), r4)" "rx_bytes r4 = crlf @ rest" "clean r4" by auto
  from read_exact_clean [OF r4(3,2), of 2] obtain r5 where r5: "read_exact 2 r4 = (Ok crlf, r5)"
    "rx_bytes r5 = rest" "clean r5" by (auto simp: crlf_def)
  have "read_from lossy valid_hash r = ((Ok h, r5), [])"
    using s r2 r3 r4 r5 hash
    by (cases h) (simp_all add: read_from_def HASH_STR_LEN_def CMD_TCP_CONNECT_def CMD_UDP_ASSOCIATE_def)
  with r5 show ?thesis by blast
qed

lemma read_from_short_delivery:
  assumes "length d < 56"
  shows "read_from lossy valid_hash (RData d # r) =
    ((Err (new_error ''first packet too short''), r), d)"
  using assms by (simp add: read_from_def HASH_STR_LEN_def)

section \<open>The password\<close>

fun hex_byte :: "u8 \<Rightarrow> bytes" where
  "hex_byte t = [HEX_CHARS_LOWER ! unat (drop_bit 4 t), HEX_CHARS_LOWER ! unat (t AND 0x0F)]"

lemma hex_fold:
  "2 * (k + length xs) \<le> length p \<Longrightarrow>
     fold (\<lambda>(i, t) p. p
         [i * 2 := HEX_CHARS_LOWER ! unat (drop_bit 4 t),
          i * 2 + 1 := HEX_CHARS_LOWER ! unat (t AND 0x0F)]) (enumerate k xs) p =
     take (2 * k) p @ concat (map hex_byte xs) @ drop (2 * (k + length xs)) p"
proof (induction xs arbitrary: k p)
  case Nil
  then show ?case by simp
next
  case (Cons t xs)
  let ?p = "p[k * 2 := HEX_CHARS_LOWER ! unat (drop_bit 4 t), k * 2 + 1 := HEX_CHARS_LOWER ! unat (t AND 0x0F)]"
  define a where "a = take (2 * k) p"
  have la: "length a = 2 * k" and "2 \<le> length (drop (2 * k) p)"
    using Cons.prems by (simp_all add: a_def)
  then obtain x y b where "drop (2 * k) p = x # y # b"
    by (metis One_nat_def Suc_le_length_iff numeral_2_eq_2)
  then have p: "p = a @ x # y # b" "length a = 2 * k"
    using la by (simp_all add: a_def) (metis append_take_drop_id)
  have pp: "?p = a @ hex_byte t @ b"
    using p(2) by (simp add: p(1) list_update_append mult.commute)
  have "2 * (Suc k + length xs) \<le> length ?p" using Cons.prems by simp
  note ih = Cons.IH [OF this]
  have "take (2 * Suc k) ?p = take (2 * k) p @ hex_byte t" by (simp only: pp) (simp add: p)
  moreover have "drop (2 * (Suc k + length xs)) ?p = drop (2 * (k + length (t # xs))) p"
    by (simp only: pp) (simp add: p)
  ultimately show ?case using ih by simp
qed

lemma hex_password_eq:
  assumes "length (sha224 pw) = 28"
  shows "hex_password sha224 pw = concat (map hex_byte (sha224 pw))"
  using hex_fold [of 0 "sha224 pw" "replicate 56 0"] assms by (simp add: hex_password_def)

end
