(* ===== verification/Tls.thy ===== *)
theory Tls
  imports Prelude
begin

text \<open>
  The TLS hop's own code: which certificates of the platform are trusted (\<open>src/proxy/tls/unix.rs\<close>,
  \<open>macos.rs\<close>, \<open>windows.rs\<close>), the settings of the connector and the decompression of certificates
  (\<open>tls_stream.rs\<close>). The BoringSSL library, the file system and the trust stores are parameters; a
  certificate is of any type \<open>'x\<close>; for the program it is its DER encoding.
\<close>

section \<open>Certificates of the platform\<close>

fun map_all :: "('a \<Rightarrow> 'b res) \<Rightarrow> 'a list \<Rightarrow> 'b list res" where
  "map_all f [] = Ok []"
| "map_all f (x # xs) = bind_res (f x) (\<lambda>y. map_res (Cons y) (map_all f xs))"

lemma set_map_all: "map_all f xs = Ok ys \<Longrightarrow> set ys = {y. \<exists>x \<in> set xs. f x = Ok y}"
  by (induction xs arbitrary: ys) (auto simp: res_simps)

text \<open>Unix: the PEM file that the probe finds, if any.\<close>

definition load_native_certs_unix ::
  "string option \<Rightarrow> (string \<Rightarrow> bytes res) \<Rightarrow> (bytes \<Rightarrow> 'x list res) \<Rightarrow> 'x list res" where
  "load_native_certs_unix cert_file read_file stack_from_pem =
     (case cert_file of
        Some f \<Rightarrow> bind_res (read_file f) stack_from_pem
      | None \<Rightarrow> Ok [])"

text \<open>
  macOS: the trust settings of the user, then of the administrator, then of the system; a certificate
  without settings is trusted as a root, and the first domain that has a certificate decides for it.
  \<open>settings_of\<close> is the library's answer for a domain: its certificates with their settings, or an error.
\<close>

datatype trust_settings = TrustRoot | TrustAsRoot | Deny | Unspecified

datatype domain = User | Admin | System

type_synonym trust_domain = "(bytes \<times> trust_settings option res) list res"

fun add_domain :: "(bytes \<times> trust_settings option res) list \<Rightarrow> (bytes \<times> trust_settings) list \<Rightarrow>
  (bytes \<times> trust_settings) list res" where
  "add_domain [] all_certs = Ok all_certs"
| "add_domain ((der, settings) # certs) all_certs =
     bind_res settings (\<lambda>s.
       let trusted = (case s of Some t \<Rightarrow> t | None \<Rightarrow> TrustRoot) in
       add_domain certs (if map_of all_certs der = None then all_certs @ [(der, trusted)] else all_certs))"

fun collect_domains :: "trust_domain list \<Rightarrow> (bytes \<times> trust_settings) list \<Rightarrow>
  (bytes \<times> trust_settings) list res" where
  "collect_domains [] all_certs = Ok all_certs"
| "collect_domains (d # ds) all_certs =
     bind_res d (\<lambda>certs. bind_res (add_domain certs all_certs) (collect_domains ds))"

definition load_native_certs_macos ::
  "(domain \<Rightarrow> trust_domain) \<Rightarrow> (bytes \<Rightarrow> 'x res) \<Rightarrow> 'x list res" where
  "load_native_certs_macos settings_of from_der =
     bind_res (collect_domains (map settings_of [User, Admin, System]) []) (\<lambda>all_certs.
       map_all from_der (map fst (filter (\<lambda>(der, t). t \<in> {TrustRoot, TrustAsRoot}) all_certs)))"

text \<open>Windows: the certificates of the user's root store that may identify servers and are in their time.\<close>

datatype valid_uses = AllUses | Oids "string list"

definition PKIX_SERVER_AUTH :: string where
  "PKIX_SERVER_AUTH = ''1.3.6.1.5.5.7.3.1''"

fun usable_for_rustls :: "valid_uses \<Rightarrow> bool" where
  "usable_for_rustls AllUses = True"
| "usable_for_rustls (Oids strs) = list_ex (\<lambda>x. x = PKIX_SERVER_AUTH) strs"

record store_cert =
  cert_uses :: "valid_uses option"
  cert_time_valid :: "bool option"
  cert_der :: bytes

fun add_store_certs :: "(bytes \<Rightarrow> 'x res) \<Rightarrow> store_cert list \<Rightarrow> 'x list \<Rightarrow> 'x list res" where
  "add_store_certs from_der [] certs = Ok certs"
| "add_store_certs from_der (c # cs) certs =
     bind_res (unwrap (cert_uses c)) (\<lambda>uses.
       if \<not> usable_for_rustls uses then add_store_certs from_der cs certs
       else bind_res (unwrap (cert_time_valid c)) (\<lambda>valid.
         if \<not> valid then add_store_certs from_der cs certs
         else bind_res (from_der (cert_der c)) (\<lambda>x. add_store_certs from_der cs (certs @ [x]))))"

definition load_native_certs_windows :: "store_cert list res \<Rightarrow> (bytes \<Rightarrow> 'x res) \<Rightarrow> 'x list res" where
  "load_native_certs_windows store from_der = bind_res store (\<lambda>cs. add_store_certs from_der cs [])"

text \<open>The platform the program is compiled for, with what its libraries answer.\<close>

type_synonym x509 = bytes

datatype platform =
    UnixPlatform "string option" "string \<Rightarrow> bytes res" "bytes \<Rightarrow> x509 list res"
  | MacosPlatform "domain \<Rightarrow> trust_domain" "bytes \<Rightarrow> x509 res"
  | WindowsPlatform "store_cert list res" "bytes \<Rightarrow> x509 res"

fun load_native_certs :: "platform \<Rightarrow> x509 list res" where
  "load_native_certs (UnixPlatform cert_file read_file stack_from_pem) =
     load_native_certs_unix cert_file read_file stack_from_pem"
| "load_native_certs (MacosPlatform settings_of from_der) = load_native_certs_macos settings_of from_der"
| "load_native_certs (WindowsPlatform store from_der) = load_native_certs_windows store from_der"

section \<open>The connector\<close>

text \<open>
  What the TLS library and the file system answer: whether a connector can be made and takes the
  constant settings, which certificates its store accepts, and which files it can load as authorities. The
  chains are built one after the other when the program starts; the answers are taken to stay the
  same meanwhile.
\<close>

record tls_env =
  te_platform :: platform
  te_library :: bool
  te_add_cert :: "x509 \<Rightarrow> bool"
  te_set_ca_file :: "string \<Rightarrow> bool"

record tls_connector =
  tc_certs :: "x509 list"
  tc_ca_file :: "string option"
  tc_alpn_protos :: bytes
  tc_cipher_list :: string
  tc_verify_prefs :: "string list"
  tc_min_proto_version :: string
  tc_signed_cert_timestamps :: bool
  tc_ocsp_stapling :: bool
  tc_grease :: bool
  tc_brotli_certificates :: bool

record tls_stream_builder =
  tb_connector :: tls_connector
  tb_sni :: string
  tb_verify_hostname :: bool
  tb_verify_sni :: bool

text \<open>
  \<open>new_from_config\<close>: every failure is unwrapped. A certificate of the platform that the store refuses is
  passed over.
\<close>

definition tls_connector_of :: "tls_env \<Rightarrow> x509 list \<Rightarrow> string option \<Rightarrow> tls_connector" where
  "tls_connector_of E certs ca_file =
     \<lparr>tc_certs = filter (te_add_cert E) certs, tc_ca_file = ca_file,
      tc_alpn_protos = 2 # as_bytes ''h2'' @ 8 # as_bytes ''http/1.1'',
      tc_cipher_list = ''ALL:!aPSK:!ECDSA+SHA1:!3DES'',
      tc_verify_prefs =
        [''ECDSA_SECP256R1_SHA256'', ''RSA_PSS_RSAE_SHA256'', ''RSA_PKCS1_SHA256'',
         ''ECDSA_SECP384R1_SHA384'', ''RSA_PSS_RSAE_SHA384'', ''RSA_PKCS1_SHA384'',
         ''RSA_PSS_RSAE_SHA512'', ''RSA_PKCS1_SHA512''],
      tc_min_proto_version = ''TLS1_2'', tc_signed_cert_timestamps = True,
      tc_ocsp_stapling = True, tc_grease = True, tc_brotli_certificates = True\<rparr>"

definition tls_new_from_config ::
  "tls_env \<Rightarrow> string \<Rightarrow> string option \<Rightarrow> bool \<Rightarrow> bool \<Rightarrow> tls_stream_builder res" where
  "tls_new_from_config E sni ca_file check_hostname check_sni =
     (if \<not> te_library E then Panic
      else case load_native_certs (te_platform E) of
             Ok certs \<Rightarrow>
               if (case ca_file of Some f \<Rightarrow> \<not> te_set_ca_file E f | None \<Rightarrow> False) then Panic
               else Ok \<lparr>tb_connector = tls_connector_of E certs ca_file, tb_sni = sni,
                        tb_verify_hostname = check_hostname, tb_verify_sni = check_sni\<rparr>
           | _ \<Rightarrow> Panic)"

text \<open>The builder is made exactly when the trust store and the configured file can be read.\<close>

definition tls_loads :: "tls_env \<Rightarrow> string option \<Rightarrow> bool" where
  "tls_loads E ca_file \<longleftrightarrow> te_library E \<and> (\<exists>certs. load_native_certs (te_platform E) = Ok certs) \<and>
     (\<forall>f. ca_file = Some f \<longrightarrow> te_set_ca_file E f)"

lemma tls_new_from_config_cases:
  "if tls_loads E ca_file
   then \<exists>certs. load_native_certs (te_platform E) = Ok certs \<and> tls_new_from_config E sni ca_file vh vs =
     Ok \<lparr>tb_connector = tls_connector_of E certs ca_file, tb_sni = sni, tb_verify_hostname = vh, tb_verify_sni = vs\<rparr>
   else tls_new_from_config E sni ca_file vh vs = Panic"
  by (auto simp: tls_loads_def tls_new_from_config_def split: res.splits option.splits)

text \<open>
  The callback for compressed certificates. \<open>alloc\<close> gives a buffer of the announced length with
  whatever was there before, or none; \<open>brotli\<close> decompresses into at most that many bytes, or fails.
  The answer is the C result with the buffer handed out.
\<close>

definition decompress_ssl_cert ::
  "(nat \<Rightarrow> bytes option) \<Rightarrow> (bytes \<Rightarrow> nat \<Rightarrow> bytes option) \<Rightarrow> nat \<Rightarrow> bytes \<Rightarrow> nat \<times> bytes option" where
  "decompress_ssl_cert alloc brotli uncompressed_len input =
     (case alloc uncompressed_len of
        None \<Rightarrow> (0, None)
      | Some buf \<Rightarrow>
          (case brotli input uncompressed_len of
             Some out \<Rightarrow> (1, Some (out @ drop (length out) buf))
           | None \<Rightarrow> (0, None)))"

section \<open>Which certificates are trusted\<close>

text \<open>What one domain says of a certificate: its first entry, trusted as a root without settings.\<close>

definition trust_of :: "(bytes \<times> trust_settings option res) list \<Rightarrow> bytes \<rightharpoonup> trust_settings" where
  "trust_of certs = map_of (map (\<lambda>(der, s). (der, case s of Ok (Some t) \<Rightarrow> t | _ \<Rightarrow> TrustRoot)) certs)"

lemma trust_of_Nil [simp]: "trust_of [] = Map.empty"
  by (simp add: trust_of_def)

lemma trust_of_Cons [simp]:
  "trust_of ((der, Ok s) # certs) = (trust_of certs)(der \<mapsto> case s of Some t \<Rightarrow> t | None \<Rightarrow> TrustRoot)"
  by (cases s) (simp_all add: trust_of_def)

lemma add_domain_map:
  "add_domain certs all = Ok all' \<Longrightarrow> distinct (map fst all) \<Longrightarrow>
     map_of all' = trust_of certs ++ map_of all \<and> distinct (map fst all')"
proof (induction certs all arbitrary: all' rule: add_domain.induct)
  case (2 der settings certs all)
  from "2.prems"(1) obtain s where s: "settings = Ok s" by (auto simp: res_simps)
  let ?t = "case s of Some t \<Rightarrow> t | None \<Rightarrow> TrustRoot"
  let ?all = "if map_of all der = None then all @ [(der, ?t)] else all"
  have d: "distinct (map fst ?all)" using "2.prems"(2) by (auto simp: map_of_eq_None_iff)
  have "add_domain certs ?all = Ok all'" using "2.prems"(1) s by (simp add: Let_def)
  from "2.IH" [OF refl this d] have IH: "map_of all' = trust_of certs ++ map_of ?all" "distinct (map fst all')"
    by simp_all
  have "map_of ?all = [der \<mapsto> ?t] ++ map_of all"
    by (rule ext) (auto simp: map_add_def split: option.splits)
  with IH s show ?case by (simp add: fun_eq_iff map_add_def split: option.splits)
qed simp

lemma collect_domains_map:
  "collect_domains (map Ok ds) all = Ok all' \<Longrightarrow> distinct (map fst all) \<Longrightarrow>
     map_of all' = foldl (\<lambda>m d. trust_of d ++ m) (map_of all) ds \<and> distinct (map fst all')"
proof (induction ds arbitrary: all)
  case (Cons d ds)
  from Cons.prems(1) obtain a where a: "add_domain d all = Ok a" "collect_domains (map Ok ds) a = Ok all'"
    by (auto simp: res_simps)
  from add_domain_map [OF a(1) Cons.prems(2)] Cons.IH [OF a(2)] show ?case by simp
qed simp

text \<open>What the settings of a domain say; one that cannot be read has no settings.\<close>

definition domain_trust :: "trust_domain \<Rightarrow> bytes \<rightharpoonup> trust_settings" where
  "domain_trust d = (case d of Ok certs \<Rightarrow> trust_of certs | _ \<Rightarrow> Map.empty)"

lemma collect_domains_all_Ok:
  "collect_domains ds all = Ok all' \<Longrightarrow> \<exists>cs. ds = map Ok cs"
proof (induction ds arbitrary: all)
  case (Cons d ds)
  then obtain certs a where "d = Ok certs" "collect_domains ds a = Ok all'" by (auto simp: res_simps)
  with Cons.IH [of a] obtain cs where "d = Ok certs" "ds = map Ok cs" by blast
  then have "d # ds = map Ok (certs # cs)" by simp
  then show ?case by (intro exI)
qed simp

text \<open>
  C17: On macOS exactly those certificates are trusted of which the first domain that has them, the
  user's before the administrator's before the system's, says that they are roots.
\<close>
theorem macos_certs_trusted:
  assumes "load_native_certs_macos settings_of from_der = Ok certs"
  shows "set certs = {x. \<exists>der. from_der der = Ok x \<and>
    (domain_trust (settings_of System) ++ domain_trust (settings_of Admin) ++ domain_trust (settings_of User)) der
      \<in> {Some TrustRoot, Some TrustAsRoot}}"
proof -
  from assms obtain all where all: "collect_domains (map settings_of [User, Admin, System]) [] = Ok all"
    "map_all from_der (map fst (filter (\<lambda>(der, t). t \<in> {TrustRoot, TrustAsRoot}) all)) = Ok certs"
    by (auto simp: load_native_certs_macos_def res_simps)
  from collect_domains_all_Ok [OF all(1)] obtain user admin system where
    d: "settings_of User = Ok user" "settings_of Admin = Ok admin" "settings_of System = Ok system" by auto
  let ?m = "trust_of system ++ trust_of admin ++ trust_of user"
  from collect_domains_map [of "[user, admin, system]" "[]" all] all(1) have
    m: "map_of all = ?m" "distinct (map fst all)" by (simp_all add: d)
  have root: "(\<exists>t. (der, t) \<in> set all \<and> t \<in> {TrustRoot, TrustAsRoot}) \<longleftrightarrow>
      ?m der \<in> {Some TrustRoot, Some TrustAsRoot}" for der
    using m map_of_eq_Some_iff [OF m(2), of der] by auto
  have "set certs = {x. \<exists>der. from_der der = Ok x \<and> (\<exists>t. (der, t) \<in> set all \<and> t \<in> {TrustRoot, TrustAsRoot})}"
    unfolding set_map_all [OF all(2)] by auto
  then show ?thesis unfolding root by (simp add: d domain_trust_def)
qed

lemma macos_certs_trusted_witness:
  "{[2 :: u8]} = {x. \<exists>der. Ok der = Ok x \<and>
    (domain_trust (Ok [([2], Ok (Some Deny)), ([3], Ok (Some Unspecified))]) ++
      domain_trust (Ok [([1], Ok None), ([2], Ok None)]) ++ domain_trust (Ok [([1], Ok (Some Deny))])) der
        \<in> {Some TrustRoot, Some TrustAsRoot}}"
  using macos_certs_trusted [of "\<lambda>d. case d of User \<Rightarrow> Ok [([1], Ok (Some Deny))]
      | Admin \<Rightarrow> Ok [([1], Ok None), ([2], Ok None)]
      | System \<Rightarrow> Ok [([2], Ok (Some Deny)), ([3], Ok (Some Unspecified))]" Ok "[[2]]"]
  by (simp add: load_native_certs_macos_def)

text \<open>
  The certificate handed to the TLS library has the announced length whatever the peer
  compressed; it is the decompressed certificate exactly when that has this length. A shorter one is
  handed out with the bytes behind it left as the allocator gave them.
\<close>
theorem decompressed_certificate:
  assumes "\<forall>n b. alloc n = Some b \<longrightarrow> length b = n" "\<forall>n out. brotli input n = Some out \<longrightarrow> length out \<le> n"
    and "decompress_ssl_cert alloc brotli len input = (1, Some cert)"
  shows "\<exists>out. brotli input len = Some out \<and> length cert = len \<and> take (length out) cert = out \<and>
    (length out < len \<longrightarrow> (\<exists>buf. alloc len = Some buf \<and> drop (length out) cert = drop (length out) buf))"
  using assms by (auto simp: decompress_ssl_cert_def split: option.splits)

lemma decompressed_certificate_witness:
  "\<exists>out. (if length [7 :: u8] \<le> 3 then Some [5, 6] else None) = Some out \<and> length [5, 6, 9 :: u8] = 3 \<and>
    drop (length out) [5, 6, 9 :: u8] = [9]"
  using decompressed_certificate [of "\<lambda>n. Some (replicate n 9)" "\<lambda>inp n. if length inp \<le> n \<and> 2 \<le> n then Some [5, 6] else None"
      "[7]" 3 "[5, 6, 9]"]
  by (auto simp: decompress_ssl_cert_def eval_nat_numeral)

text \<open>A platform whose trust store holds one certificate, and where every file loads.\<close>

definition demo_tls_env :: tls_env where
  "demo_tls_env =
     \<lparr>te_platform = UnixPlatform (Some ''ca.pem'') (\<lambda>f. Ok [48, 130]) (\<lambda>pem. Ok [pem]),
      te_library = True, te_add_cert = (\<lambda>x. True), te_set_ca_file = (\<lambda>f. True)\<rparr>"

lemma demo_tls_env_loads [simp]: "tls_loads demo_tls_env ca_file"
  by (simp add: tls_loads_def demo_tls_env_def load_native_certs_unix_def)

end
