(* ===== verification/Config_Types.thy ===== *)
theory Config_Types
  imports Address Tls
begin

text \<open>
  The configuration as it reaches the program after deserialisation (\<open>src/config/mod.rs\<close>), the
  protocols of \<open>src/proxy/mod.rs\<close>, and the parameters each configured hop hands to its stream
  builder (\<open>src/config/to_chainable_builder.rs\<close>).
\<close>

section \<open>Protocols\<close>

datatype protocol_type =
  SS | Tls | Vmess | Grpc | WS | Trojan | Direct | H2 | Blackhole | SimpleObfs

fun is_uot :: "protocol_type \<Rightarrow> bool" where
  "is_uot Vmess = True"
| "is_uot Trojan = True"
| "is_uot p = False"

datatype cipher_kind = CK_None | Aes128Gcm | Aes256Gcm | ChaCha20Poly1305

fun key_len :: "cipher_kind \<Rightarrow> nat" where
  "key_len CK_None = 0"
| "key_len Aes128Gcm = 16"
| "key_len Aes256Gcm = 32"
| "key_len ChaCha20Poly1305 = 32"

definition salt_len :: "cipher_kind \<Rightarrow> nat" where
  "salt_len k = key_len k"

fun nonce_len :: "cipher_kind \<Rightarrow> nat" where
  "nonce_len CK_None = 0"
| "nonce_len Aes128Gcm = 12"
| "nonce_len Aes256Gcm = 12"
| "nonce_len ChaCha20Poly1305 = 12"

definition tag_len :: "cipher_kind \<Rightarrow> nat" where
  "tag_len k = 16"

section \<open>Configured hops\<close>

record early_data_uri =
  ed_uri :: string
  ed_header_name :: string
  ed_max :: nat

record vmess_config =
  vc_addr :: address
  vc_uuid :: bytes
  vc_security_num :: u8
  vc_tag :: string

record trojan_config =
  tc_password :: string
  tc_addr :: address
  tc_tag :: string

record tls_config =
  tls_sni :: string
  cert_file :: "string option"
  verify_hostname :: bool
  verify_sni :: bool
  tls_tag :: string

record websocket_config =
  wc_uri :: early_data_uri
  wc_early_data_header_name :: string
  wc_max_early_data :: nat
  wc_headers :: "(string \<times> string) list"
  wc_tag :: string

record shadowsocks_config =
  sc_addr :: address
  sc_password :: string
  sc_method :: cipher_kind
  sc_tag :: string

record http2_config =
  h2_tag :: string
  hosts :: "string list"
  h2_headers :: "(string \<times> string) list"
  h2_method :: string
  h2_path :: string

record simple_obfs_config =
  so_tag :: string
  so_host :: address

record grpc_config =
  gc_tag :: string
  gc_host :: string
  gc_path :: string

datatype proto_config =
    VmessConfig vmess_config
  | TrojanConfig trojan_config
  | TlsConfig tls_config
  | WebsocketConfig websocket_config
  | ShadowsocksConfig shadowsocks_config
  | BlackHoleConfig string
  | DirectConfig string
  | Http2Config http2_config
  | SimpleObfsConfig simple_obfs_config
  | GrpcConfig grpc_config

fun get_protocol_type :: "proto_config \<Rightarrow> protocol_type" where
  "get_protocol_type (VmessConfig c) = Vmess"
| "get_protocol_type (TrojanConfig c) = Trojan"
| "get_protocol_type (TlsConfig c) = Tls"
| "get_protocol_type (WebsocketConfig c) = WS"
| "get_protocol_type (ShadowsocksConfig c) = SS"
| "get_protocol_type (BlackHoleConfig t) = Blackhole"
| "get_protocol_type (DirectConfig t) = Direct"
| "get_protocol_type (Http2Config c) = H2"
| "get_protocol_type (SimpleObfsConfig c) = SimpleObfs"
| "get_protocol_type (GrpcConfig c) = Grpc"

fun config_tag :: "proto_config \<Rightarrow> string" where
  "config_tag (VmessConfig c) = vc_tag c"
| "config_tag (TrojanConfig c) = tc_tag c"
| "config_tag (TlsConfig c) = tls_tag c"
| "config_tag (WebsocketConfig c) = wc_tag c"
| "config_tag (ShadowsocksConfig c) = sc_tag c"
| "config_tag (BlackHoleConfig t) = t"
| "config_tag (DirectConfig t) = t"
| "config_tag (Http2Config c) = h2_tag c"
| "config_tag (SimpleObfsConfig c) = so_tag c"
| "config_tag (GrpcConfig c) = gc_tag c"

fun config_addr :: "proto_config \<Rightarrow> address option" where
  "config_addr (VmessConfig c) = Some (vc_addr c)"
| "config_addr (TrojanConfig c) = Some (tc_addr c)"
| "config_addr (ShadowsocksConfig c) = Some (sc_addr c)"
| "config_addr c = None"

section \<open>Stream builders\<close>

text \<open>A stream builder, by the arguments its constructor gets.\<close>

record vmess_option =
  vo_uuid :: bytes
  vo_alter_id :: u16
  vo_addr :: address
  vo_security_num :: u8
  vo_is_udp :: bool

datatype stream_builder =
    VmessBuilder vmess_option
  | TrojanStreamBuilder address bytes
  | TlsStreamBuilder tls_stream_builder
  | BinaryWsStreamBuilder string nat string "(string \<times> string) list"
  | BlackHoleStreamBuilder
  | DirectStreamBuilder
  | ShadowsocksBuilder address string cipher_kind
  | GrpcStreamBuilder string string
  | SimpleObfsStreamBuilder address
  | Http2StreamBuilder "string list" "(string \<times> string) list" string string

text \<open>The builder of each kind of hop, from its configuration and the address it leads to.\<close>

definition vmess_to_builder :: "vmess_config \<Rightarrow> address option \<Rightarrow> stream_builder res" where
  "vmess_to_builder c addr =
     map_res (\<lambda>a. VmessBuilder \<lparr>vo_uuid = vc_uuid c, vo_alter_id = 0, vo_addr = a,
       vo_security_num = vc_security_num c, vo_is_udp = False\<rparr>) (unwrap addr)"

definition trojan_to_builder :: "trojan_config \<Rightarrow> address option \<Rightarrow> stream_builder res" where
  "trojan_to_builder c addr =
     map_res (\<lambda>a. TrojanStreamBuilder a (as_bytes (tc_password c))) (unwrap addr)"

text \<open>
  The TLS hop reads the trust store and the configured file when its builder is made, and panics when
  it cannot.
\<close>

definition tls_to_builder :: "tls_env \<Rightarrow> tls_config \<Rightarrow> stream_builder res" where
  "tls_to_builder E c =
     map_res TlsStreamBuilder
       (tls_new_from_config E (tls_sni c) (cert_file c) (verify_hostname c) (verify_sni c))"

text \<open>The early data of the URI come first, then those of the configuration.\<close>

definition websocket_to_builder :: "websocket_config \<Rightarrow> stream_builder" where
  "websocket_to_builder c =
     (if ed_max (wc_uri c) > 0 then
        BinaryWsStreamBuilder (ed_uri (wc_uri c)) (ed_max (wc_uri c)) (ed_header_name (wc_uri c))
          (wc_headers c)
      else if wc_max_early_data c > 0 \<and> wc_early_data_header_name c \<noteq> [] then
        BinaryWsStreamBuilder (ed_uri (wc_uri c)) (wc_max_early_data c)
          (wc_early_data_header_name c) (wc_headers c)
      else BinaryWsStreamBuilder (ed_uri (wc_uri c)) 0 [] (wc_headers c))"

definition black_hole_to_builder :: stream_builder where
  "black_hole_to_builder = BlackHoleStreamBuilder"

definition direct_to_builder :: stream_builder where
  "direct_to_builder = DirectStreamBuilder"

definition shadowsocks_to_builder :: "shadowsocks_config \<Rightarrow> address option \<Rightarrow> stream_builder res" where
  "shadowsocks_to_builder c addr =
     map_res (\<lambda>a. ShadowsocksBuilder a (sc_password c) (sc_method c)) (unwrap addr)"

definition grpc_to_builder :: "grpc_config \<Rightarrow> stream_builder" where
  "grpc_to_builder c = GrpcStreamBuilder (gc_host c) (gc_path c)"

definition simple_obfs_to_builder :: "simple_obfs_config \<Rightarrow> stream_builder" where
  "simple_obfs_to_builder c = SimpleObfsStreamBuilder (so_host c)"

definition http2_to_builder :: "http2_config \<Rightarrow> stream_builder" where
  "http2_to_builder c = Http2StreamBuilder (hosts c) (h2_headers c) (h2_method c) (h2_path c)"

lemmas to_builder_defs [simp] = vmess_to_builder_def trojan_to_builder_def tls_to_builder_def
  websocket_to_builder_def black_hole_to_builder_def direct_to_builder_def shadowsocks_to_builder_def
  grpc_to_builder_def simple_obfs_to_builder_def http2_to_builder_def

fun to_chainable_stream_builder :: "tls_env \<Rightarrow> proto_config \<Rightarrow> address option \<Rightarrow> stream_builder res" where
  "to_chainable_stream_builder E (VmessConfig c) addr = vmess_to_builder c addr"
| "to_chainable_stream_builder E (TrojanConfig c) addr = trojan_to_builder c addr"
| "to_chainable_stream_builder E (TlsConfig c) addr = tls_to_builder E c"
| "to_chainable_stream_builder E (WebsocketConfig c) addr = Ok (websocket_to_builder c)"
| "to_chainable_stream_builder E (BlackHoleConfig t) addr = Ok black_hole_to_builder"
| "to_chainable_stream_builder E (DirectConfig t) addr = Ok direct_to_builder"
| "to_chainable_stream_builder E (ShadowsocksConfig c) addr = shadowsocks_to_builder c addr"
| "to_chainable_stream_builder E (GrpcConfig c) addr = Ok (grpc_to_builder c)"
| "to_chainable_stream_builder E (SimpleObfsConfig c) addr = Ok (simple_obfs_to_builder c)"
| "to_chainable_stream_builder E (Http2Config c) addr = Ok (http2_to_builder c)"

fun builder_protocol_type :: "stream_builder \<Rightarrow> protocol_type" where
  "builder_protocol_type (VmessBuilder v) = Vmess"
| "builder_protocol_type (TrojanStreamBuilder a p) = Trojan"
| "builder_protocol_type (TlsStreamBuilder b) = Tls"
| "builder_protocol_type (BinaryWsStreamBuilder u m n h) = WS"
| "builder_protocol_type BlackHoleStreamBuilder = Blackhole"
| "builder_protocol_type DirectStreamBuilder = Direct"
| "builder_protocol_type (ShadowsocksBuilder a p m) = SS"
| "builder_protocol_type (GrpcStreamBuilder h p) = Grpc"
| "builder_protocol_type (SimpleObfsStreamBuilder h) = SimpleObfs"
| "builder_protocol_type (Http2StreamBuilder hs h m p) = H2"

fun builder_addr :: "stream_builder \<Rightarrow> address option" where
  "builder_addr (VmessBuilder v) = Some (vo_addr v)"
| "builder_addr (TrojanStreamBuilder a p) = Some a"
| "builder_addr (ShadowsocksBuilder a p m) = Some a"
| "builder_addr b = None"

lemma to_chainable_type:
  "to_chainable_stream_builder E c addr = Ok b \<Longrightarrow> builder_protocol_type b = get_protocol_type c"
  by (cases c) (auto simp: res_simps split: if_splits)

lemma to_chainable_addr:
  "to_chainable_stream_builder E c addr = Ok b \<Longrightarrow>
     builder_addr b = (if config_addr c = None then None else addr)"
  by (cases c; cases addr) (auto simp: res_simps split: if_splits)

text \<open>A hop of a chain can be made when its certificates load; only a TLS hop has any.\<close>

fun hop_loads :: "tls_env \<Rightarrow> proto_config \<Rightarrow> bool" where
  "hop_loads E (TlsConfig c) = tls_loads E (cert_file c)"
| "hop_loads E c = True"

lemma config_addr_loads: "config_addr c \<noteq> None \<Longrightarrow> hop_loads E c"
  by (cases c) auto

lemma to_chainable_Ok:
  "config_addr c = None \<or> addr \<noteq> None \<Longrightarrow> hop_loads E c \<Longrightarrow> \<exists>b. to_chainable_stream_builder E c addr = Ok b"
proof (cases c)
  case (TlsConfig t)
  assume "hop_loads E c"
  with TlsConfig tls_new_from_config_cases [of E "cert_file t" "tls_sni t" "verify_hostname t" "verify_sni t"]
  show ?thesis by auto
qed (cases addr; auto)+

lemma to_chainable_Panic: "\<not> hop_loads E c \<Longrightarrow> to_chainable_stream_builder E c addr = Panic"
proof (cases c)
  case (TlsConfig t)
  assume "\<not> hop_loads E c"
  with TlsConfig tls_new_from_config_cases [of E "cert_file t" "tls_sni t" "verify_hostname t" "verify_sni t"]
  show ?thesis by auto
qed auto

text \<open>Only a TLS hop asks the platform.\<close>

lemma to_chainable_env:
  "config_addr c \<noteq> None \<Longrightarrow> to_chainable_stream_builder E c addr = to_chainable_stream_builder E' c addr"
  by (cases c) auto

lemma config_addr_protocol:
  "config_addr c \<noteq> None \<longleftrightarrow> get_protocol_type c \<in> {Trojan, SS, Vmess}"
  by (cases c) auto

end
