(* ===== verification/Ss_Cipher.thy ===== *)
theory Ss_Cipher
  imports Datagram Config_Types
begin

text \<open>
  The cryptographic layer of Shadowsocks: \<open>src/common/aead_helper.rs\<close>,
  \<open>src/proxy/shadowsocks/aead_helper.rs\<close>, the key derivations of \<open>src/common/mod.rs\<close> and
  \<open>src/proxy/shadowsocks/mod.rs\<close>, and the replay filter of \<open>src/proxy/shadowsocks/context.rs\<close>.
  Ciphers, hashes, the Bloom filter and the random generator are third-party code and parameters
  of the model.
\<close>

section \<open>AEAD ciphers\<close>

text \<open>
  \<open>seal k key nonce aad msg\<close> is \<open>encrypt_in_place_detached\<close> (the ciphertext and the tag, or
  none when the cipher refuses), \<open>unseal\<close> is \<open>decrypt_in_place_detached\<close>: whether it succeeded,
  and the buffer afterwards.
\<close>

record aead_lib =
  seal :: "cipher_kind \<Rightarrow> bytes \<Rightarrow> bytes \<Rightarrow> bytes \<Rightarrow> bytes \<Rightarrow> (bytes \<times> bytes) option"
  unseal :: "cipher_kind \<Rightarrow> bytes \<Rightarrow> bytes \<Rightarrow> bytes \<Rightarrow> bytes \<Rightarrow> bytes \<Rightarrow> bool \<times> bytes"

text \<open>
  The documented behaviour the code relies on: every message a proxy can produce is accepted, the
  ciphertext is as long as the message, tags have 16 bytes, and opening what was sealed under the
  same key, nonce and associated data gives the message back.
\<close>

definition aead_ok :: "aead_lib \<Rightarrow> bool" where
  "aead_ok lib \<longleftrightarrow>
     (\<forall>k key nonce aad msg. length msg < 2 ^ 32 \<longrightarrow>
        (\<exists>c t. seal lib k key nonce aad msg = Some (c, t) \<and> length c = length msg \<and>
           length t = 16 \<and> unseal lib k key nonce aad c t = (True, msg)))"

text \<open>
  \<open>AeadCipherHelper\<close> on a buffer whose last 16 bytes are the place of the tag. Splitting a buffer
  that is too short underflows; working in place, a cipher cannot change the length of a message.
\<close>

definition encrypt_inplace_with_slice ::
  "aead_lib \<Rightarrow> cipher_kind \<Rightarrow> bytes \<Rightarrow> bytes \<Rightarrow> bytes \<Rightarrow> bytes \<Rightarrow> bytes res" where
  "encrypt_inplace_with_slice lib k key nonce aad buffer =
     (if length buffer < 16 then Panic
      else let tag_pos = length buffer - 16 in
           case seal lib k key nonce aad (take tag_pos buffer) of
             Some (msg, tag) \<Rightarrow>
               if length msg = tag_pos \<and> length tag = 16 then Ok (msg @ tag) else Panic
           | None \<Rightarrow> Panic)"

definition decrypt_inplace_with_slice ::
  "aead_lib \<Rightarrow> cipher_kind \<Rightarrow> bytes \<Rightarrow> bytes \<Rightarrow> bytes \<Rightarrow> bytes \<Rightarrow> (bool \<times> bytes) res" where
  "decrypt_inplace_with_slice lib k key nonce aad buffer =
     (if length buffer < 16 then Panic
      else let tag_pos = length buffer - 16 in
           case unseal lib k key nonce aad (take tag_pos buffer) (drop tag_pos buffer) of
             (ok, msg) \<Rightarrow>
               if length msg = tag_pos then Ok (ok, msg @ drop tag_pos buffer) else Panic)"

section \<open>Key derivation\<close>

text \<open>\<open>hkdf salt ikm info n\<close> is HKDF-SHA1 expanded to \<open>n\<close> bytes.\<close>

type_synonym hkdf = "bytes \<Rightarrow> bytes \<Rightarrow> bytes \<Rightarrow> nat \<Rightarrow> bytes option"

definition ss_hkdf_sha1 :: "hkdf \<Rightarrow> bytes \<Rightarrow> bytes \<Rightarrow> bytes res" where
  "ss_hkdf_sha1 hkdf iv_or_salt key =
     (let ikm = key in
      case hkdf iv_or_salt ikm (as_bytes ''ss-subkey'') 64 of Some okm \<Rightarrow> Ok okm | None \<Rightarrow> Panic)"

definition hkdf_ok :: "hkdf \<Rightarrow> bool" where
  "hkdf_ok hkdf \<longleftrightarrow> (\<forall>salt ikm info. \<exists>okm. hkdf salt ikm info 64 = Some okm \<and> length okm = 64)"

text \<open>\<open>openssl_bytes_to_key\<close>: the key filled by blocks of 16 bytes, each hash taking the last one.\<close>

definition copy_at :: "bytes \<Rightarrow> nat \<Rightarrow> bytes \<Rightarrow> bytes" where
  "copy_at key offset src = take offset key @ src @ drop (offset + length src) key"
lemma length_copy_at [simp]: "offset + length src \<le> length key \<Longrightarrow> length (copy_at key offset src) = length key"
  by (simp add: copy_at_def)

function bytes_to_key_loop :: "(bytes \<Rightarrow> bytes) \<Rightarrow> bytes \<Rightarrow> nat \<Rightarrow> bytes option \<Rightarrow> bytes \<Rightarrow> bytes" where
  "bytes_to_key_loop md5 password offset last_digest key =
     (if offset < length key then
        let digest = md5 ((case last_digest of Some digest \<Rightarrow> digest | None \<Rightarrow> []) @ password);
            amt = min (length key - offset) 16
        in bytes_to_key_loop md5 password (offset + 16) (Some digest)
             (copy_at key offset (take amt digest))
      else key)"
  by pat_completeness auto
termination
  by (relation "measure (\<lambda>(md5, password, offset, last, key). length key - offset)") auto

declare bytes_to_key_loop.simps [simp del]

definition openssl_bytes_to_key :: "(bytes \<Rightarrow> bytes) \<Rightarrow> bytes \<Rightarrow> bytes \<Rightarrow> bytes" where
  "openssl_bytes_to_key md5 password key = bytes_to_key_loop md5 password 0 None key"

text \<open>The blocks in order: each digest covers the one before and the password.\<close>

fun key_block :: "(bytes \<Rightarrow> bytes) \<Rightarrow> bytes \<Rightarrow> nat \<Rightarrow> bytes" where
  "key_block md5 password 0 = md5 password"
| "key_block md5 password (Suc i) = md5 (key_block md5 password i @ password)"

definition last_block :: "(bytes \<Rightarrow> bytes) \<Rightarrow> bytes \<Rightarrow> nat \<Rightarrow> bytes option" where
  "last_block md5 password i = (if i = 0 then None else Some (key_block md5 password (i - 1)))"

lemma key_block_next:
  "md5 ((case last_block md5 password i of Some digest \<Rightarrow> digest | None \<Rightarrow> []) @ password) =
     key_block md5 password i"
  by (cases i) (simp_all add: last_block_def)

lemma last_block_Suc [simp]: "last_block md5 password (Suc i) = Some (key_block md5 password i)"
  by (simp add: last_block_def)

lemma bytes_to_key_loop_blocks:
  assumes md5: "\<And>x. length (md5 x) = 16"
  shows "length key \<le> 16 * (i + n) \<Longrightarrow>
    bytes_to_key_loop md5 password (16 * i) (last_block md5 password i) key =
      take (16 * i) key @
      take (length key - 16 * i) (concat (map (key_block md5 password) [i ..< i + n]))"
proof (induction n arbitrary: i key)
  case 0
  then show ?case by (simp add: bytes_to_key_loop.simps)
next
  case (Suc n)
  show ?case
  proof (cases "16 * i < length key")
    case False
    then show ?thesis by (simp add: bytes_to_key_loop.simps)
  next
    case True
    let ?b = "key_block md5 password i" and ?amt = "min (length key - 16 * i) 16"
    let ?key = "copy_at key (16 * i) (take ?amt ?b)"
    have lb: "length ?b = 16" using md5 by (cases i) simp_all
    have lk: "length ?key = length key" using True lb by simp
    have "bytes_to_key_loop md5 password (16 * i) (last_block md5 password i) key =
        bytes_to_key_loop md5 password (16 * Suc i) (last_block md5 password (Suc i)) ?key"
      using True by (subst bytes_to_key_loop.simps)
        (simp add: Let_def key_block_next last_block_Suc add.commute)
    also have "\<dots> = take (16 * Suc i) ?key @
        take (length ?key - 16 * Suc i) (concat (map (key_block md5 password) [Suc i ..< Suc i + n]))"
      using Suc.prems lk by (intro Suc.IH) simp
    also have "take (16 * Suc i) ?key = take (16 * i) key @ take ?amt ?b"
      using True lb by (simp add: copy_at_def min_def)
    finally have "bytes_to_key_loop md5 password (16 * i) (last_block md5 password i) key =
        (take (16 * i) key @ take ?amt ?b) @
        take (length key - 16 * Suc i) (concat (map (key_block md5 password) [Suc i ..< Suc i + n]))"
      by (simp only: lk)
    moreover have "[i ..< i + Suc n] = i # [Suc i ..< Suc i + n]" by (simp add: upt_rec)
    moreover have "take ?amt ?b @ take (length key - 16 * Suc i) cs = take (length key - 16 * i) (?b @ cs)" for cs
      using lb by (auto simp: min_def add.commute)
    ultimately show ?thesis by simp
  qed
qed

lemma openssl_bytes_to_key_blocks:
  assumes "\<And>x. length (md5 x) = 16" "length key \<le> 16 * n"
  shows "openssl_bytes_to_key md5 password key =
    take (length key) (concat (map (key_block md5 password) [0 ..< n]))"
  using bytes_to_key_loop_blocks [of md5 key 0 n password] assms
  by (simp add: openssl_bytes_to_key_def last_block_def)

section \<open>The cipher state\<close>

record aead_cipher =
  ac_kind :: cipher_kind
  ac_key :: bytes
  ac_nonce :: bytes
  ac_nlen :: nat

text \<open>
  \<open>AeadCipher::new\<close>: the cipher of kind \<open>None\<close> is unreachable, and a subkey of the wrong length is
  refused by the cipher's constructor.
\<close>

definition aead_cipher_new :: "hkdf \<Rightarrow> cipher_kind \<Rightarrow> bytes \<Rightarrow> bytes \<Rightarrow> aead_cipher res" where
  "aead_cipher_new hkdf k key iv_or_salt =
     bind_res (ss_hkdf_sha1 hkdf iv_or_salt key) (\<lambda>sub_key.
       if length sub_key < length key \<or> k = CK_None \<or> length key \<noteq> key_len k then Panic
       else Ok \<lparr>ac_kind = k, ac_key = take (length key) sub_key, ac_nonce = replicate 24 0,
                ac_nlen = nonce_len k\<rparr>)"

text \<open>
  \<open>increase_nonce\<close>: the carry runs in 16 bits over the first \<open>nlen\<close> bytes; the first byte is
  increased whatever \<open>nlen\<close> is.
\<close>

fun increase_rest :: "nat \<Rightarrow> u16 \<Rightarrow> bytes \<Rightarrow> bytes" where
  "increase_rest n c [] = []"
| "increase_rest 0 c bs = bs"
| "increase_rest (Suc n) c (b # bs) =
     (let c = c + ucast b in ucast c # increase_rest n (drop_bit 8 c) bs)"

fun increase_nonce :: "nat \<Rightarrow> bytes \<Rightarrow> bytes" where
  "increase_nonce nlen [] = []"
| "increase_nonce nlen (b # bs) =
     (let c = ucast b + 1 :: u16 in ucast c # increase_rest (nlen - 1) (drop_bit 8 c) bs)"

definition aead_encrypt :: "aead_lib \<Rightarrow> aead_cipher \<Rightarrow> bytes \<Rightarrow> (bytes \<times> aead_cipher) res" where
  "aead_encrypt lib c plaintext_in_ciphertext_out =
     (let nonce = take (ac_nlen c) (ac_nonce c) in
      map_res (\<lambda>buf. (buf, c\<lparr>ac_nonce := increase_nonce (ac_nlen c) (ac_nonce c)\<rparr>))
        (encrypt_inplace_with_slice lib (ac_kind c) (ac_key c) nonce [] plaintext_in_ciphertext_out))"

definition aead_decrypt :: "aead_lib \<Rightarrow> aead_cipher \<Rightarrow> bytes \<Rightarrow> ((bool \<times> bytes) \<times> aead_cipher) res" where
  "aead_decrypt lib c ciphertext_in_plaintext_out =
     (let nonce = take (ac_nlen c) (ac_nonce c) in
      map_res (\<lambda>ret. (ret, c\<lparr>ac_nonce := increase_nonce (ac_nlen c) (ac_nonce c)\<rparr>))
        (decrypt_inplace_with_slice lib (ac_kind c) (ac_key c) nonce [] ciphertext_in_plaintext_out))"

section \<open>Nonces count\<close>

fun of_le :: "bytes \<Rightarrow> nat" where
  "of_le [] = 0"
| "of_le (b # bs) = unat b + 256 * of_le bs"

fun to_le :: "nat \<Rightarrow> nat \<Rightarrow> bytes" where
  "to_le 0 x = []"
| "to_le (Suc n) x = of_nat x # to_le n (x div 256)"

lemma length_increase_rest [simp]: "length (increase_rest n c bs) = length bs"
  by (induction n c bs rule: increase_rest.induct) (simp_all add: Let_def)

lemma length_increase_nonce [simp]: "length (increase_nonce n bs) = length bs"
  by (cases bs) (simp_all add: Let_def)

lemma carry_step:
  fixes b :: u8 and c :: u16
  assumes "unat c \<le> 1"
  shows "unat (ucast (c + ucast b) :: u8) = (unat c + unat b) mod 256"
    "unat (drop_bit 8 (c + ucast b)) = (unat c + unat b) div 256"
proof -
  have ub: "unat (ucast b :: u16) = unat b"
    by (simp add: unsigned_ucast_eq take_bit_nat_eq_self_iff less_trans [OF unat_u8_less])
  have "unat c + unat b < 65536" using assms unat_u8_less [of b] by linarith
  then have sum: "unat (c + ucast b) = unat c + unat b" using ub by (simp add: unat_word_ariths(1))
  show "unat (ucast (c + ucast b) :: u8) = (unat c + unat b) mod 256"
    by (simp add: unsigned_ucast_eq take_bit_eq_mod sum)
  show "unat (drop_bit 8 (c + ucast b)) = (unat c + unat b) div 256"
    using \<open>unat c + unat b < 65536\<close>
    by (simp only: unsigned_drop_bit_eq sum) (simp add: drop_bit_eq_div take_bit_eq_mod)
qed

lemma length_to_le [simp]: "length (to_le n x) = n"
  by (induction n arbitrary: x) simp_all

lemma of_le_to_le: "of_le (to_le n x) = x mod 256 ^ n"
proof (induction n arbitrary: x)
  case (Suc n)
  then show ?case by (simp add: unat_of_nat_u8 mod_mult2_eq [of x 256])
qed simp

lemma increase_rest_to_le:
  "unat c \<le> 1 \<Longrightarrow> increase_rest n c (to_le n x @ ys) = to_le n (x + unat c) @ ys"
proof (induction n arbitrary: c x)
  case 0
  then show ?case by (cases ys) simp_all
next
  case (Suc n)
  let ?s = "c + ucast (of_nat x :: u8)"
  note s = carry_step [OF Suc.prems, of "of_nat x"]
  have lo: "(ucast ?s :: u8) = of_nat (x + unat c)"
    by (rule word_unat_eq_iff [THEN iffD2])
      (simp add: s(1) unat_of_nat_u8 mod_add_left_eq mod_add_right_eq add.commute del: of_nat_add)
  have hi: "x div 256 + unat (drop_bit 8 ?s) = (x + unat c) div 256"
  proof -
    have "x div 256 + (k + x mod 256) div 256 = (x + k) div 256" for k :: nat
    proof -
      have "x + k = (k + x mod 256) + 256 * (x div 256)" by simp
      then have "(x + k) div 256 = ((k + x mod 256) + 256 * (x div 256)) div 256" by metis
      then show ?thesis by (simp only: div_mult_self2)
    qed
    then show ?thesis by (simp only: s(2) unat_of_nat_u8)
  qed
  have "unat (drop_bit 8 ?s) \<le> 1"
    using Suc.prems by (simp add: s(2) unat_of_nat_u8)
  from Suc.IH [OF this, of "x div 256"] lo hi show ?case by (simp add: Let_def)
qed

text \<open>The nonce of the \<open>i\<close>-th operation: the little-endian count.\<close>

definition nonce_at :: "nat \<Rightarrow> nat \<Rightarrow> bytes" where
  "nonce_at nlen i = to_le nlen i @ replicate (24 - nlen) 0"

lemma to_le_0: "to_le n 0 = replicate n 0"
  by (induction n) simp_all

lemma nonce_at_0: "nlen \<le> 24 \<Longrightarrow> nonce_at nlen 0 = replicate 24 0"
  by (simp add: nonce_at_def to_le_0 flip: replicate_add)

lemma increase_nonce_at:
  assumes "0 < nlen"
  shows "increase_nonce nlen (nonce_at nlen i) = nonce_at nlen (i + 1)"
proof -
  from assms obtain n where n: "nlen = Suc n" by (cases nlen) auto
  have "increase_nonce nlen (nonce_at nlen i) =
      increase_rest nlen 1 (to_le nlen i @ replicate (24 - nlen) 0)"
    by (simp add: n nonce_at_def Let_def add.commute)
  then show ?thesis by (simp add: nonce_at_def increase_rest_to_le)
qed

lemma take_nonce_at [simp]: "take nlen (nonce_at nlen i) = to_le nlen i"
  by (simp add: nonce_at_def)

lemma to_le_eq_iff: "to_le n i = to_le n j \<longleftrightarrow> i mod 256 ^ n = j mod 256 ^ n"
proof
  assume "to_le n i = to_le n j"
  then show "i mod 256 ^ n = j mod 256 ^ n" by (metis of_le_to_le)
next
  have "to_le n (x mod 256 ^ n) = to_le n x" for x
  proof (induction n arbitrary: x)
    case (Suc n)
    have "x mod 256 ^ Suc n div 256 = x div 256 mod 256 ^ n" by (simp add: mod_mult_div)
    moreover have "(of_nat (x mod 256 ^ Suc n) :: u8) = of_nat x"
      by (rule word_unat_eq_iff [THEN iffD2]) (simp add: unat_of_nat_u8 mod_mod_cancel)
    ultimately show ?case using Suc by simp
  qed simp
  then show "i mod 256 ^ n = j mod 256 ^ n \<Longrightarrow> to_le n i = to_le n j" by metis
qed

section \<open>Sealing and opening in step\<close>

text \<open>The cipher of a connection after \<open>i\<close> operations, and the sealed form of a message then.\<close>

definition cipher_at :: "cipher_kind \<Rightarrow> bytes \<Rightarrow> nat \<Rightarrow> aead_cipher" where
  "cipher_at k sub i =
     \<lparr>ac_kind = k, ac_key = sub, ac_nonce = nonce_at (nonce_len k) i, ac_nlen = nonce_len k\<rparr>"

definition sealed :: "aead_lib \<Rightarrow> cipher_kind \<Rightarrow> bytes \<Rightarrow> nat \<Rightarrow> bytes \<Rightarrow> bytes" where
  "sealed lib k sub i msg =
     (case seal lib k sub (to_le (nonce_len k) i) [] msg of Some (c, t) \<Rightarrow> c @ t | None \<Rightarrow> [])"

lemma nonce_len_pos: "k \<noteq> CK_None \<Longrightarrow> nonce_len k = 12"
  by (cases k) simp_all

lemma length_sealed:
  "aead_ok lib \<Longrightarrow> length msg < 2 ^ 32 \<Longrightarrow> length (sealed lib k sub i msg) = length msg + 16"
  unfolding aead_ok_def sealed_def by (fastforce split: option.splits)

lemma encrypt_at:
  assumes "aead_ok lib" "k \<noteq> CK_None" "length msg < 2 ^ 32" "length pad = 16"
  shows "aead_encrypt lib (cipher_at k sub i) (msg @ pad) =
    Ok (sealed lib k sub i msg, cipher_at k sub (i + 1))"
proof -
  from assms(1,3) obtain c t where "seal lib k sub (to_le (nonce_len k) i) [] msg = Some (c, t)"
    "length c = length msg" "length t = 16" unfolding aead_ok_def by metis
  then show ?thesis
    using assms(2,4) increase_nonce_at [of "nonce_len k" i]
    by (simp add: aead_encrypt_def cipher_at_def encrypt_inplace_with_slice_def sealed_def
        nonce_len_pos)
qed

lemma decrypt_at:
  assumes "aead_ok lib" "k \<noteq> CK_None" "length msg < 2 ^ 32"
  shows "\<exists>t. length t = 16 \<and> aead_decrypt lib (cipher_at k sub i) (sealed lib k sub i msg) =
    Ok ((True, msg @ t), cipher_at k sub (i + 1))"
proof -
  from assms(1,3) obtain c t where "seal lib k sub (to_le (nonce_len k) i) [] msg = Some (c, t)"
    "length c = length msg" "length t = 16"
    "unseal lib k sub (to_le (nonce_len k) i) [] c t = (True, msg)" unfolding aead_ok_def by metis
  then show ?thesis
    using assms(2) increase_nonce_at [of "nonce_len k" i]
    by (simp add: aead_decrypt_def cipher_at_def decrypt_inplace_with_slice_def sealed_def
        nonce_len_pos)
qed

text \<open>The subkey a connection uses.\<close>

definition sub_key :: "hkdf \<Rightarrow> cipher_kind \<Rightarrow> bytes \<Rightarrow> bytes \<Rightarrow> bytes" where
  "sub_key hkdf k key salt =
     (case hkdf salt key (as_bytes ''ss-subkey'') 64 of Some okm \<Rightarrow> take (key_len k) okm | None \<Rightarrow> [])"

lemma aead_cipher_new_at:
  assumes "hkdf_ok hkdf" "k \<noteq> CK_None" "length key = key_len k"
  shows "aead_cipher_new hkdf k key salt = Ok (cipher_at k (sub_key hkdf k key salt) 0)"
proof -
  from assms(1) obtain okm where "hkdf salt key (as_bytes ''ss-subkey'') 64 = Some okm" "length okm = 64"
    unfolding hkdf_ok_def by blast
  moreover have "key_len k \<le> 32" by (cases k) simp_all
  ultimately show ?thesis
    using assms(2,3)
    by (simp add: aead_cipher_new_def ss_hkdf_sha1_def cipher_at_def sub_key_def nonce_at_0
        nonce_len_pos)
qed

section \<open>The replay filter\<close>

text \<open>
  A Bloom filter of the library, by its operations. Documented: what was set is found until the
  filter is cleared (an item that was not set may be found too).
\<close>

record 'b bloom_lib =
  bf_new :: "nat \<Rightarrow> 'b"
  bf_check :: "'b \<Rightarrow> bytes \<Rightarrow> bool"
  bf_set :: "'b \<Rightarrow> bytes \<Rightarrow> 'b"
  bf_clear :: "'b \<Rightarrow> 'b"

definition bloom_ok :: "('b, 'm) bloom_lib_scheme \<Rightarrow> bool" where
  "bloom_ok lib \<longleftrightarrow>
     (\<forall>b x. bf_check lib (bf_set lib b x) x) \<and>
     (\<forall>b x y. bf_check lib b y \<longrightarrow> bf_check lib (bf_set lib b x) y)"

text \<open>The two filters of \<open>PingPongBloom\<close>, indexed by \<open>current\<close>.\<close>

record 'b ping_pong_bloom =
  blooms :: "'b list"
  bloom_count :: "nat list"
  item_count :: nat
  current :: nat

definition BF_NUM_ENTRIES_FOR_SERVER :: nat where "BF_NUM_ENTRIES_FOR_SERVER = 1000000"
definition BF_NUM_ENTRIES_FOR_CLIENT :: nat where "BF_NUM_ENTRIES_FOR_CLIENT = 10000"

definition ppbloom_new :: "('b, 'm) bloom_lib_scheme \<Rightarrow> bool \<Rightarrow> 'b ping_pong_bloom" where
  "ppbloom_new lib is_local =
     (let n = (if is_local then BF_NUM_ENTRIES_FOR_CLIENT else BF_NUM_ENTRIES_FOR_SERVER); n = n div 2
      in \<lparr>blooms = [bf_new lib n, bf_new lib n], bloom_count = [0, 0], item_count = n, current = 0\<rparr>)"

definition check_and_set ::
  "('b, 'm) bloom_lib_scheme \<Rightarrow> bytes \<Rightarrow> 'b ping_pong_bloom \<Rightarrow> bool \<times> 'b ping_pong_bloom" where
  "check_and_set lib buf p =
     (if (\<exists>bloom \<in> set (blooms p). bf_check lib bloom buf) then (True, p)
      else
        let p = (if bloom_count p ! current p \<ge> item_count p then
                   (let cur = (current p + 1) mod 2 in
                    p\<lparr>current := cur, bloom_count := (bloom_count p)[cur := 0],
                      blooms := (blooms p)[cur := bf_clear lib (blooms p ! cur)]\<rparr>)
                 else p)
        in (False, p\<lparr>
              blooms := (blooms p)[current p := bf_set lib (blooms p ! current p) buf],
              bloom_count := (bloom_count p)[current p := bloom_count p ! current p + 1]\<rparr>))"

text \<open>\<open>check_nonce_and_set\<close> on the shared context (the lock makes each call one step).\<close>

definition check_nonce_and_set ::
  "('b, 'm) bloom_lib_scheme \<Rightarrow> bytes \<Rightarrow> 'b ping_pong_bloom \<Rightarrow> bool \<times> 'b ping_pong_bloom" where
  "check_nonce_and_set lib nonce p = (if nonce = [] then (False, p) else check_and_set lib nonce p)"

text \<open>
  Random bytes: the environment is the stream the generator will produce. A block of zeros is drawn
  again; \<open>None\<close> when the given part of the stream is used up.
\<close>

function random_iv_or_salt :: "nat \<Rightarrow> bytes \<Rightarrow> (bytes \<times> bytes) option" where
  "random_iv_or_salt n rng =
     (if n = 0 then Some ([], rng)
      else if length rng < n then None
      else let block = take n rng in
           if list_all (\<lambda>x. x = 0) block then random_iv_or_salt n (drop n rng)
           else Some (block, drop n rng))"
  by pat_completeness auto
termination
  by (relation "measure (\<lambda>(n, rng). length rng)") auto

declare random_iv_or_salt.simps [simp del]

lemma random_iv_or_salt_Some:
  "random_iv_or_salt n rng = Some (x, rng') \<Longrightarrow>
     length x = n \<and> length rng' + n \<le> length rng \<and> (0 < n \<longrightarrow> (\<exists>b \<in> set x. b \<noteq> 0))"
proof (induction n rng rule: random_iv_or_salt.induct)
  case (1 n rng)
  then show ?case
    by (auto simp: random_iv_or_salt.simps [of n rng] random_iv_or_salt.simps [of 0 rng] Let_def
        list_all_iff split: if_splits)
qed

function generate_nonce ::
  "('b, 'm) bloom_lib_scheme \<Rightarrow> nat \<Rightarrow> bool \<Rightarrow> bytes \<Rightarrow> 'b ping_pong_bloom \<Rightarrow>
     (bytes \<times> bytes \<times> 'b ping_pong_bloom) option" where
  "generate_nonce lib n unique ds p =
     (if n = 0 then Some ([], ds, p)
      else case random_iv_or_salt n ds of
             None \<Rightarrow> None
           | Some (nonce, ds') \<Rightarrow>
               if unique then
                 (case check_nonce_and_set lib nonce p of
                    (True, p') \<Rightarrow> generate_nonce lib n unique ds' p'
                  | (False, p') \<Rightarrow> Some (nonce, ds', p'))
               else Some (nonce, ds', p))"
  by pat_completeness auto
termination
  by (relation "measure (\<lambda>(lib, n, unique, ds, p). length ds)")
    (auto dest!: random_iv_or_salt_Some, metis add_leD1 le_neq_implies_less length_0_conv
       add_cancel_left_right le_add1 le_trans not_less)

declare generate_nonce.simps [simp del]

section \<open>The filter remembers a window\<close>

text \<open>
  \<open>h\<close> is the history of accepted items, newest first: the current filter holds the newest
  \<open>bloom_count\<close> of them, the other one the next \<open>item_count\<close> (fewer only when there were no more).
\<close>

definition ppbloom_inv ::
  "('b, 'm) bloom_lib_scheme \<Rightarrow> bytes list \<Rightarrow> 'b ping_pong_bloom \<Rightarrow> bool" where
  "ppbloom_inv lib h p \<longleftrightarrow>
     length (blooms p) = 2 \<and> length (bloom_count p) = 2 \<and> current p < 2 \<and> 0 < item_count p \<and>
     (let n = bloom_count p ! current p in
      n \<le> item_count p \<and> n \<le> length h \<and>
      (\<forall>x \<in> set (take n h). bf_check lib (blooms p ! current p) x) \<and>
      (\<forall>x \<in> set (take (item_count p) (drop n h)). bf_check lib (blooms p ! ((current p + 1) mod 2)) x))"

definition accepted :: "bytes \<Rightarrow> bool \<Rightarrow> bytes list \<Rightarrow> bytes list" where
  "accepted buf found h = (if found then h else buf # h)"

lemma ppbloom_inv_new: "ppbloom_inv lib [] (ppbloom_new lib is_local)"
  by (simp add: ppbloom_inv_def ppbloom_new_def BF_NUM_ENTRIES_FOR_CLIENT_def
      BF_NUM_ENTRIES_FOR_SERVER_def)

lemma check_and_set_inv:
  assumes ok: "bloom_ok lib" and inv: "ppbloom_inv lib h p"
    and r: "check_and_set lib buf p = (found, p')"
  shows "ppbloom_inv lib (accepted buf found h) p' \<and> item_count p' = item_count p"
proof (cases "\<exists>bloom \<in> set (blooms p). bf_check lib bloom buf")
  case True
  with assms show ?thesis by (simp add: check_and_set_def accepted_def)
next
  case False
  have set_ok: "bf_check lib (bf_set lib b x) x" "bf_check lib b y \<Longrightarrow> bf_check lib (bf_set lib b x) y"
    for b x y using ok by (auto simp: bloom_ok_def)
  obtain b0 b1 n0 n1 where p: "blooms p = [b0, b1]" "bloom_count p = [n0, n1]"
    using inv by (auto simp: ppbloom_inv_def length_Suc_conv numeral_2_eq_2)
  have cur: "current p = 0 \<or> current p = 1" using inv by (auto simp: ppbloom_inv_def)
  let ?n = "bloom_count p ! current p"
  show ?thesis
  proof (cases "item_count p \<le> ?n")
    case True
    then have n: "?n = item_count p" using inv by (simp add: ppbloom_inv_def Let_def)
    have one: "take (item_count p) h = take ?n h" using n by simp
    show ?thesis
      using cur
      by (rule disjE)
        (use r False True n inv p in \<open>auto simp: check_and_set_def accepted_def ppbloom_inv_def
           Let_def set_ok\<close>)
  next
    case nf: False
    have sub: "set (take (item_count p) (drop (Suc ?n) (buf # h))) \<subseteq> set (take (item_count p) (drop ?n h))"
      by simp
    show ?thesis
      using cur
      by (rule disjE)
        (use r False nf inv p in \<open>auto simp: check_and_set_def accepted_def ppbloom_inv_def
           Let_def set_ok\<close>)
  qed
qed

text \<open>A repeat among the last \<open>item_count\<close> accepted items is always found.\<close>

lemma ppbloom_window:
  assumes inv: "ppbloom_inv lib h p" and x: "x \<in> set (take (item_count p) h)"
  shows "fst (check_and_set lib x p)"
proof -
  let ?n = "bloom_count p ! current p"
  have "take (item_count p) h = take ?n h @ take (item_count p - ?n) (drop ?n h)"
    using inv by (simp add: ppbloom_inv_def Let_def flip: take_add)
  moreover have "set (take (item_count p - ?n) (drop ?n h)) \<subseteq> set (take (item_count p) (drop ?n h))"
    by (rule set_take_subset_set_take) simp
  ultimately have "x \<in> set (take ?n h) \<or> x \<in> set (take (item_count p) (drop ?n h))"
    using x by auto
  then have "bf_check lib (blooms p ! current p) x \<or> bf_check lib (blooms p ! ((current p + 1) mod 2)) x"
    using inv by (auto simp: ppbloom_inv_def Let_def)
  moreover have "current p < length (blooms p)" "(current p + 1) mod 2 < length (blooms p)"
    using inv by (auto simp: ppbloom_inv_def)
  ultimately have "\<exists>bloom \<in> set (blooms p). bf_check lib bloom x" by (meson nth_mem)
  then show ?thesis by (simp add: check_and_set_def)
qed

fun check_run :: "('b, 'm) bloom_lib_scheme \<Rightarrow> bytes list \<Rightarrow> 'b ping_pong_bloom \<Rightarrow> bytes list \<Rightarrow>
    bytes list \<times> 'b ping_pong_bloom" where
  "check_run lib [] p h = (h, p)"
| "check_run lib (x # xs) p h =
     (case check_and_set lib x p of (found, p') \<Rightarrow> check_run lib xs p' (accepted x found h))"

lemma check_run_inv:
  "bloom_ok lib \<Longrightarrow> ppbloom_inv lib h p \<Longrightarrow> check_run lib xs p h = (h', p') \<Longrightarrow>
     ppbloom_inv lib h' p' \<and> item_count p' = item_count p"
proof (induction xs arbitrary: p h)
  case Nil
  then show ?case by simp
next
  case (Cons x xs)
  obtain found q where q: "check_and_set lib x p = (found, q)" by fastforce
  note c = check_and_set_inv [OF Cons.prems(1,2) q]
  have "check_run lib xs q (accepted x found h) = (h', p')" using Cons.prems(3) q by simp
  from Cons.IH [OF Cons.prems(1) _ this] c show ?case by simp
qed

end
