(* ===== verification/Ss_Stream.thy ===== *)
theory Ss_Stream
  imports Ss_Cipher
begin

text \<open>
  The Shadowsocks TCP stream: \<open>src/proxy/shadowsocks/aead.rs\<close> (the encrypting writer and the
  decrypting reader, both generators) and \<open>src/proxy/shadowsocks/crypto_io.rs\<close> (the handshake with
  the salt around them).
\<close>

definition MAX_PACKET_SIZE :: nat where "MAX_PACKET_SIZE = 0x3FFF"

section \<open>The decrypting reader\<close>

datatype decrypted_reader_pc = DrLength | DrPayload | DrPut | DrDone

record decrypted_reader =
  dr_buffer :: bytes
  dr_cipher :: aead_cipher
  dr_tag_size :: nat
  dr_state :: decrypted_reader_pc
  dr_data_length :: nat
  dr_minimal_data_to_put :: nat
  dr_read_res :: "unit poll"
  dr_read_zero :: bool

definition decrypted_reader_new ::
  "hkdf \<Rightarrow> cipher_kind \<Rightarrow> bytes \<Rightarrow> bytes \<Rightarrow> decrypted_reader res" where
  "decrypted_reader_new hkdf k key iv_or_salt =
     map_res (\<lambda>cipher.
       \<lparr>dr_buffer = [], dr_cipher = cipher, dr_tag_size = tag_len k, dr_state = DrLength,
        dr_data_length = 0, dr_minimal_data_to_put = 0, dr_read_res = Pending, dr_read_zero = False\<rparr>)
       (aead_cipher_new hkdf k key iv_or_salt)"

definition dr_await ::
  "(bytes \<Rightarrow> nat) \<Rightarrow> nat \<Rightarrow> (decrypted_reader \<Rightarrow> reader \<Rightarrow> (decrypted_reader \<times> reader) dr_step) \<Rightarrow>
     decrypted_reader \<Rightarrow> reader \<Rightarrow> (decrypted_reader \<times> reader) dr_step" where
  "dr_await chunk len rest t r =
     (case read_at_least chunk r len (dr_buffer t) (dr_read_zero t) of
        (p, r, buf, rz) \<Rightarrow>
          (let t = t\<lparr>dr_buffer := buf, dr_read_zero := rz\<rparr> in
           case p of
             Pending \<Rightarrow> DrYield Pending [] (t, r)
           | Ready (Ok u) \<Rightarrow> rest (t\<lparr>dr_read_res := p\<rparr>) r
           | Ready (Err e) \<Rightarrow>
               if rz then DrYield (Ready (Ok ())) [] (t\<lparr>dr_read_res := p, dr_state := DrDone\<rparr>, r)
               else DrYield p [] (t\<lparr>dr_read_res := Pending, dr_state := DrDone\<rparr>, r)
           | Ready Panic \<Rightarrow> DrYield (Ready Panic) [] (t, r)))"

text \<open>\<open>decrypt_length\<close> opens the slice in place and reads a big-endian length from it.\<close>

definition decrypt_length :: "aead_lib \<Rightarrow> aead_cipher \<Rightarrow> bytes \<Rightarrow> nat res \<times> aead_cipher \<times> bytes" where
  "decrypt_length lib cipher m =
     (case aead_decrypt lib cipher m of
        Ok ((ok, m'), cipher') \<Rightarrow>
          (if \<not> ok then (Err (IoError Other ''invalid tag-in''), cipher', m')
           else let plen = of_be (take 2 m') in
             if plen > MAX_PACKET_SIZE then
               (Err (IoError InvalidData (''buffer size too large ('' @ show_hex plen @
                  ''), AEAD encryption protocol requires buffer to be smaller than 0x3FFF, '' @
                  ''the higher two bits must be set to zero'')), cipher', m')
             else (Ok plen, cipher', m'))
      | Err e \<Rightarrow> (Err e, cipher, m)
      | Panic \<Rightarrow> (Panic, cipher, m))"

text \<open>
  The two bodies between the suspension points. Where the generator resumes after the \<open>?\<close> of
  \<open>decrypt_length\<close> is the parameter \<open>broken\<close>.
\<close>

definition dr_length ::
  "aead_lib \<Rightarrow> decrypted_reader_pc \<Rightarrow> decrypted_reader \<Rightarrow> reader \<Rightarrow> (decrypted_reader \<times> reader) dr_step" where
  "dr_length lib broken t r =
     (let n = dr_tag_size t + 2 in
      case decrypt_length lib (dr_cipher t) (take n (dr_buffer t)) of
        (Ok plen, cipher, m) \<Rightarrow>
          DrStep (t\<lparr>dr_cipher := cipher, dr_data_length := plen + dr_tag_size t,
                    dr_buffer := drop n (dr_buffer t), dr_state := DrPayload\<rparr>, r)
      | (Err e, cipher, m) \<Rightarrow>
          DrYield (Ready (Err e)) [] (t\<lparr>dr_cipher := cipher, dr_buffer := m @ drop n (dr_buffer t),
                                        dr_state := broken\<rparr>, r)
      | (Panic, cipher, m) \<Rightarrow> DrYield (Ready Panic) [] (t, r))"

definition dr_payload ::
  "aead_lib \<Rightarrow> decrypted_reader \<Rightarrow> reader \<Rightarrow> (decrypted_reader \<times> reader) dr_step" where
  "dr_payload lib t r =
     (let n = dr_data_length t in
      case aead_decrypt lib (dr_cipher t) (take n (dr_buffer t)) of
        Ok ((ok, m), cipher) \<Rightarrow>
          (let t = t\<lparr>dr_cipher := cipher, dr_buffer := m @ drop n (dr_buffer t)\<rparr> in
           if \<not> ok then
             DrYield (Ready (Err (IoError Other ''invalid aead tag''))) [] (t\<lparr>dr_state := DrDone\<rparr>, r)
           else DrStep (t\<lparr>dr_data_length := n - dr_tag_size t, dr_state := DrPut\<rparr>, r))
      | Err e \<Rightarrow> DrYield (Ready (Err e)) [] (t, r)
      | Panic \<Rightarrow> DrYield (Ready Panic) [] (t, r))"

definition dr_put ::
  "nat \<Rightarrow> decrypted_reader \<Rightarrow> reader \<Rightarrow> (decrypted_reader \<times> reader) dr_step" where
  "dr_put remaining t r =
     (let m = calc_data_to_put (dr_data_length t) remaining;
          t = t\<lparr>dr_minimal_data_to_put := m\<rparr>
      in if length (dr_buffer t) < m then DrYield (Ready Panic) [] (t, r)
         else if m \<noteq> 0 then
           DrYield (Ready (Ok ())) (take m (dr_buffer t))
             (t\<lparr>dr_data_length := dr_data_length t - m, dr_buffer := drop m (dr_buffer t),
                dr_state := DrPut\<rparr>, r)
         else case advance (dr_tag_size t) (dr_buffer t) of
                Ok b \<Rightarrow> DrStep (t\<lparr>dr_buffer := b, dr_state := DrLength\<rparr>, r)
              | _ \<Rightarrow> DrYield (Ready Panic) [] (t, r))"

definition dr_step ::
  "aead_lib \<Rightarrow> (bytes \<Rightarrow> nat) \<Rightarrow> decrypted_reader_pc \<Rightarrow> nat \<Rightarrow> decrypted_reader \<times> reader \<Rightarrow>
     (decrypted_reader \<times> reader) dr_step" where
  "dr_step lib chunk broken remaining s =
     (case s of (t, r) \<Rightarrow>
        (case dr_state t of
           DrLength \<Rightarrow> dr_await chunk (dr_tag_size t + 2) (dr_length lib broken) t r
         | DrPayload \<Rightarrow> dr_await chunk (dr_data_length t) (dr_payload lib) t r
         | DrPut \<Rightarrow> dr_put remaining t r
         | DrDone \<Rightarrow> DrYield (Ready (Err (IoError UnexpectedEof ''''))) [] (t, r)))"

fun dr_rank :: "decrypted_reader_pc \<Rightarrow> nat" where
  "dr_rank DrPayload = 2"
| "dr_rank DrPut = 1"
| "dr_rank DrLength = 0"
| "dr_rank DrDone = 0"

definition dr_weight :: "decrypted_reader \<times> reader \<Rightarrow> nat" where
  "dr_weight s = length (dr_buffer (fst s)) + rx_size (snd s)"

lemma length_aead_decrypt:
  "aead_decrypt lib c m = Ok ((ok, m'), c') \<Longrightarrow> length m' = length m \<and> 16 \<le> length m"
  by (auto simp: aead_decrypt_def decrypt_inplace_with_slice_def Let_def res_simps
      split: if_splits prod.splits)

lemma decrypt_length_len:
  "decrypt_length lib c m = (Ok n, c', m') \<Longrightarrow> 16 \<le> length m"
  by (auto simp: decrypt_length_def Let_def dest: length_aead_decrypt
      split: res.splits prod.splits if_splits)

lemma dr_await_Step:
  assumes "dr_await chunk n rest t r = DrStep s"
  shows "\<exists>t' r'. rest t' r' = DrStep s \<and> dr_weight (t', r') \<le> dr_weight (t, r) \<and>
    dr_state t' = dr_state t"
proof -
  obtain p r' b z where q: "read_at_least chunk r n (dr_buffer t) (dr_read_zero t) = (p, r', b, z)"
    by (cases "read_at_least chunk r n (dr_buffer t) (dr_read_zero t)")
  have "length b + rx_size r' \<le> length (dr_buffer t) + rx_size r" using read_at_least_size [OF q] .
  moreover have "rest (t\<lparr>dr_buffer := b, dr_read_zero := z, dr_read_res := p\<rparr>) r' = DrStep s"
    using assms q by (auto simp: dr_await_def Let_def split: poll.splits res.splits if_splits)
  ultimately show ?thesis by (force simp: dr_weight_def)
qed

lemma dr_length_Step:
  assumes "dr_length lib broken t r = DrStep s"
  shows "dr_weight s < dr_weight (t, r)"
proof -
  obtain n c m where d: "decrypt_length lib (dr_cipher t) (take (dr_tag_size t + 2) (dr_buffer t)) = (Ok n, c, m)"
    and s: "s = (t\<lparr>dr_cipher := c, dr_data_length := n + dr_tag_size t,
        dr_buffer := drop (dr_tag_size t + 2) (dr_buffer t), dr_state := DrPayload\<rparr>, r)"
    using assms by (auto simp: dr_length_def Let_def split: prod.splits res.splits)
  from decrypt_length_len [OF d] s show ?thesis by (auto simp: dr_weight_def)
qed

lemma dr_payload_Step:
  assumes "dr_payload lib t r = DrStep s"
  shows "dr_weight s = dr_weight (t, r) \<and> dr_state (fst s) = DrPut"
  using assms
  by (auto simp: dr_payload_def Let_def dr_weight_def dest!: length_aead_decrypt
      split: res.splits prod.splits if_splits)

lemma dr_put_Step:
  assumes "dr_put remaining t r = DrStep s"
  shows "dr_weight s \<le> dr_weight (t, r) \<and> dr_state (fst s) = DrLength"
  using assms
  by (auto simp: dr_put_def Let_def dr_weight_def advance_def split: if_splits)

lemma dr_step_decreases:
  assumes "dr_step lib chunk broken remaining s = DrStep s'"
  shows "dr_weight s' < dr_weight s \<or>
    dr_weight s' \<le> dr_weight s \<and> dr_rank (dr_state (fst s')) < dr_rank (dr_state (fst s))"
proof -
  obtain t r where s: "s = (t, r)" by (cases s)
  show ?thesis
  proof (cases "dr_state t")
    case DrLength
    with assms s have "dr_await chunk (dr_tag_size t + 2) (dr_length lib broken) t r = DrStep s'"
      by (simp add: dr_step_def)
    from dr_await_Step [OF this] s show ?thesis by (auto dest!: dr_length_Step)
  next
    case DrPayload
    with assms s have "dr_await chunk (dr_data_length t) (dr_payload lib) t r = DrStep s'"
      by (simp add: dr_step_def)
    from dr_await_Step [OF this] DrPayload s show ?thesis by (auto dest!: dr_payload_Step)
  next
    case DrPut
    with assms s dr_put_Step [of remaining t r s'] show ?thesis by (simp add: dr_step_def)
  next
    case DrDone
    with assms s show ?thesis by (simp add: dr_step_def)
  qed
qed

function poll_read_decrypted ::
  "aead_lib \<Rightarrow> (bytes \<Rightarrow> nat) \<Rightarrow> decrypted_reader_pc \<Rightarrow> nat \<Rightarrow> decrypted_reader \<times> reader \<Rightarrow>
     (unit poll \<times> bytes) \<times> decrypted_reader \<times> reader" where
  "poll_read_decrypted lib chunk broken remaining s =
     (case dr_step lib chunk broken remaining s of
        DrYield p bs s' \<Rightarrow> ((p, bs), s')
      | DrStep s' \<Rightarrow> poll_read_decrypted lib chunk broken remaining s')"
  by pat_completeness auto
termination
  by (relation "inv_image (less_than <*lex*> less_than)
      (\<lambda>(lib, chunk, broken, remaining, s). (dr_weight s, dr_rank (dr_state (fst s))))")
    (auto dest: dr_step_decreases)

declare poll_read_decrypted.simps [simp del]

section \<open>Decryption restores the byte stream\<close>

text \<open>
  The wire form of a message at a count of the cipher's operations: its length and its bytes, each
  sealed under the next nonce.
\<close>

definition frame :: "aead_lib \<Rightarrow> cipher_kind \<Rightarrow> bytes \<Rightarrow> nat \<Rightarrow> bytes \<Rightarrow> bytes" where
  "frame lib k sub i m = sealed lib k sub i (to_be 2 (length m)) @ sealed lib k sub (i + 1) m"

definition frames :: "aead_lib \<Rightarrow> cipher_kind \<Rightarrow> bytes \<Rightarrow> nat \<Rightarrow> bytes list \<Rightarrow> bytes" where
  "frames lib k sub = enc_all (frame lib k sub) (\<lambda>i m. i + 2)"

lemma frames_simps [simp]:
  "frames lib k sub i [] = []"
  "frames lib k sub i (m # ms) = frame lib k sub i m @ frames lib k sub (i + 2) ms"
  by (simp_all add: frames_def)

text \<open>
  At every suspension point, buffer and stream hold the rest of the wire form of the messages
  \<open>ms\<close> still to be opened, after \<open>rem\<close>, the opened bytes that wait for room.
\<close>

definition dr_at ::
  "aead_lib \<Rightarrow> cipher_kind \<Rightarrow> bytes \<Rightarrow> bytes \<Rightarrow> nat \<Rightarrow> bytes list \<Rightarrow> decrypted_reader \<times> reader \<Rightarrow> bool" where
  "dr_at lib k sub rem i ms s \<longleftrightarrow>
     clean (snd s) \<and> \<not> dr_read_zero (fst s) \<and> dr_tag_size (fst s) = 16 \<and>
     dr_cipher (fst s) = cipher_at k sub i \<and> (\<forall>m \<in> set ms. length m \<le> MAX_PACKET_SIZE) \<and>
     (let t = fst s; content = dr_buffer t @ rx_bytes (snd s) in
      case dr_state t of
        DrLength \<Rightarrow> rem = [] \<and> content = frames lib k sub i ms
      | DrPayload \<Rightarrow> rem = [] \<and> ms \<noteq> [] \<and> dr_data_length t = length (hd ms) + 16 \<and>
          content = sealed lib k sub i (hd ms) @ frames lib k sub (i + 1) (tl ms)
      | DrPut \<Rightarrow> dr_data_length t = length rem \<and>
          (\<exists>tag b. length tag = 16 \<and> dr_buffer t = rem @ tag @ b \<and>
             b @ rx_bytes (snd s) = frames lib k sub i ms)
      | DrDone \<Rightarrow> False)"

definition dr_source ::
  "aead_lib \<Rightarrow> cipher_kind \<Rightarrow> bytes \<Rightarrow> bytes \<Rightarrow> decrypted_reader \<times> reader \<Rightarrow> bool" where
  "dr_source lib k sub bs s \<longleftrightarrow>
     aead_ok lib \<and> k \<noteq> CK_None \<and> (\<exists>rem i ms. dr_at lib k sub rem i ms s \<and> bs = rem @ concat ms)"

abbreviation dr_next ::
  "aead_lib \<Rightarrow> cipher_kind \<Rightarrow> bytes \<Rightarrow> nat \<Rightarrow> bytes \<Rightarrow> decrypted_reader \<times> reader \<Rightarrow> unit poll \<Rightarrow> bytes \<Rightarrow>
     decrypted_reader \<times> reader \<Rightarrow> bool" where
  "dr_next lib k sub \<equiv> yields (dr_source lib k sub) (\<lambda>s. rx_size (snd s))"

abbreviation dr_advances ::
  "aead_lib \<Rightarrow> cipher_kind \<Rightarrow> bytes \<Rightarrow> nat \<Rightarrow> bytes \<Rightarrow> decrypted_reader \<times> reader \<Rightarrow>
     (decrypted_reader \<times> reader) dr_step \<Rightarrow> bool" where
  "dr_advances lib k sub \<equiv> advances (dr_source lib k sub) (\<lambda>s. rx_size (snd s))"

lemma max_packet_bound: "length m \<le> MAX_PACKET_SIZE \<Longrightarrow> length m < 2 ^ 32"
  by (simp add: MAX_PACKET_SIZE_def)

lemma frame_max: "n \<le> MAX_PACKET_SIZE + 18 \<Longrightarrow> n \<le> usize_max"
  by (simp add: MAX_PACKET_SIZE_def usize_max_def)

lemma dr_sourceI:
  "aead_ok lib \<Longrightarrow> k \<noteq> CK_None \<Longrightarrow> dr_at lib k sub rem i ms s \<Longrightarrow> bs = rem @ concat ms \<Longrightarrow>
     dr_source lib k sub bs s"
  by (auto simp: dr_source_def)

lemma dr_length_frame:
  assumes ok: "aead_ok lib" "k \<noteq> CK_None" and m: "length m \<le> MAX_PACKET_SIZE"
    and t: "dr_tag_size t = 16" "dr_cipher t = cipher_at k sub i" "18 \<le> length (dr_buffer t)"
    and e: "dr_buffer t @ s = frame lib k sub i m @ z"
  shows "\<exists>b. dr_length lib broken t r = DrStep (t\<lparr>dr_cipher := cipher_at k sub (i + 1),
      dr_data_length := length m + 16, dr_buffer := b, dr_state := DrPayload\<rparr>, r) \<and>
    b @ s = sealed lib k sub (i + 1) m @ z"
proof -
  let ?len = "to_be 2 (length m)"
  have ls: "length (sealed lib k sub i ?len) = 18" using length_sealed [OF ok(1)] by simp
  have "dr_buffer t @ s = sealed lib k sub i ?len @ (sealed lib k sub (i + 1) m @ z)"
    using e by (simp add: frame_def)
  from buffer_prefix [OF this] t(3) ls obtain b where
    b: "dr_buffer t = sealed lib k sub i ?len @ b" "b @ s = sealed lib k sub (i + 1) m @ z" by auto
  obtain g where g: "aead_decrypt lib (cipher_at k sub i) (sealed lib k sub i ?len) =
      Ok ((True, ?len @ g), cipher_at k sub (i + 1))"
    using decrypt_at [OF ok, of ?len sub i] by auto
  have "of_be ?len = length m" using m by (simp add: of_be_to_be MAX_PACKET_SIZE_def)
  then have "decrypt_length lib (cipher_at k sub i) (sealed lib k sub i ?len) =
      (Ok (length m), cipher_at k sub (i + 1), ?len @ g)"
    using g m by (simp add: decrypt_length_def Let_def)
  with b ls t show ?thesis by (intro exI [of _ b]) (simp add: dr_length_def Let_def)
qed

lemma dr_step_length:
  assumes ok: "aead_ok lib" "k \<noteq> CK_None" and ch: "chunky chunk"
    and src: "dr_at lib k sub rem i ms (t, r)" and st: "dr_state t = DrLength"
  shows "dr_advances lib k sub n (rem @ concat ms) (t, r) (dr_step lib chunk broken n (t, r))"
proof -
  have c: "clean r" "\<not> dr_read_zero t" "dr_tag_size t = 16" "dr_cipher t = cipher_at k sub i" "rem = []"
    and content: "dr_buffer t @ rx_bytes r = frames lib k sub i ms"
    using src st by (auto simp: dr_at_def)
  have um: "18 \<le> usize_max" by (simp add: usize_max_def)
  have step: "dr_step lib chunk broken n (t, r) = dr_await chunk 18 (dr_length lib broken) t r"
    using st c by (simp add: dr_step_def)
  show ?thesis
  proof (cases ms)
    case Nil
    then have "length (dr_buffer t @ rx_bytes r) < 18" using content by simp
    from ch c(1) this um show ?thesis
    proof (cases rule: read_at_least_await_eof [where rz = "dr_read_zero t"])
      case (1 r' b)
      have "dr_at lib k sub rem i ms (t\<lparr>dr_buffer := b, dr_read_zero := False\<rparr>, r')"
        using src st 1 content by (simp add: dr_at_def)
      from dr_sourceI [OF ok this refl] 1 c(2) show ?thesis
        by (simp add: advances_def step dr_await_def yields_def)
    next
      case (2 r' b)
      with Nil c(5) show ?thesis by (simp add: advances_def step dr_await_def yields_def)
    qed
  next
    case (Cons m ms')
    have m: "length m \<le> MAX_PACKET_SIZE" using src Cons by (simp add: dr_at_def)
    have "18 \<le> length (frames lib k sub i ms)"
      using length_sealed [OF ok(1), of "to_be 2 (length m)" k sub i] Cons by (simp add: frame_def)
    then have "18 \<le> length (dr_buffer t @ rx_bytes r)" by (simp only: content)
    from read_at_least_await [OF ch c(1) this um, of "dr_read_zero t"] obtain p r' b where
      q: "read_at_least chunk r 18 (dr_buffer t) (dr_read_zero t) = (p, r', b, dr_read_zero t)"
        "b @ rx_bytes r' = frames lib k sub i ms" "clean r'" "rx_size r' \<le> rx_size r"
        "p = Pending \<and> rx_size r' < rx_size r \<or> p = Ready (Ok ()) \<and> 18 \<le> length b"
      using content by metis
    from q(5) show ?thesis
    proof (elim disjE conjE)
      assume p: "p = Pending" "rx_size r' < rx_size r"
      have "dr_at lib k sub rem i ms (t\<lparr>dr_buffer := b, dr_read_zero := False\<rparr>, r')"
        using src st q by (simp add: dr_at_def)
      from dr_sourceI [OF ok this refl] p q(1) c(2) show ?thesis
        by (simp add: advances_def step dr_await_def yields_def)
    next
      assume p: "p = Ready (Ok ())" "18 \<le> length b"
      let ?t = "t\<lparr>dr_buffer := b, dr_read_zero := dr_read_zero t, dr_read_res := p\<rparr>"
      have "dr_buffer ?t @ rx_bytes r' = frame lib k sub i m @ frames lib k sub (i + 2) ms'"
        using q(2) Cons by simp
      from dr_length_frame [OF ok m _ _ _ this] c p(2) obtain b' where
        b': "dr_length lib broken ?t r' = DrStep (?t\<lparr>dr_cipher := cipher_at k sub (i + 1),
          dr_data_length := length m + 16, dr_buffer := b', dr_state := DrPayload\<rparr>, r')"
          "b' @ rx_bytes r' = sealed lib k sub (i + 1) m @ frames lib k sub (i + 2) ms'" by auto
      let ?s = "(?t\<lparr>dr_cipher := cipher_at k sub (i + 1), dr_data_length := length m + 16,
          dr_buffer := b', dr_state := DrPayload\<rparr>, r')"
      have "dr_at lib k sub [] (i + 1) ms ?s"
        using src Cons q b' c by (simp add: dr_at_def)
      from dr_sourceI [OF ok this, of "concat ms"] b'(1) q(1,4) p(1) c(5) show ?thesis
        by (simp add: advances_def step dr_await_def)
    qed
  qed
qed

lemma dr_step_payload:
  assumes ok: "aead_ok lib" "k \<noteq> CK_None" and ch: "chunky chunk"
    and src: "dr_at lib k sub rem i ms (t, r)" and st: "dr_state t = DrPayload"
  shows "dr_advances lib k sub n (rem @ concat ms) (t, r) (dr_step lib chunk broken n (t, r))"
proof -
  obtain m ms' where ms: "ms = m # ms'" using src st by (cases ms) (auto simp: dr_at_def)
  have c: "clean r" "\<not> dr_read_zero t" "dr_tag_size t = 16" "dr_cipher t = cipher_at k sub i" "rem = []"
      "dr_data_length t = length m + 16" "length m \<le> MAX_PACKET_SIZE"
    and content: "dr_buffer t @ rx_bytes r = sealed lib k sub i m @ frames lib k sub (i + 1) ms'"
    using src st ms by (auto simp: dr_at_def)
  let ?n = "length m + 16"
  note mb = max_packet_bound [OF c(7)]
  have um: "?n \<le> usize_max" using c(7) by (intro frame_max) simp
  have step: "dr_step lib chunk broken n (t, r) = dr_await chunk ?n (dr_payload lib) t r"
    using st c by (simp add: dr_step_def)
  have "?n \<le> length (dr_buffer t @ rx_bytes r)"
    by (simp only: content) (simp add: length_sealed [OF ok(1) mb])
  from read_at_least_await [OF ch c(1) this um, of "dr_read_zero t"] obtain p r' b where
    q: "read_at_least chunk r ?n (dr_buffer t) (dr_read_zero t) = (p, r', b, dr_read_zero t)"
      "b @ rx_bytes r' = sealed lib k sub i m @ frames lib k sub (i + 1) ms'" "clean r'"
      "rx_size r' \<le> rx_size r"
      "p = Pending \<and> rx_size r' < rx_size r \<or> p = Ready (Ok ()) \<and> ?n \<le> length b"
    using content by metis
  from q(5) show ?thesis
  proof (elim disjE conjE)
    assume p: "p = Pending" "rx_size r' < rx_size r"
    have "dr_at lib k sub rem i ms (t\<lparr>dr_buffer := b, dr_read_zero := False\<rparr>, r')"
      using src st q ms by (simp add: dr_at_def)
    from dr_sourceI [OF ok this refl] p q(1) c(2) show ?thesis
      by (simp add: advances_def step dr_await_def yields_def)
  next
    assume p: "p = Ready (Ok ())" "?n \<le> length b"
    let ?t = "t\<lparr>dr_buffer := b, dr_read_zero := dr_read_zero t, dr_read_res := p\<rparr>"
    have ls: "length (sealed lib k sub i m) = ?n" using length_sealed [OF ok(1) mb] .
    from buffer_prefix [OF q(2)] p(2) ls obtain b' where
      b': "b = sealed lib k sub i m @ b'" "b' @ rx_bytes r' = frames lib k sub (i + 1) ms'" by auto
    from decrypt_at [OF ok mb] obtain g where g: "length g = 16"
      "aead_decrypt lib (cipher_at k sub i) (sealed lib k sub i m) =
         Ok ((True, m @ g), cipher_at k sub (i + 1))" by blast
    let ?s = "(?t\<lparr>dr_cipher := cipher_at k sub (i + 1), dr_buffer := m @ g @ b',
        dr_data_length := length m, dr_state := DrPut\<rparr>, r')"
    have "dr_payload lib ?t r' = DrStep ?s"
      using b' g ls c by (simp add: dr_payload_def Let_def)
    moreover have "dr_at lib k sub m (i + 1) ms' ?s"
      using src ms q(3) b'(2) c g(1)
      by (simp add: dr_at_def) (intro exI [of _ g] conjI exI [of _ b'], simp_all)
    ultimately show ?thesis
      using dr_sourceI [OF ok, of sub m "i + 1" ms' ?s] q(1,4) p(1) c(5) ms
      by (simp add: advances_def step dr_await_def)
  qed
qed

lemma dr_step_put:
  assumes ok: "aead_ok lib" "k \<noteq> CK_None" and n: "0 < n"
    and src: "dr_at lib k sub rem i ms (t, r)" and st: "dr_state t = DrPut"
  shows "dr_advances lib k sub n (rem @ concat ms) (t, r) (dr_step lib chunk broken n (t, r))"
proof -
  obtain tag b where b: "length tag = 16" "dr_buffer t = rem @ tag @ b"
    "b @ rx_bytes r = frames lib k sub i ms" and len: "dr_data_length t = length rem"
    and c: "dr_tag_size t = 16"
    using src st by (auto simp: dr_at_def)
  show ?thesis
  proof (cases "rem = []")
    case True
    let ?s = "(t\<lparr>dr_minimal_data_to_put := 0, dr_buffer := b, dr_state := DrLength\<rparr>, r)"
    have "dr_step lib chunk broken n (t, r) = DrStep ?s"
      using st b len c True by (simp add: dr_step_def dr_put_def calc_data_to_put_def advance_def)
    moreover have "dr_at lib k sub [] i ms ?s" using src st b by (simp add: dr_at_def)
    ultimately show ?thesis
      using dr_sourceI [OF ok, of sub "[]" i ms ?s] True by (simp add: advances_def)
  next
    case False
    let ?m = "min (length rem) n"
    let ?s = "(t\<lparr>dr_minimal_data_to_put := ?m, dr_data_length := length rem - ?m,
        dr_buffer := drop ?m rem @ tag @ b, dr_state := DrPut\<rparr>, r)"
    have m: "?m \<noteq> 0" using False n by simp
    then have "dr_step lib chunk broken n (t, r) = DrYield (Ready (Ok ())) (take ?m rem) ?s"
      using st b(2) len by (simp add: dr_step_def dr_put_def calc_data_to_put_def Let_def)
    moreover have "dr_at lib k sub (drop ?m rem) i ms ?s"
      using src st b by (auto simp: dr_at_def Let_def)
    ultimately have st: "dr_step lib chunk broken n (t, r) = DrYield (Ready (Ok ())) (take ?m rem) ?s"
      and src: "dr_source lib k sub (drop ?m rem @ concat ms) ?s"
      using dr_sourceI [OF ok] by auto
    have split: "rem @ concat ms = take ?m rem @ (drop ?m rem @ concat ms)" by simp
    have "take ?m rem \<noteq> []" "length (take ?m rem) \<le> n" using m by auto
    with src split show ?thesis
      unfolding st advances_def yields_def by (simp only: dr_step.case) auto
  qed
qed

lemma dr_step_source:
  assumes "dr_source lib k sub bs s" "chunky chunk" "0 < n"
  shows "dr_advances lib k sub n bs s (dr_step lib chunk broken n s)"
proof -
  obtain rem i ms where a: "aead_ok lib" "k \<noteq> CK_None" "dr_at lib k sub rem i ms s" "bs = rem @ concat ms"
    using assms(1) by (auto simp: dr_source_def)
  obtain t r where s: "s = (t, r)" by (cases s)
  note at = a(3) [unfolded s]
  show ?thesis
  proof (cases "dr_state t")
    case DrLength
    from dr_step_length [OF a(1,2) assms(2) at this] a(4) s show ?thesis by simp
  next
    case DrPayload
    from dr_step_payload [OF a(1,2) assms(2) at this] a(4) s show ?thesis by simp
  next
    case DrPut
    from dr_step_put [OF a(1,2) assms(3) at this] a(4) s show ?thesis by simp
  next
    case DrDone
    with at show ?thesis by (simp add: dr_at_def)
  qed
qed

interpretation ss_reader: stepped_source
  "dr_step lib chunk broken" "poll_read_decrypted lib chunk broken"
  "\<lambda>bs s. chunky chunk \<and> dr_source lib k sub bs s" "\<lambda>s. rx_size (snd s)"
  "inv_image (less_than <*lex*> less_than) (\<lambda>s. (dr_weight s, dr_rank (dr_state (fst s))))"
  for lib chunk broken k sub
proof (unfold_locales, goal_cases)
  case 1
  show ?case by (intro wf_inv_image wf_lex_prod wf_less_than)
next
  case 2
  then show ?case by (auto dest: dr_step_decreases)
next
  case 3
  then show ?case by (rule poll_read_decrypted.simps)
next
  case (4 bs s n)
  then show ?case
    using dr_step_source [of lib k sub bs s chunk n broken]
    by (auto simp: advances_def yields_def split: dr_step.splits)
qed

lemma poll_read_decrypted_source:
  "dr_source lib k sub bs s \<Longrightarrow> chunky chunk \<Longrightarrow> 0 < n \<Longrightarrow>
     poll_read_decrypted lib chunk broken n s = ((p, cs), s') \<Longrightarrow> dr_next lib k sub n bs s p cs s'"
  using ss_reader.read_yields [of chunk lib k sub bs s n broken p cs s'] by (auto simp: yields_def)

section \<open>The encrypting writer\<close>

datatype encrypted_writer_pc = EwStart | EwWrite

record encrypted_writer =
  ew_cipher :: aead_cipher
  ew_tag_size :: nat
  ew_state :: encrypted_writer_pc
  ew_buf :: bytes
  ew_pos :: nat
  ew_data_len :: nat
  ew_write_res :: "nat poll"

definition encrypted_writer_new ::
  "hkdf \<Rightarrow> cipher_kind \<Rightarrow> bytes \<Rightarrow> bytes \<Rightarrow> encrypted_writer res" where
  "encrypted_writer_new hkdf k key iv_or_salt =
     map_res (\<lambda>cipher.
       \<lparr>ew_cipher = cipher, ew_tag_size = tag_len k, ew_state = EwStart, ew_buf = iv_or_salt,
        ew_pos = 0, ew_data_len = 0, ew_write_res = Pending\<rparr>)
       (aead_cipher_new hkdf k key iv_or_salt)"

text \<open>
  \<open>encrypted_buffer\<close>: the length as \<open>u16\<close> and the data are written in front of room for a tag and
  sealed there (what the room held before is overwritten by the tag).
\<close>

definition encrypted_buffer :: "aead_lib \<Rightarrow> bytes \<Rightarrow> encrypted_writer \<Rightarrow> encrypted_writer res" where
  "encrypted_buffer lib data e =
     (let room = replicate (ew_tag_size e) 0 in
      bind_res (aead_encrypt lib (ew_cipher e) (put_u16 (of_nat (length data)) @ room)) (\<lambda>(b1, c1).
      bind_res (aead_encrypt lib c1 (data @ room)) (\<lambda>(b2, c2).
        Ok (e\<lparr>ew_data_len := length data, ew_cipher := c2, ew_buf := ew_buf e @ b1 @ b2,
              ew_pos := 0\<rparr>))))"

definition ew_write_data ::
  "encrypted_writer \<times> writer \<Rightarrow> nat poll \<times> encrypted_writer \<times> writer" where
  "ew_write_data s =
     (case s of (e, w) \<Rightarrow>
        (case write_loop (ew_data_len e) (ew_buf e) (ew_pos e) w of
           (p, pos, w) \<Rightarrow> (p, e\<lparr>ew_pos := pos\<rparr>, w)))"

definition ew_flush_out ::
  "encrypted_writer \<times> writer \<Rightarrow> nat poll \<times> encrypted_writer \<times> writer" where
  "ew_flush_out s =
     (case ew_write_data s of
        (Pending, (e, w)) \<Rightarrow> (Pending, e\<lparr>ew_state := EwWrite\<rparr>, w)
      | (p, (e, w)) \<Rightarrow> (p, e\<lparr>ew_buf := [], ew_write_res := Pending, ew_state := EwStart\<rparr>, w))"

definition poll_write_encrypted ::
  "aead_lib \<Rightarrow> bytes \<Rightarrow> encrypted_writer \<times> writer \<Rightarrow> nat poll \<times> encrypted_writer \<times> writer" where
  "poll_write_encrypted lib data s =
     (case s of (e, w) \<Rightarrow>
        (case ew_state e of
           EwStart \<Rightarrow>
             (let minimal_data_to_write = min MAX_PACKET_SIZE (length data);
                  data = take minimal_data_to_write data
              in case encrypted_buffer lib data e of
                   Ok e \<Rightarrow> ew_flush_out (e, w)
                 | Err x \<Rightarrow> (Ready (Err x), e, w)
                 | Panic \<Rightarrow> (Ready Panic, e, w))
         | EwWrite \<Rightarrow> ew_flush_out (e, w)))"

text \<open>
  The context of the writer: bytes that go out before the first frame (the salt), and the count of
  the cipher.
\<close>

definition ew_enc :: "aead_lib \<Rightarrow> cipher_kind \<Rightarrow> bytes \<Rightarrow> bytes \<times> nat \<Rightarrow> bytes \<Rightarrow> bytes" where
  "ew_enc lib k sub c m = fst c @ frame lib k sub (snd c) m"

definition ew_adv :: "bytes \<times> nat \<Rightarrow> bytes \<Rightarrow> bytes \<times> nat" where
  "ew_adv c m = ([], snd c + 2)"

definition ew_idle ::
  "aead_lib \<Rightarrow> cipher_kind \<Rightarrow> bytes \<Rightarrow> bytes \<times> nat \<Rightarrow> encrypted_writer \<times> writer \<Rightarrow> bool" where
  "ew_idle lib k sub c s \<longleftrightarrow>
     aead_ok lib \<and> k \<noteq> CK_None \<and> writer_live (snd s) \<and> ew_tag_size (fst s) = 16 \<and>
     ew_state (fst s) = EwStart \<and> ew_buf (fst s) = fst c \<and>
     ew_cipher (fst s) = cipher_at k sub (snd c)"

definition ew_busy ::
  "aead_lib \<Rightarrow> cipher_kind \<Rightarrow> bytes \<Rightarrow> bytes \<times> nat \<Rightarrow> bytes \<Rightarrow> nat \<Rightarrow> encrypted_writer \<times> writer \<Rightarrow> bool" where
  "ew_busy lib k sub c m n s \<longleftrightarrow>
     ew_idle lib k sub c s \<and> n = 0 \<or>
     aead_ok lib \<and> k \<noteq> CK_None \<and> writer_live (snd s) \<and> ew_tag_size (fst s) = 16 \<and>
     ew_state (fst s) = EwWrite \<and> ew_buf (fst s) = ew_enc lib k sub c m \<and> ew_pos (fst s) = n \<and>
     n \<le> length (ew_buf (fst s)) \<and> ew_data_len (fst s) = length m \<and>
     ew_cipher (fst s) = cipher_at k sub (snd c + 2)"

definition ew_sends ::
  "aead_lib \<Rightarrow> cipher_kind \<Rightarrow> bytes \<Rightarrow> bytes \<times> nat \<Rightarrow> bytes \<Rightarrow> nat \<Rightarrow> encrypted_writer \<times> writer \<Rightarrow>
     nat poll \<Rightarrow> encrypted_writer \<times> writer \<Rightarrow> bool" where
  "ew_sends lib k sub c m n s out s' \<longleftrightarrow>
     (\<exists>n'. out = Pending \<and> n \<le> n' \<and> ew_busy lib k sub c m n' s' \<and>
        length (wr_script (snd s')) < length (wr_script (snd s)) \<and>
        wr_sent (snd s') = wr_sent (snd s) @ take (n' - n) (drop n (ew_enc lib k sub c m))) \<or>
     out = Ready (Ok (length m)) \<and> ew_idle lib k sub (ew_adv c m) s' \<and>
     wr_sent (snd s') = wr_sent (snd s) @ drop n (ew_enc lib k sub c m)"

lemma put_u16_of_length: "length m \<le> MAX_PACKET_SIZE \<Longrightarrow> put_u16 (of_nat (length m)) = to_be 2 (length m)"
  by (simp add: put_u16_def unat_of_nat MAX_PACKET_SIZE_def)

lemma encrypted_buffer_frame:
  assumes "ew_idle lib k sub c (e, w)" "length m \<le> MAX_PACKET_SIZE"
  shows "encrypted_buffer lib m e = Ok (e\<lparr>ew_data_len := length m,
    ew_cipher := cipher_at k sub (snd c + 2), ew_buf := ew_enc lib k sub c m, ew_pos := 0\<rparr>)"
proof -
  have i: "aead_ok lib" "k \<noteq> CK_None" "ew_tag_size e = 16" "ew_buf e = fst c"
    "ew_cipher e = cipher_at k sub (snd c)"
    using assms(1) by (simp_all add: ew_idle_def)
  have "aead_encrypt lib (cipher_at k sub (snd c)) (to_be 2 (length m) @ replicate 16 0) =
      Ok (sealed lib k sub (snd c) (to_be 2 (length m)), cipher_at k sub (snd c + 1))"
    by (rule encrypt_at [OF i(1,2)]) simp_all
  moreover have "aead_encrypt lib (cipher_at k sub (snd c + 1)) (m @ replicate 16 0) =
      Ok (sealed lib k sub (snd c + 1) m, cipher_at k sub (snd c + 1 + 1))"
    by (rule encrypt_at [OF i(1,2) max_packet_bound [OF assms(2)]]) simp
  ultimately show ?thesis
    using i by (simp add: encrypted_buffer_def put_u16_of_length [OF assms(2)] ew_enc_def frame_def Let_def)
qed

lemma ew_flush_out_sends:
  assumes b: "ew_busy lib k sub c m n (e, w)" "ew_state e = EwWrite"
    and r: "ew_flush_out (e, w) = (out, s')"
  shows "ew_sends lib k sub c m n (e, w) out s'"
proof -
  have e: "writer_live w" "ew_buf e = ew_enc lib k sub c m" "ew_pos e = n"
    "ew_pos e \<le> length (ew_buf e)" "ew_data_len e = length m"
    using b by (auto simp: ew_busy_def ew_idle_def)
  obtain q pos v where q: "write_loop (ew_data_len e) (ew_buf e) (ew_pos e) w = (q, pos, v)"
    by (cases "write_loop (ew_data_len e) (ew_buf e) (ew_pos e) w")
  note l = write_loop_live [OF e(1,4) q]
  from l show ?thesis
  proof (elim conjE disjE)
    assume p: "q = Pending" "length (wr_script v) < length (wr_script w)" "writer_live v"
      "ew_pos e \<le> pos" "pos \<le> length (ew_buf e)"
      "wr_sent v = wr_sent w @ take (pos - ew_pos e) (drop (ew_pos e) (ew_buf e))"
    then have "out = Pending" "s' = (e\<lparr>ew_pos := pos, ew_state := EwWrite\<rparr>, v)"
      using r q by (simp_all add: ew_flush_out_def ew_write_data_def)
    with p e b show ?thesis
      by (auto simp: ew_sends_def ew_busy_def ew_idle_def intro!: exI [of _ pos])
  next
    assume p: "q = Ready (Ok (ew_data_len e))" "pos = length (ew_buf e)" "writer_live v"
      "wr_sent v = wr_sent w @ take (pos - ew_pos e) (drop (ew_pos e) (ew_buf e))"
    then have "out = q" "s' = (e\<lparr>ew_pos := pos, ew_buf := [], ew_write_res := Pending, ew_state := EwStart\<rparr>, v)"
      using r q by (simp_all add: ew_flush_out_def ew_write_data_def)
    with p e b show ?thesis by (auto simp: ew_sends_def ew_busy_def ew_idle_def ew_adv_def)
  qed
qed

lemma poll_write_encrypted_sends:
  assumes m: "length m \<le> MAX_PACKET_SIZE" and b: "ew_busy lib k sub c m n s"
    and r: "poll_write_encrypted lib m s = (out, s')"
  shows "ew_sends lib k sub c m n s out s'"
proof -
  obtain e w where s: "s = (e, w)" by (cases s)
  show ?thesis
  proof (cases "ew_state e")
    case EwStart
    then have idle: "ew_idle lib k sub c (e, w)" and n: "n = 0"
      using b s by (auto simp: ew_busy_def)
    let ?e = "e\<lparr>ew_data_len := length m, ew_cipher := cipher_at k sub (snd c + 2),
        ew_buf := ew_enc lib k sub c m, ew_pos := 0, ew_state := EwWrite\<rparr>"
    have "min MAX_PACKET_SIZE (length m) = length m" using m by simp
    then have "ew_flush_out (?e, w) = (out, s')"
      using r EwStart s encrypted_buffer_frame [OF idle m]
      by (auto simp: poll_write_encrypted_def Let_def ew_flush_out_def ew_write_data_def
          split: prod.splits poll.splits res.splits)
    moreover have "ew_busy lib k sub c m 0 (?e, w)" using idle by (simp add: ew_busy_def ew_idle_def)
    ultimately have "ew_sends lib k sub c m 0 (?e, w) out s'" by (rule ew_flush_out_sends [rotated 2]) simp
    then show ?thesis by (simp add: ew_sends_def s n)
  next
    case EwWrite
    with r s b ew_flush_out_sends [of lib k sub c m n e w out s'] show ?thesis
      by (simp add: poll_write_encrypted_def)
  qed
qed

interpretation ss_writer: message_sink
  "poll_write_encrypted lib" "\<lambda>c m. length m \<le> MAX_PACKET_SIZE" length "ew_enc lib k sub" ew_adv
  "ew_idle lib k sub" "ew_busy lib k sub" "\<lambda>s. wr_sent (snd s)" "\<lambda>s. length (wr_script (snd s))"
  for lib k sub
  by unfold_locales
    (simp add: ew_busy_def, drule (1) poll_write_encrypted_sends, assumption, simp add: ew_sends_def)

lemma enc_all_frames:
  "enc_all (ew_enc lib k sub) ew_adv (pre, i) (m # ms) = pre @ frames lib k sub i (m # ms)"
proof (induction ms arbitrary: pre i m)
  case Nil
  then show ?case by (simp add: ew_enc_def)
next
  case (Cons x xs)
  then show ?case by (simp add: ew_enc_def ew_adv_def)
qed

section \<open>The stream with its handshake\<close>

datatype crypto_dec = DecNone | DecAead decrypted_reader
datatype crypto_enc = EncNone | EncAead encrypted_writer

text \<open>
  \<open>WaitIv\<close> holds the salt buffer with its capacity, the method and the key; the replay filter is
  shared state and passed along.
\<close>

datatype read_status = WaitIv bytes nat cipher_kind bytes | Established

record crypto_stream =
  cs_reader :: reader
  cs_writer :: writer
  cs_dec :: "crypto_dec option"
  cs_enc :: crypto_enc
  cs_status :: read_status

definition crypto_stream_new_none :: "reader \<times> writer \<Rightarrow> crypto_stream" where
  "crypto_stream_new_none io =
     \<lparr>cs_reader = fst io, cs_writer = snd io, cs_dec = Some DecNone, cs_enc = EncNone,
      cs_status = Established\<rparr>"

text \<open>The salt of a new stream: drawn until the filter has not seen it.\<close>

function fresh_salt ::
  "('b, 'm) bloom_lib_scheme \<Rightarrow> nat \<Rightarrow> bytes \<Rightarrow> 'b ping_pong_bloom \<Rightarrow>
     (bytes \<times> bytes \<times> 'b ping_pong_bloom) option" where
  "fresh_salt bl prev_len rng p =
     (case random_iv_or_salt prev_len rng of
        None \<Rightarrow> None
      | Some (salt, rng') \<Rightarrow>
          (case check_nonce_and_set bl salt p of
             (True, p') \<Rightarrow> fresh_salt bl prev_len rng' p'
           | (False, p') \<Rightarrow> Some (salt, rng', p')))"
  by pat_completeness auto
termination
proof (relation "measure (\<lambda>(bl, n, rng, p). length rng)", simp, goal_cases)
  case (1 bl n rng p a salt rng' b p')
  then have r: "length salt = n \<and> length rng' + n \<le> length rng" by (auto dest!: random_iv_or_salt_Some)
  have "salt \<noteq> []" using 1 by (auto simp: check_nonce_and_set_def split: if_splits)
  then have "0 < n" using r by auto
  with r show ?case by simp
qed

declare fresh_salt.simps [simp del]

text \<open>\<open>cap_of n\<close> is the capacity of \<open>BytesMut::with_capacity(n)\<close>.\<close>

definition crypto_stream_new ::
  "hkdf \<Rightarrow> ('b, 'm) bloom_lib_scheme \<Rightarrow> (nat \<Rightarrow> nat) \<Rightarrow> reader \<times> writer \<Rightarrow> bytes \<Rightarrow> cipher_kind \<Rightarrow>
     bytes \<Rightarrow> 'b ping_pong_bloom \<Rightarrow> (crypto_stream res \<times> bytes \<times> 'b ping_pong_bloom) option" where
  "crypto_stream_new hkdf bl cap_of io key method rng p =
     (if method = CK_None then Some (Ok (crypto_stream_new_none io), rng, p)
      else let prev_len = salt_len method in
        case fresh_salt bl prev_len rng p of
          None \<Rightarrow> None
        | Some (iv, rng, p) \<Rightarrow>
            Some (map_res (\<lambda>enc.
                \<lparr>cs_reader = fst io, cs_writer = snd io, cs_dec = None, cs_enc = EncAead enc,
                 cs_status = WaitIv [] (cap_of prev_len) method key\<rparr>)
              (encrypted_writer_new hkdf method key iv), rng, p))"

function handshake_fill :: "nat \<Rightarrow> bytes \<Rightarrow> reader \<Rightarrow> unit poll \<times> bytes \<times> reader" where
  "handshake_fill cap buf r =
     (if length buf \<noteq> cap then
        (case poll_read_buf (\<lambda>b. cap - length b) r buf of
           (Ready (Ok n), r', buf') \<Rightarrow>
             if n = 0 then (Ready (Err (IoError UnexpectedEof '''')), buf', r')
             else handshake_fill cap buf' r'
         | (Ready (Err e), r', buf') \<Rightarrow> (Ready (Err e), buf', r')
         | (Ready Panic, r', buf') \<Rightarrow> (Ready Panic, buf', r')
         | (Pending, r', buf') \<Rightarrow> (Pending, buf', r'))
      else (Ready (Ok ()), buf, r))"
  by pat_completeness auto
termination
  by (relation "measure (\<lambda>(cap, buf, r). rx_size r)") (auto dest: poll_read_buf_Ok(3) [OF sym])

declare handshake_fill.simps [simp del]

definition poll_read_handshake ::
  "hkdf \<Rightarrow> ('b, 'm) bloom_lib_scheme \<Rightarrow> crypto_stream \<times> 'b ping_pong_bloom \<Rightarrow>
     unit poll \<times> crypto_stream \<times> 'b ping_pong_bloom" where
  "poll_read_handshake hkdf bl s =
     (case s of (c, p) \<Rightarrow>
        (case cs_status c of
           Established \<Rightarrow> (Ready (Ok ()), c, p)
         | WaitIv buf cap method key \<Rightarrow>
             (case handshake_fill cap buf (cs_reader c) of
                (q, buf, r) \<Rightarrow>
                  (let c = c\<lparr>cs_reader := r, cs_status := WaitIv buf cap method key\<rparr> in
                   if q \<noteq> Ready (Ok ()) then (q, c, p)
                   else case check_nonce_and_set bl buf p of
                          (True, p) \<Rightarrow> (Ready (Err (IoError Other ''detected repeated iv/salt'')), c, p)
                        | (False, p) \<Rightarrow>
                            (case (if method = CK_None then Ok DecNone
                                   else map_res DecAead (decrypted_reader_new hkdf method key buf)) of
                               Ok dec \<Rightarrow> (Ready (Ok ()), c\<lparr>cs_dec := Some dec, cs_status := Established\<rparr>, p)
                             | Err e \<Rightarrow> (Ready (Err e), c, p)
                             | Panic \<Rightarrow> (Ready Panic, c, p))))))"

definition crypto_poll_read ::
  "aead_lib \<Rightarrow> hkdf \<Rightarrow> ('b, 'm) bloom_lib_scheme \<Rightarrow> (bytes \<Rightarrow> nat) \<Rightarrow> decrypted_reader_pc \<Rightarrow> nat \<Rightarrow>
     crypto_stream \<times> 'b ping_pong_bloom \<Rightarrow>
     (unit poll \<times> bytes) \<times> crypto_stream \<times> 'b ping_pong_bloom" where
  "crypto_poll_read lib hkdf bl chunk broken n s =
     (case poll_read_handshake hkdf bl s of
        (q, (c, p)) \<Rightarrow>
          if q \<noteq> Ready (Ok ()) then ((q, []), (c, p))
          else case cs_dec c of
                 None \<Rightarrow> ((Ready Panic, []), (c, p))
               | Some DecNone \<Rightarrow>
                   (case poll_read n (cs_reader c) of
                      (Ready (Ok bs), r) \<Rightarrow> ((Ready (Ok ()), bs), (c\<lparr>cs_reader := r\<rparr>, p))
                    | (Ready (Err e), r) \<Rightarrow> ((Ready (Err e), []), (c\<lparr>cs_reader := r\<rparr>, p))
                    | (Ready Panic, r) \<Rightarrow> ((Ready Panic, []), (c\<lparr>cs_reader := r\<rparr>, p))
                    | (Pending, r) \<Rightarrow> ((Pending, []), (c\<lparr>cs_reader := r\<rparr>, p)))
               | Some (DecAead d) \<Rightarrow>
                   (case poll_read_decrypted lib chunk broken n (d, cs_reader c) of
                      (out, (d, r)) \<Rightarrow> (out, (c\<lparr>cs_dec := Some (DecAead d), cs_reader := r\<rparr>, p))))"

definition crypto_poll_write ::
  "aead_lib \<Rightarrow> bytes \<Rightarrow> crypto_stream \<Rightarrow> nat poll \<times> crypto_stream" where
  "crypto_poll_write lib buf c =
     (case cs_enc c of
        EncNone \<Rightarrow> (case poll_write buf (cs_writer c) of (q, w) \<Rightarrow> (q, c\<lparr>cs_writer := w\<rparr>))
      | EncAead e \<Rightarrow>
          (case poll_write_encrypted lib buf (e, cs_writer c) of
             (q, (e, w)) \<Rightarrow> (q, c\<lparr>cs_enc := EncAead e, cs_writer := w\<rparr>)))"

definition crypto_poll_flush :: "crypto_stream \<Rightarrow> unit poll \<times> crypto_stream" where
  "crypto_poll_flush c = (case poll_flush (cs_writer c) of (q, w) \<Rightarrow> (q, c\<lparr>cs_writer := w\<rparr>))"

section \<open>What one end writes, the other reads\<close>

lemma handshake_fill_clean:
  "clean r \<Longrightarrow> length buf \<le> cap \<Longrightarrow> cap \<le> length (buf @ rx_bytes r) \<Longrightarrow> cap \<le> usize_max \<Longrightarrow>
     handshake_fill cap buf r = (q, buf', r') \<Longrightarrow>
     clean r' \<and> buf' @ rx_bytes r' = buf @ rx_bytes r \<and> length buf' \<le> cap \<and> rx_size r' \<le> rx_size r \<and>
     (q = Pending \<and> rx_size r' < rx_size r \<or> q = Ready (Ok ()) \<and> length buf' = cap)"
proof (induction cap buf r rule: handshake_fill.induct)
  case (1 cap buf r)
  show ?case
  proof (cases "length buf = cap")
    case True
    with "1.prems" show ?thesis by (auto simp: handshake_fill.simps [of _ buf r])
  next
    case False
    then have um: "usize_max - length buf \<noteq> 0" using "1.prems"(2,4) by simp
    obtain p s where p: "poll_read (cap - length buf) r = (p, s)" by fastforce
    have pos: "0 < cap - length buf" using False "1.prems"(2) by simp
    from poll_read_clean [OF "1.prems"(1) pos p] show ?thesis
    proof (elim conjE disjE exE)
      assume a: "clean s" "p = Pending" "rx_size s < rx_size r"
      have "rx_bytes s = rx_bytes r" using poll_read_other_bytes [OF p] a(2) by simp
      with a False um p "1.prems" show ?thesis
        by (auto simp: handshake_fill.simps [of cap buf r] poll_read_buf_def)
    next
      fix bs assume a: "clean s" "p = Ready (Ok bs)" "bs = [] \<longrightarrow> rx_bytes r = []"
      have ne: "bs \<noteq> []" using a(3) False "1.prems"(2,3) by auto
      have pb: "poll_read_buf (\<lambda>b. cap - length b) r buf = (Ready (Ok (length bs)), s, buf @ bs)"
        using um p a by (simp add: poll_read_buf_def)
      have rx: "rx_bytes r = bs @ rx_bytes s" using poll_read_bytes p a by simp
      have lb: "length bs \<le> cap - length buf" using poll_read_length p a by simp
      have lt: "rx_size s < rx_size r" using poll_read_size [of "cap - length buf" r bs s] p a ne by simp
      have rec: "handshake_fill cap (buf @ bs) s = (q, buf', r')"
        using "1.prems"(5) False ne by (simp add: handshake_fill.simps [of cap buf r] pb)
      have n0: "length bs \<noteq> 0" using ne by simp
      have l1: "length (buf @ bs) \<le> cap" using lb pos by simp
      have l2: "cap \<le> length ((buf @ bs) @ rx_bytes s)" using "1.prems"(3) rx by simp
      from "1.IH" [OF False pb [symmetric] refl refl refl n0 a(1) l1 l2 "1.prems"(4) rec] rx lt
      show ?thesis by auto
    qed
  qed
qed

text \<open>
  The reading end against a peer that sends a salt and frames: during the handshake the buffered
  part of the salt, then the decrypting reader.
\<close>

definition crypto_source ::
  "aead_lib \<Rightarrow> hkdf \<Rightarrow> ('b, 'm) bloom_lib_scheme \<Rightarrow> cipher_kind \<Rightarrow> bytes \<Rightarrow> bytes \<Rightarrow> bytes \<Rightarrow>
     crypto_stream \<times> 'b ping_pong_bloom \<Rightarrow> bool" where
  "crypto_source lib hkdf bl k key salt bs s \<longleftrightarrow>
     aead_ok lib \<and> hkdf_ok hkdf \<and> k \<noteq> CK_None \<and> length key = key_len k \<and> length salt = salt_len k \<and>
     (case cs_status (fst s) of
        Established \<Rightarrow>
          (\<exists>d. cs_dec (fst s) = Some (DecAead d) \<and>
             dr_source lib k (sub_key hkdf k key salt) bs (d, cs_reader (fst s)))
      | WaitIv buf cap k' key' \<Rightarrow>
          k' = k \<and> key' = key \<and> cap = salt_len k \<and> length buf \<le> cap \<and>
          clean (cs_reader (fst s)) \<and> \<not> fst (check_nonce_and_set bl salt (snd s)) \<and>
          (\<exists>ms. bs = concat ms \<and> (\<forall>m \<in> set ms. length m \<le> MAX_PACKET_SIZE) \<and>
             buf @ rx_bytes (cs_reader (fst s)) =
               salt @ frames lib k (sub_key hkdf k key salt) 0 ms))"

lemma crypto_handshake:
  assumes src: "crypto_source lib hkdf bl k key salt bs (c, p)"
    and r: "poll_read_handshake hkdf bl (c, p) = (q, (c', p'))"
  shows "crypto_source lib hkdf bl k key salt bs (c', p') \<and>
    rx_size (cs_reader c') \<le> rx_size (cs_reader c) \<and>
    (q = Pending \<and> rx_size (cs_reader c') < rx_size (cs_reader c) \<or>
     q = Ready (Ok ()) \<and> cs_status c' = Established)"
proof (cases "cs_status c")
  case Established
  with src r show ?thesis by (simp add: poll_read_handshake_def)
next
  case (WaitIv buf cap k' key')
  let ?sub = "sub_key hkdf k key salt"
  from src WaitIv obtain ms where s: "aead_ok lib" "hkdf_ok hkdf" "k \<noteq> CK_None"
    "length key = key_len k" "length salt = salt_len k" "k' = k" "key' = key" "cap = salt_len k"
    "length buf \<le> cap" "clean (cs_reader c)" "\<not> fst (check_nonce_and_set bl salt p)"
    "bs = concat ms" "\<forall>m \<in> set ms. length m \<le> MAX_PACKET_SIZE"
    "buf @ rx_bytes (cs_reader c) = salt @ frames lib k ?sub 0 ms"
    by (auto simp: crypto_source_def)
  obtain u b r' where f: "handshake_fill cap buf (cs_reader c) = (u, b, r')"
    by (cases "handshake_fill cap buf (cs_reader c)")
  have "cap \<le> length (buf @ rx_bytes (cs_reader c))" by (simp only: s(14)) (simp add: s)
  moreover have "cap \<le> usize_max" by (cases k) (simp_all add: s(8) salt_len_def usize_max_def)
  ultimately have h: "clean r'" "b @ rx_bytes r' = salt @ frames lib k ?sub 0 ms" "length b \<le> cap"
    "rx_size r' \<le> rx_size (cs_reader c)"
    "u = Pending \<and> rx_size r' < rx_size (cs_reader c) \<or> u = Ready (Ok ()) \<and> length b = cap"
    using handshake_fill_clean [OF s(10,9) _ _ f] s(14) by auto
  from h(5) show ?thesis
  proof (elim disjE conjE)
    assume "u = Pending" "rx_size r' < rx_size (cs_reader c)"
    with WaitIv f r h s show ?thesis by (auto simp: poll_read_handshake_def crypto_source_def)
  next
    assume u: "u = Ready (Ok ())" "length b = cap"
    then have b: "b = salt" "rx_bytes r' = frames lib k ?sub 0 ms" using h(2) s(5,8) by simp_all
    obtain p1 where p1: "check_nonce_and_set bl salt p = (False, p1)" using s(11)
      by (cases "check_nonce_and_set bl salt p") auto
    let ?d = "\<lparr>dr_buffer = [], dr_cipher = cipher_at k ?sub 0, dr_tag_size = 16, dr_state = DrLength,
        dr_data_length = 0, dr_minimal_data_to_put = 0, dr_read_res = Pending, dr_read_zero = False\<rparr>"
    have "decrypted_reader_new hkdf k key salt = Ok ?d"
      using aead_cipher_new_at [OF s(2,3,4)] by (simp add: decrypted_reader_new_def tag_len_def)
    then have c': "q = Ready (Ok ())" "cs_status c' = Established" "cs_reader c' = r'"
      "cs_dec c' = Some (DecAead ?d)"
      using WaitIv f r u(1) b p1 s(3,6,7) by (auto simp: poll_read_handshake_def)
    have "dr_at lib k ?sub [] 0 ms (?d, r')" using h(1) b s(13) by (simp add: dr_at_def)
    from dr_sourceI [OF s(1,3) this, of bs] s(12) have "dr_source lib k ?sub bs (?d, r')" by simp
    with c' s h(4) show ?thesis by (simp add: crypto_source_def)
  qed
qed

lemma crypto_poll_read_source:
  assumes src: "crypto_source lib hkdf bl k key salt bs s" and ch: "chunky chunk" and n: "0 < n"
    and r: "crypto_poll_read lib hkdf bl chunk broken n s = ((q, cs), s')"
  shows "q = Pending \<and> crypto_source lib hkdf bl k key salt bs s' \<and>
      rx_size (cs_reader (fst s')) < rx_size (cs_reader (fst s)) \<or>
    q = Ready (Ok ()) \<and> (cs = [] \<and> bs = [] \<or>
      cs \<noteq> [] \<and> length cs \<le> n \<and> (\<exists>ds. bs = cs @ ds \<and> crypto_source lib hkdf bl k key salt ds s' \<and>
        rx_size (cs_reader (fst s')) \<le> rx_size (cs_reader (fst s))))"
proof -
  obtain c p where s: "s = (c, p)" by (cases s)
  obtain u c1 p1 where h: "poll_read_handshake hkdf bl (c, p) = (u, (c1, p1))"
    by (metis surj_pair)
  note hs = crypto_handshake [OF src [unfolded s] h]
  then show ?thesis
  proof (elim conjE disjE)
    assume "crypto_source lib hkdf bl k key salt bs (c1, p1)" "u = Pending"
      "rx_size (cs_reader c1) < rx_size (cs_reader c)"
    with r h s show ?thesis by (auto simp: crypto_poll_read_def)
  next
    assume e: "crypto_source lib hkdf bl k key salt bs (c1, p1)" "u = Ready (Ok ())"
      "cs_status c1 = Established" "rx_size (cs_reader c1) \<le> rx_size (cs_reader c)"
    then obtain d where d: "cs_dec c1 = Some (DecAead d)"
      "dr_source lib k (sub_key hkdf k key salt) bs (d, cs_reader c1)"
      by (auto simp: crypto_source_def)
    obtain q1 cs1 d1 r1 where pr: "poll_read_decrypted lib chunk broken n (d, cs_reader c1) =
        ((q1, cs1), (d1, r1))" by (metis surj_pair)
    have o: "q = q1" "cs = cs1" "s' = (c1\<lparr>cs_dec := Some (DecAead d1), cs_reader := r1\<rparr>, p1)"
      using r h s e(2) d(1) pr by (simp_all add: crypto_poll_read_def)
    from poll_read_decrypted_source [OF d(2) ch n pr] e o show ?thesis
      by (fastforce simp: yields_def s crypto_source_def)
  qed
qed

interpretation crypto_in: byte_source
  "crypto_poll_read lib hkdf bl chunk broken"
  "\<lambda>bs s. chunky chunk \<and> crypto_source lib hkdf bl k key salt bs s"
  "\<lambda>s. rx_size (cs_reader (fst s))" for lib hkdf bl chunk broken k key salt
proof
  fix bs s n out s'
  assume "chunky chunk \<and> crypto_source lib hkdf bl k key salt bs s" "0 < n"
    "crypto_poll_read lib hkdf bl chunk broken n s = (out, s')"
  then show "fst out = Pending \<and> (chunky chunk \<and> crypto_source lib hkdf bl k key salt bs s') \<and>
      rx_size (cs_reader (fst s')) < rx_size (cs_reader (fst s)) \<or>
    (\<exists>cs ds. out = (Ready (Ok ()), cs) \<and> bs = cs @ ds \<and> length cs \<le> n \<and> (cs = [] \<longrightarrow> bs = []) \<and>
       (cs \<noteq> [] \<longrightarrow> (chunky chunk \<and> crypto_source lib hkdf bl k key salt ds s') \<and>
          rx_size (cs_reader (fst s')) \<le> rx_size (cs_reader (fst s))))"
    using crypto_poll_read_source [of lib hkdf bl k key salt bs s chunk n broken "fst out" "snd out" s']
    by (cases out) fastforce
qed

end
