(* ===== verification/Ss_Udp.thy ===== *)
theory Ss_Udp
  imports Ss_Stream
begin

text \<open>
  Shadowsocks datagrams, \<open>src/proxy/shadowsocks/udp_crypto_io.rs\<close>, and the chain builder of
  \<open>src/proxy/shadowsocks/mod.rs\<close>. The datagram transport below is a parameter: the \<open>recv\<close> and
  \<open>send\<close> polls of any stream with the interface of \<open>Datagram\<close>.
\<close>

section \<open>Packets\<close>

text \<open>
  \<open>encrypt_payload\<close> appends to \<open>dst\<close> with no cipher, and rebuilds it from the salt on otherwise.
  Drawing a salt needs random bytes: \<open>None\<close> when the given part of the random stream is used up.
\<close>

definition encrypt_payload_aead ::
  "aead_lib \<Rightarrow> hkdf \<Rightarrow> ('b, 'm) bloom_lib_scheme \<Rightarrow> cipher_kind \<Rightarrow> bytes \<Rightarrow> address \<Rightarrow> bytes \<Rightarrow> bytes \<Rightarrow>
     bytes \<Rightarrow> 'b ping_pong_bloom \<Rightarrow> (bytes res \<times> bytes \<times> 'b ping_pong_bloom) option" where
  "encrypt_payload_aead lib hkdf bl method key addr payload dst rng p =
     (let n = salt_len method;
          dst = take n dst @ replicate (n - length dst) 0
      in case (if 0 < n then generate_nonce bl n False rng p else Some (dst, rng, p)) of
           None \<Rightarrow> None
         | Some (salt, rng, p) \<Rightarrow>
             Some (bind_res (aead_cipher_new hkdf method key salt) (\<lambda>cipher.
                let dst = write_to_buf addr salt;
                    dst = dst @ payload;
                    dst = dst @ replicate (tag_len method) 0
                in map_res (\<lambda>(m, _). take n dst @ m) (aead_encrypt lib cipher (drop n dst))), rng, p))"

definition encrypt_payload ::
  "aead_lib \<Rightarrow> hkdf \<Rightarrow> ('b, 'm) bloom_lib_scheme \<Rightarrow> cipher_kind \<Rightarrow> bytes \<Rightarrow> address \<Rightarrow> bytes \<Rightarrow> bytes \<Rightarrow>
     bytes \<Rightarrow> 'b ping_pong_bloom \<Rightarrow> (bytes res \<times> bytes \<times> 'b ping_pong_bloom) option" where
  "encrypt_payload lib hkdf bl method key addr payload dst rng p =
     (if method = CK_None then Some (Ok (write_to_buf addr dst @ payload), rng, p)
      else encrypt_payload_aead lib hkdf bl method key addr payload dst rng p)"

text \<open>\<open>copy_within(a..a+n, 0)\<close>\<close>

definition copy_to_front :: "nat \<Rightarrow> nat \<Rightarrow> bytes \<Rightarrow> bytes" where
  "copy_to_front a n buf = take n (drop a buf) @ drop n buf"

definition parse_packet :: "bytes \<Rightarrow> (nat \<times> address) res" where
  "parse_packet buf =
     (case read_from_cursor buf of
        Ok (address, rest) \<Rightarrow> Ok (length buf - length rest, address)
      | Err e \<Rightarrow> Err (IoError InvalidData ''parse udp packet Address failed'')
      | Panic \<Rightarrow> Panic)"

text \<open>The result is the length and the address; the payload is left at the front of the buffer.\<close>

definition decrypt_payload_aead ::
  "aead_lib \<Rightarrow> hkdf \<Rightarrow> cipher_kind \<Rightarrow> bytes \<Rightarrow> bytes \<Rightarrow> (nat \<times> address) res \<times> bytes" where
  "decrypt_payload_aead lib hkdf method key payload =
     (let n = salt_len method in
      if length payload < n then (Err (IoError InvalidData ''udp packet too short for salt''), payload)
      else
        let salt = take n payload; data = drop n payload; tl = tag_len method in
        case aead_cipher_new hkdf method key salt of
          Err e \<Rightarrow> (Err e, payload)
        | Panic \<Rightarrow> (Panic, payload)
        | Ok cipher \<Rightarrow>
            if length data < tl then (Err (IoError Other ''udp packet too short for tag''), payload)
            else
              (case aead_decrypt lib cipher data of
                 Err e \<Rightarrow> (Err e, payload)
               | Panic \<Rightarrow> (Panic, payload)
               | Ok ((ok, data), _) \<Rightarrow>
                   (let payload = salt @ data in
                    if \<not> ok then (Err (IoError Other ''invalid tag-in''), payload)
                    else
                      let data_len = length data - tl; data = take data_len data in
                      case parse_packet data of
                        Err e \<Rightarrow> (Err e, payload)
                      | Panic \<Rightarrow> (Panic, payload)
                      | Ok (dn, addr) \<Rightarrow>
                          (let data_length = data_len - dn; data_start_idx = n + dn
                           in (Ok (data_length, addr), copy_to_front data_start_idx data_length payload)))))"

definition decrypt_payload ::
  "aead_lib \<Rightarrow> hkdf \<Rightarrow> cipher_kind \<Rightarrow> bytes \<Rightarrow> bytes \<Rightarrow> (nat \<times> address) res \<times> bytes" where
  "decrypt_payload lib hkdf method key payload =
     (if method = CK_None then
        (case read_from_cursor payload of
           Ok (address, rest) \<Rightarrow>
             (let pos = length payload - length rest
              in (Ok (length payload - pos, address), copy_to_front pos (length payload - pos) payload))
         | Err e \<Rightarrow> (Err (IoError InvalidData ''parse udp packet Address failed''), payload)
         | Panic \<Rightarrow> (Panic, payload))
      else decrypt_payload_aead lib hkdf method key payload)"

section \<open>The datagram stream\<close>

datatype ss_udp_pc = SsEncrypt | SsSend

record ('s, 'b) ss_udp_stream =
  su_stream :: 's
  su_addr :: address
  su_context :: "'b ping_pong_bloom"
  su_write_buffer :: bytes
  su_method :: cipher_kind
  su_key :: bytes
  su_state :: ss_udp_pc
  su_write_res :: "nat poll"

definition ss_udp_stream_new ::
  "'s \<Rightarrow> address \<Rightarrow> 'b ping_pong_bloom \<Rightarrow> cipher_kind \<Rightarrow> bytes \<Rightarrow> ('s, 'b) ss_udp_stream" where
  "ss_udp_stream_new io addr context method key =
     \<lparr>su_stream = io, su_addr = addr, su_context = context, su_write_buffer = [], su_method = method,
      su_key = key, su_state = SsEncrypt, su_write_res = Pending\<rparr>"

text \<open>Receiving: the transport fills the caller's (empty) buffer, which is decrypted in place.\<close>

definition ss_udp_recv ::
  "aead_lib \<Rightarrow> hkdf \<Rightarrow> 's recv_poll \<Rightarrow> ('s, 'b) ss_udp_stream recv_poll" where
  "ss_udp_recv lib hkdf recv u =
     (case recv (su_stream u) of
        ((Pending, bs), s) \<Rightarrow> ((Pending, bs), u\<lparr>su_stream := s\<rparr>)
      | ((Ready (Err e), bs), s) \<Rightarrow> ((Ready (Err e), bs), u\<lparr>su_stream := s\<rparr>)
      | ((Ready Panic, bs), s) \<Rightarrow> ((Ready Panic, bs), u\<lparr>su_stream := s\<rparr>)
      | ((Ready (Ok _), filled), s) \<Rightarrow>
          (let u = u\<lparr>su_stream := s\<rparr> in
           case decrypt_payload lib hkdf (su_method u) (su_key u) filled of
             (Ok (n, addr), filled) \<Rightarrow> ((Ready (Ok addr), take n filled), u)
           | (Err e, filled) \<Rightarrow> ((Ready (Err e), filled), u)
           | (Panic, filled) \<Rightarrow> ((Ready Panic, filled), u)))"

text \<open>Sending: every packet goes to the configured address, whatever its target is.\<close>

definition ss_udp_push ::
  "(packet, 's) send_poll \<Rightarrow> ('s, 'b) ss_udp_stream \<Rightarrow> nat poll \<times> ('s, 'b) ss_udp_stream" where
  "ss_udp_push send u =
     (case send (su_addr u, su_write_buffer u) (su_stream u) of
        (Pending, s) \<Rightarrow> (Pending, u\<lparr>su_stream := s, su_state := SsSend\<rparr>)
      | (r, s) \<Rightarrow> (r, u\<lparr>su_stream := s, su_write_buffer := [], su_write_res := Pending,
                       su_state := SsEncrypt\<rparr>))"

definition ss_udp_send ::
  "aead_lib \<Rightarrow> hkdf \<Rightarrow> ('b, 'm) bloom_lib_scheme \<Rightarrow> (packet, 's) send_poll \<Rightarrow> packet \<Rightarrow>
     ('s, 'b) ss_udp_stream \<Rightarrow> bytes \<Rightarrow> ((nat poll \<times> ('s, 'b) ss_udp_stream) \<times> bytes) option" where
  "ss_udp_send lib hkdf bl send p u rng =
     (case su_state u of
        SsEncrypt \<Rightarrow>
          (case encrypt_payload lib hkdf bl (su_method u) (su_key u) (fst p) (snd p)
                  (su_write_buffer u) rng (su_context u) of
             None \<Rightarrow> None
           | Some (Ok buf, rng, ctx) \<Rightarrow>
               Some (ss_udp_push send (u\<lparr>su_write_buffer := buf, su_context := ctx\<rparr>), rng)
           | Some (Err e, rng, ctx) \<Rightarrow> Some ((Ready (Err e), u\<lparr>su_context := ctx\<rparr>), rng)
           | Some (Panic, rng, ctx) \<Rightarrow> Some ((Ready Panic, u\<lparr>su_context := ctx\<rparr>), rng))
      | SsSend \<Rightarrow> Some (ss_udp_push send u, rng))"

section \<open>The chain builder\<close>

record 'b shadowsocks_builder =
  sb_addr :: address
  sb_method :: cipher_kind
  sb_context :: "'b ping_pong_bloom"
  sb_key :: bytes

definition shadowsocks_new_from_config ::
  "(bytes \<Rightarrow> bytes) \<Rightarrow> address \<Rightarrow> string \<Rightarrow> cipher_kind \<Rightarrow> 'b ping_pong_bloom \<Rightarrow>
     'b shadowsocks_builder" where
  "shadowsocks_new_from_config md5 addr password method context =
     \<lparr>sb_addr = addr, sb_method = method, sb_context = context,
      sb_key = openssl_bytes_to_key md5 (as_bytes password) (replicate (key_len method) 0)\<rparr>"

section \<open>What is encrypted is decrypted\<close>

lemma parse_packet_encode:
  "wire_ok a \<Longrightarrow> parse_packet (encode_address a @ payload) = Ok (serialized_len a, a)"
  by (simp add: parse_packet_def read_from_cursor_encode length_encode_address)

definition ss_packet :: "aead_lib \<Rightarrow> hkdf \<Rightarrow> cipher_kind \<Rightarrow> bytes \<Rightarrow> bytes \<Rightarrow> address \<Rightarrow> bytes \<Rightarrow> bytes" where
  "ss_packet lib hkdf k key salt a payload =
     salt @ sealed lib k (sub_key hkdf k key salt) 0 (encode_address a @ payload)"

lemma decrypt_ss_packet:
  assumes "aead_ok lib" "hkdf_ok hkdf" "k \<noteq> CK_None" "length key = key_len k"
    "length salt = salt_len k" "wire_ok a" "length payload \<le> 2 ^ 31"
  shows "\<exists>buf. decrypt_payload lib hkdf k key (ss_packet lib hkdf k key salt a payload) =
    (Ok (length payload, a), buf) \<and> take (length payload) buf = payload"
proof -
  let ?sub = "sub_key hkdf k key salt" and ?m = "encode_address a @ payload"
  have m: "length ?m < 2 ^ 32" using assms(6,7) by (cases a rule: serialized_len.cases) (simp_all add: length_encode_address)
  obtain t where t: "length t = 16" "aead_decrypt lib (cipher_at k ?sub 0) (sealed lib k ?sub 0 ?m) =
      Ok ((True, ?m @ t), cipher_at k ?sub (0 + 1))"
    using decrypt_at [OF assms(1,3) m] by blast
  have len: "length (sealed lib k ?sub 0 ?m) = length ?m + 16" using length_sealed [OF assms(1) m] .
  let ?buf = "copy_to_front (salt_len k + serialized_len a) (length payload) (salt @ ?m @ t)"
  have "decrypt_payload lib hkdf k key (ss_packet lib hkdf k key salt a payload) =
      (Ok (length payload, a), ?buf)"
    using assms t len aead_cipher_new_at [OF assms(2,3,4), of salt] parse_packet_encode [OF assms(6), of payload]
    by (simp add: decrypt_payload_def decrypt_payload_aead_def ss_packet_def Let_def tag_len_def
        length_encode_address)
  moreover have "take (length payload) ?buf = payload"
    using assms(5) by (simp add: copy_to_front_def length_encode_address)
  ultimately show ?thesis by blast
qed

lemma encrypt_ss_packet:
  assumes "aead_ok lib" "hkdf_ok hkdf" "k \<noteq> CK_None" "length key = key_len k"
    "wire_ok a" "length payload \<le> 2 ^ 31"
    "encrypt_payload lib hkdf bl k key a payload [] rng p = Some (x, rng', p')"
  shows "\<exists>salt. length salt = salt_len k \<and> x = Ok (ss_packet lib hkdf k key salt a payload) \<and> p' = p"
proof -
  let ?m = "encode_address a @ payload"
  have m: "length ?m < 2 ^ 32" using assms(5,6) by (cases a rule: serialized_len.cases) (simp_all add: length_encode_address)
  have n: "0 < salt_len k" using assms(3) by (cases k) (simp_all add: salt_len_def)
  from assms(3,7) n obtain salt where g: "generate_nonce bl (salt_len k) False rng p = Some (salt, rng', p')"
    and x: "x = bind_res (aead_cipher_new hkdf k key salt) (\<lambda>cipher.
        map_res (\<lambda>(m, _). take (salt_len k) (salt @ ?m @ replicate 16 0) @ m)
          (aead_encrypt lib cipher (drop (salt_len k) (salt @ ?m @ replicate 16 0))))"
    by (auto simp: encrypt_payload_def encrypt_payload_aead_def Let_def tag_len_def write_to_buf_append
        split: option.splits)
  have s: "length salt = salt_len k \<and> p' = p"
    using g n by (auto simp: generate_nonce.simps [of bl "salt_len k"] dest: random_iv_or_salt_Some split: option.splits)
  have e: "aead_encrypt lib (cipher_at k (sub_key hkdf k key salt) 0) (?m @ replicate 16 0) =
      Ok (sealed lib k (sub_key hkdf k key salt) 0 ?m, cipher_at k (sub_key hkdf k key salt) (0 + 1))"
    by (rule encrypt_at [OF assms(1,3) m]) simp
  have "x = Ok (ss_packet lib hkdf k key salt a payload)"
    using x s e aead_cipher_new_at [OF assms(2,3,4), of salt] by (simp add: ss_packet_def)
  with s show ?thesis by blast
qed

lemma ss_udp_recv_packet:
  assumes "aead_ok lib" "hkdf_ok hkdf" "su_method u \<noteq> CK_None"
    "length (su_key u) = key_len (su_method u)" "length salt = salt_len (su_method u)" "wire_ok a"
    "length payload \<le> 2 ^ 31"
    "recv (su_stream u) =
       ((Ready (Ok from), ss_packet lib hkdf (su_method u) (su_key u) salt a payload), s)"
  shows "ss_udp_recv lib hkdf recv u = ((Ready (Ok a), payload), u\<lparr>su_stream := s\<rparr>)"
  using decrypt_ss_packet [OF assms(1-7)] assms(8) by (auto simp: ss_udp_recv_def Let_def)

end
