(* ===== verification/Udp.thy ===== *)
theory Udp
  imports Datagram
begin

text \<open>
  \<open>src/proxy/udp.rs\<close>: the connected UDP socket, the futures that receive and send one datagram, and
  the two halves that share a datagram stream behind a spin lock.
\<close>

section \<open>The connected socket\<close>

text \<open>
  A UDP socket is a script of what its polls observe; a datagram longer than the room offered is cut
  by the system. After its script a socket stays pending, and accepts every datagram.
\<close>

datatype sock_event = SockDatagram socket_addr bytes | SockPending | SockErr io_error

record udp_socket =
  us_in :: "sock_event list"
  us_out :: "unit poll list"
  us_sent :: "(socket_addr \<times> bytes) list"

definition sock_poll_recv_from ::
  "nat \<Rightarrow> udp_socket \<Rightarrow> (socket_addr poll \<times> bytes) \<times> udp_socket" where
  "sock_poll_recv_from remaining s =
     (case us_in s of
        [] \<Rightarrow> ((Pending, []), s)
      | SockPending # es \<Rightarrow> ((Pending, []), s\<lparr>us_in := es\<rparr>)
      | SockErr e # es \<Rightarrow> ((Ready (Err e), []), s\<lparr>us_in := es\<rparr>)
      | SockDatagram a bs # es \<Rightarrow> ((Ready (Ok a), take remaining bs), s\<lparr>us_in := es\<rparr>))"

definition sock_poll_send_to ::
  "bytes \<Rightarrow> socket_addr \<Rightarrow> udp_socket \<Rightarrow> nat poll \<times> udp_socket" where
  "sock_poll_send_to buf a s =
     (case us_out s of
        [] \<Rightarrow> (Ready (Ok (length buf)), s\<lparr>us_sent := us_sent s @ [(a, buf)]\<rparr>)
      | Ready (Ok u) # es \<Rightarrow> (Ready (Ok (length buf)), s\<lparr>us_out := es, us_sent := us_sent s @ [(a, buf)]\<rparr>)
      | Ready (Err e) # es \<Rightarrow> (Ready (Err e), s\<lparr>us_out := es\<rparr>)
      | Ready Panic # es \<Rightarrow> (Ready Panic, s\<lparr>us_out := es\<rparr>)
      | Pending # es \<Rightarrow> (Pending, s\<lparr>us_out := es\<rparr>))"

record connected_udp_socket =
  cu_socket :: udp_socket
  cu_addr :: socket_addr

text \<open>\<open>connect\<close>: \<open>lookup\<close> is the resolver's answer for the address.\<close>

definition connected_udp_connect ::
  "udp_socket \<Rightarrow> socket_addr list res \<Rightarrow> connected_udp_socket res" where
  "connected_udp_connect socket lookup =
     bind_res lookup (\<lambda>addrs.
       case addrs of
         addr # _ \<Rightarrow> Ok \<lparr>cu_socket = socket, cu_addr = addr\<rparr>
       | [] \<Rightarrow> Err (new_error ''no valid addr after lookup_host''))"

definition connected_poll_read ::
  "nat \<Rightarrow> connected_udp_socket \<Rightarrow> (unit poll \<times> bytes) \<times> connected_udp_socket" where
  "connected_poll_read remaining c =
     (case sock_poll_recv_from remaining (cu_socket c) of
        ((p, bs), s) \<Rightarrow> ((drop_poll_result p, bs), c\<lparr>cu_socket := s\<rparr>))"

definition connected_poll_write ::
  "bytes \<Rightarrow> connected_udp_socket \<Rightarrow> nat poll \<times> connected_udp_socket" where
  "connected_poll_write buf c =
     (case sock_poll_send_to buf (cu_addr c) (cu_socket c) of (p, s) \<Rightarrow> (p, c\<lparr>cu_socket := s\<rparr>))"

fun map_poll :: "('a \<Rightarrow> 'b) \<Rightarrow> 'a poll \<Rightarrow> 'b poll" where
  "map_poll f (Ready r) = Ready (map_res f r)"
| "map_poll f Pending = Pending"

definition connected_poll_recv_from :: "nat \<Rightarrow> connected_udp_socket recv_poll" where
  "connected_poll_recv_from remaining c =
     (case sock_poll_recv_from remaining (cu_socket c) of
        ((p, bs), s) \<Rightarrow> ((map_poll SocketAddress p, bs), c\<lparr>cu_socket := s\<rparr>))"

definition connected_poll_send_to :: "(packet, connected_udp_socket) send_poll" where
  "connected_poll_send_to p c =
     (case sock_poll_send_to (snd p) (cu_addr c) (cu_socket c) of (q, s) \<Rightarrow> (q, c\<lparr>cu_socket := s\<rparr>))"

section \<open>One datagram as a future\<close>

record 's udp_read_half =
  ur_reader :: 's
  ur_buf :: bytes
  ur_addr :: address

definition udp_read_half_new :: "'s \<Rightarrow> bytes \<Rightarrow> 's udp_read_half" where
  "udp_read_half_new reader buf = \<lparr>ur_reader = reader, ur_buf = buf, ur_addr = new_dummy_address\<rparr>"

text \<open>\<open>recv n\<close> is the poll of the reader with room for \<open>n\<close> bytes, \<open>chunk\<close> the spare room of the buffer.\<close>

definition udp_read_half_poll ::
  "(nat \<Rightarrow> 's recv_poll) \<Rightarrow> (bytes \<Rightarrow> nat) \<Rightarrow> 's udp_read_half \<Rightarrow>
     (nat \<times> address) poll \<times> 's udp_read_half" where
  "udp_read_half_poll recv chunk u =
     (case recv (chunk (ur_buf u)) (ur_reader u) of
        ((Ready (Ok a), bs), s) \<Rightarrow>
          (Ready (Ok (length bs, a)),
           u\<lparr>ur_reader := s, ur_buf := ur_buf u @ bs, ur_addr := new_dummy_address\<rparr>)
      | ((Ready (Err e), bs), s) \<Rightarrow> (Ready (Err e), u\<lparr>ur_reader := s\<rparr>)
      | ((Ready Panic, bs), s) \<Rightarrow> (Ready Panic, u\<lparr>ur_reader := s\<rparr>)
      | ((Pending, bs), s) \<Rightarrow> (Pending, u\<lparr>ur_reader := s\<rparr>))"

record 's udp_write_half =
  uw_writer :: 's
  uw_target :: address
  uw_buf :: bytes

definition udp_write_half_poll ::
  "(packet, 's) send_poll \<Rightarrow> 's udp_write_half \<Rightarrow> nat poll \<times> 's udp_write_half" where
  "udp_write_half_poll send u =
     (case send (uw_target u, uw_buf u) (uw_writer u) of (p, s) \<Rightarrow> (p, u\<lparr>uw_writer := s\<rparr>))"

section \<open>Two halves of one stream\<close>

text \<open>
  \<open>Inner\<close>: the stream and the flag. \<open>poll_lock\<close> is one compare-and-exchange, \<open>unlock\<close> the store
  when the guard is dropped.
\<close>

record 's split_inner =
  locked :: bool
  split_stream :: 's

definition split_ext :: "'s \<Rightarrow> 's split_inner" where
  "split_ext stream = \<lparr>locked = False, split_stream = stream\<rparr>"

definition poll_lock :: "('s, 'm) split_inner_scheme \<Rightarrow> unit poll \<times> ('s, 'm) split_inner_scheme" where
  "poll_lock inner =
     (if \<not> locked inner then (Ready (Ok ()), inner\<lparr>locked := True\<rparr>) else (Pending, inner))"

definition unlock :: "('s, 'm) split_inner_scheme \<Rightarrow> ('s, 'm) split_inner_scheme" where
  "unlock inner = inner\<lparr>locked := False\<rparr>"

text \<open>
  A poll of a half: take the lock or stay pending, poll the stream, release. The two halves run in
  different tasks, so each of the three is a step of its own. \<open>Holding\<close> has the guard, \<open>Polled r\<close>
  has the answer of the stream and still the guard.
\<close>

datatype half = ReadHalfExt | WriteHalfExt
datatype 'r half_pc = HalfIdle | Holding | Polled 'r

record ('s, 'r) split = "'s split_inner" +
  half_pc :: "half \<Rightarrow> 'r half_pc"
  poll_log :: "(half \<times> 'r) list"

definition split_start :: "'s \<Rightarrow> ('s, 'r) split" where
  "split_start stream =
     \<lparr>locked = False, split_stream = stream, half_pc = (\<lambda>_. HalfIdle), poll_log = []\<rparr>"

text \<open>\<open>act h\<close> is the poll half \<open>h\<close> makes of the stream.\<close>

inductive half_step :: "(half \<Rightarrow> 's \<Rightarrow> 'r \<times> 's) \<Rightarrow> ('s, 'r) split \<Rightarrow> ('s, 'r) split \<Rightarrow> bool"
  for act where
  lock: "half_pc s h = HalfIdle \<Longrightarrow> poll_lock s = (Ready (Ok ()), s') \<Longrightarrow>
     half_step act s (s'\<lparr>half_pc := (half_pc s')(h := Holding)\<rparr>)"
| busy: "half_pc s h = HalfIdle \<Longrightarrow> poll_lock s = (Pending, s') \<Longrightarrow> half_step act s s'"
| poll: "half_pc s h = Holding \<Longrightarrow> act h (split_stream s) = (r, t) \<Longrightarrow>
     half_step act s (s\<lparr>split_stream := t, half_pc := (half_pc s)(h := Polled r),
       poll_log := poll_log s @ [(h, r)]\<rparr>)"
| release: "half_pc s h = Polled r \<Longrightarrow>
     half_step act s (unlock (s\<lparr>half_pc := (half_pc s)(h := HalfIdle)\<rparr>))"

inductive_cases half_stepE: "half_step act s s'"

text \<open>One half at a time is past the lock, and exactly while the flag is set.\<close>

definition split_safe :: "('s, 'r) split \<Rightarrow> bool" where
  "split_safe s \<longleftrightarrow>
     (locked s \<longleftrightarrow> (\<exists>h. half_pc s h \<noteq> HalfIdle)) \<and>
     (\<forall>h h'. half_pc s h \<noteq> HalfIdle \<longrightarrow> half_pc s h' \<noteq> HalfIdle \<longrightarrow> h = h')"

text \<open>The polls in the order of the log, one after the other, from a state of the stream.\<close>

fun replay :: "(half \<Rightarrow> 's \<Rightarrow> 'r \<times> 's) \<Rightarrow> half list \<Rightarrow> 's \<Rightarrow> (half \<times> 'r) list \<times> 's" where
  "replay act [] t = ([], t)"
| "replay act (h # hs) t =
     (case act h t of (r, t1) \<Rightarrow> case replay act hs t1 of (l, t2) \<Rightarrow> ((h, r) # l, t2))"

lemma replay_snoc:
  "replay act (hs @ [h]) t =
     (case replay act hs t of (l, t1) \<Rightarrow> case act h t1 of (r, t2) \<Rightarrow> (l @ [(h, r)], t2))"
  by (induction hs arbitrary: t) (auto split: prod.splits)

definition split_inv :: "(half \<Rightarrow> 's \<Rightarrow> 'r \<times> 's) \<Rightarrow> 's \<Rightarrow> ('s, 'r) split \<Rightarrow> bool" where
  "split_inv act t0 s \<longleftrightarrow>
     split_safe s \<and> replay act (map fst (poll_log s)) t0 = (poll_log s, split_stream s)"

lemma split_inv_start: "split_inv act t (split_start t)"
  by (simp add: split_inv_def split_safe_def split_start_def)

lemma half_step_inv: "half_step act s s' \<Longrightarrow> split_inv act t0 s \<Longrightarrow> split_inv act t0 s'"
proof (induction rule: half_step.induct)
  case (lock s h s')
  then have "\<not> locked s" "s' = s\<lparr>locked := True\<rparr>" by (auto simp: poll_lock_def split: if_splits)
  with lock show ?case by (auto simp: split_inv_def split_safe_def)
next
  case (busy s h s')
  then show ?case by (auto simp: poll_lock_def split: if_splits)
next
  case (poll s h r t)
  have others: "half_pc s h' = HalfIdle" if "h' \<noteq> h" for h'
    using poll that by (metis half_pc.distinct(1) split_inv_def split_safe_def)
  have "locked s" using poll by (metis half_pc.distinct(1) split_inv_def split_safe_def)
  with poll others show ?case
    by (simp add: split_inv_def split_safe_def replay_snoc)
next
  case (release s h r)
  have others: "half_pc s h' = HalfIdle" if "h' \<noteq> h" for h'
    using release that by (metis half_pc.distinct(3) split_inv_def split_safe_def)
  with release show ?case by (simp add: split_inv_def split_safe_def unlock_def)
qed

lemma half_steps_inv: "(half_step act)\<^sup>*\<^sup>* s s' \<Longrightarrow> split_inv act t0 s \<Longrightarrow> split_inv act t0 s'"
  by (induction rule: rtranclp_induct) (auto intro: half_step_inv)

text \<open>A half that is not past the lock can always be served: whoever holds it is never stuck.\<close>

lemma split_not_stuck:
  assumes "split_inv act t0 s" "half_pc s h = HalfIdle"
  shows "\<exists>s'. (half_step act)\<^sup>*\<^sup>* s s' \<and> half_pc s' h = Holding"
proof -
  have free: "\<exists>s'. (half_step act)\<^sup>*\<^sup>* u s' \<and> half_pc s' h = Holding"
    if "\<not> locked u" "half_pc u h = HalfIdle" for u :: "('a, 'b) split"
  proof -
    have "half_step act u ((u\<lparr>locked := True\<rparr>)\<lparr>half_pc := (half_pc u)(h := Holding)\<rparr>)"
      using half_step.lock [of u h "u\<lparr>locked := True\<rparr>" act] that by (simp add: poll_lock_def)
    then show ?thesis by (intro exI conjI, rule r_into_rtranclp) auto
  qed
  have after: "\<exists>s'. (half_step act)\<^sup>*\<^sup>* u s' \<and> half_pc s' h = Holding"
    if "half_pc u g = Polled r" "half_pc u h = HalfIdle" for u :: "('a, 'b) split" and g r
  proof -
    let ?v = "unlock (u\<lparr>half_pc := (half_pc u)(g := HalfIdle)\<rparr>)"
    have "half_step act u ?v" using that(1) by (rule half_step.release)
    moreover have "\<exists>s'. (half_step act)\<^sup>*\<^sup>* ?v s' \<and> half_pc s' h = Holding"
      by (rule free) (use that(2) in \<open>simp_all add: unlock_def\<close>)
    ultimately show ?thesis by (meson converse_rtranclp_into_rtranclp)
  qed
  show ?thesis
  proof (cases "locked s")
    case False
    with free assms(2) show ?thesis by blast
  next
    case True
    then obtain g where g: "half_pc s g \<noteq> HalfIdle" using assms(1) by (auto simp: split_inv_def split_safe_def)
    then have gh: "g \<noteq> h" using assms(2) by auto
    show ?thesis
    proof (cases "half_pc s g")
      case HalfIdle
      with g show ?thesis by simp
    next
      case (Polled r)
      with after assms(2) show ?thesis by blast
    next
      case Holding
      obtain r t where rt: "act g (split_stream s) = (r, t)" by fastforce
      let ?u = "s\<lparr>split_stream := t, half_pc := (half_pc s)(g := Polled r), poll_log := poll_log s @ [(g, r)]\<rparr>"
      have "half_step act s ?u" using Holding rt by (rule half_step.poll)
      moreover have "\<exists>s'. (half_step act)\<^sup>*\<^sup>* ?u s' \<and> half_pc s' h = Holding"
        by (rule after [of _ g r]) (use gh assms(2) in auto)
      ultimately show ?thesis by (meson converse_rtranclp_into_rtranclp)
    qed
  qed
qed

end
