(* ===== verification/Vmess_Aead.thy ===== *)
theory Vmess_Aead
  imports Ss_Stream
begin

text \<open>
  The body of a VMess connection: \<open>src/proxy/vmess/aead.rs\<close>. A chunk is its length in clear, two
  bytes, and the data sealed under a nonce made of a 16 bit chunk count and bytes 2 to 11 of the
  connection's vector. Writer and reader are generators, as in \<open>Ss_Stream\<close>. \<open>checks\<close> says whether
  the program was compiled with overflow checks (a debug build): the count then panics where it
  would wrap.
\<close>

definition MAX_SIZE :: nat where "MAX_SIZE = 17 * 1024"
definition CHUNK_SIZE :: nat where "CHUNK_SIZE = 2 ^ 14"

section \<open>The cipher of a direction\<close>

datatype vmess_security = VsAes128Gcm bytes | VsChaCha20Poly1305 bytes

fun vs_kind :: "vmess_security \<Rightarrow> cipher_kind" where
  "vs_kind (VsAes128Gcm key) = Aes128Gcm"
| "vs_kind (VsChaCha20Poly1305 key) = ChaCha20Poly1305"

fun vs_key :: "vmess_security \<Rightarrow> bytes" where
  "vs_key (VsAes128Gcm key) = key"
| "vs_key (VsChaCha20Poly1305 key) = key"

definition vs_overhead_len :: "vmess_security \<Rightarrow> nat" where "vs_overhead_len sec = 16"
definition vs_nonce_len :: "vmess_security \<Rightarrow> nat" where "vs_nonce_len sec = 12"
definition vs_tag_len :: "vmess_security \<Rightarrow> nat" where "vs_tag_len sec = 16"

text \<open>The addition of 1 to a count of 16 bits.\<close>

definition u16_inc :: "bool \<Rightarrow> u16 \<Rightarrow> u16 res" where
  "u16_inc checks c = (if checks \<and> c = - 1 then Panic else Ok (c + 1))"

text \<open>The nonce array with the count and ten bytes of the vector written over its front.\<close>

definition construct_nonce :: "bytes \<Rightarrow> u16 \<Rightarrow> bytes \<Rightarrow> bytes res" where
  "construct_nonce nonce count iv =
     (if length iv < 12 then Panic
      else Ok (copy_at (copy_at nonce 0 (put_u16 count)) 2 (take 10 (drop 2 iv))))"

section \<open>The writer\<close>

datatype vmess_writer_pc = VwStart | VwWrite | VwDone

record vmess_aead_writer =
  vw_security :: vmess_security
  vw_buffer :: bytes
  vw_nonce :: bytes
  vw_pos :: nat
  vw_iv :: bytes
  vw_count :: u16
  vw_data_len :: nat
  vw_state :: vmess_writer_pc
  vw_write_res :: "nat poll"

definition vmess_writer_new :: "bytes \<Rightarrow> vmess_security \<Rightarrow> vmess_aead_writer" where
  "vmess_writer_new iv sec =
     \<lparr>vw_security = sec, vw_buffer = [], vw_nonce = replicate 32 0, vw_pos = 0, vw_iv = iv,
      vw_count = 0, vw_data_len = 0, vw_state = VwStart, vw_write_res = Pending\<rparr>"

text \<open>
  \<open>encrypted_buffer\<close>: the length, cut to 16 bits, then the data and room for the tag, sealed in
  place (what the room held before is overwritten).
\<close>

definition vmess_encrypted_buffer ::
  "aead_lib \<Rightarrow> bool \<Rightarrow> bytes \<Rightarrow> vmess_aead_writer \<Rightarrow> vmess_aead_writer res" where
  "vmess_encrypted_buffer lib checks data v =
     (let data_len = length data; sec = vw_security v;
          buffer = vw_buffer v @ put_u16 (of_nat (data_len + vs_tag_len sec));
          mbuf = data @ replicate (vs_tag_len sec) 0
      in bind_res (construct_nonce (vw_nonce v) (vw_count v) (vw_iv v)) (\<lambda>nonce.
         bind_res (encrypt_inplace_with_slice lib (vs_kind sec) (vs_key sec)
             (take (vs_nonce_len sec) nonce) [] mbuf) (\<lambda>mbuf.
         bind_res (u16_inc checks (vw_count v)) (\<lambda>count.
           Ok (v\<lparr>vw_data_len := data_len, vw_buffer := buffer @ mbuf, vw_nonce := nonce,
                 vw_count := count, vw_pos := 0\<rparr>)))))"

definition vmess_write_data ::
  "vmess_aead_writer \<times> writer \<Rightarrow> nat poll \<times> vmess_aead_writer \<times> writer" where
  "vmess_write_data s =
     (case s of (v, w) \<Rightarrow>
        (case write_loop (vw_data_len v) (vw_buffer v) (vw_pos v) w of
           (p, pos, w) \<Rightarrow> (p, v\<lparr>vw_pos := pos\<rparr>, w)))"

definition vw_flush_out ::
  "vmess_aead_writer \<times> writer \<Rightarrow> nat poll \<times> vmess_aead_writer \<times> writer" where
  "vw_flush_out s =
     (case vmess_write_data s of
        (Pending, (v, w)) \<Rightarrow> (Pending, v\<lparr>vw_state := VwWrite\<rparr>, w)
      | (p, (v, w)) \<Rightarrow> (p, v\<lparr>vw_buffer := [], vw_write_res := Pending, vw_state := VwStart\<rparr>, w))"

text \<open>
  \<open>poll_write_encrypted\<close>: an empty write returns, which completes the generator. While a chunk is
  being written the data of the call are not looked at.
\<close>

definition vmess_poll_write_encrypted ::
  "aead_lib \<Rightarrow> bool \<Rightarrow> bytes \<Rightarrow> vmess_aead_writer \<times> writer \<Rightarrow> nat poll \<times> vmess_aead_writer \<times> writer" where
  "vmess_poll_write_encrypted lib checks data s =
     (case s of (v, w) \<Rightarrow>
        (case vw_state v of
           VwStart \<Rightarrow>
             if data = [] then (Ready (Ok 0), v\<lparr>vw_state := VwDone\<rparr>, w)
             else (let minimal_data_to_write = min (CHUNK_SIZE - vs_overhead_len (vw_security v)) (length data);
                       data = take minimal_data_to_write data
                   in case vmess_encrypted_buffer lib checks data v of
                        Ok v \<Rightarrow> vw_flush_out (v, w)
                      | Err e \<Rightarrow> (Ready (Err e), v, w)
                      | Panic \<Rightarrow> (Ready Panic, v, w))
         | VwWrite \<Rightarrow> vw_flush_out (v, w)
         | VwDone \<Rightarrow> (Ready (Err (IoError UnexpectedEof '''')), v, w)))"

section \<open>The reader\<close>

datatype vmess_reader_pc = VrLength | VrPayload | VrPut | VrDone

record vmess_aead_reader =
  vr_security :: vmess_security
  vr_buffer :: bytes
  vr_state :: vmess_reader_pc
  vr_read_res :: "unit poll"
  vr_nonce :: bytes
  vr_iv :: bytes
  vr_data_length :: nat
  vr_count :: u16
  vr_minimal_data_to_put :: nat
  vr_read_zero :: bool

definition vmess_reader_new :: "bytes \<Rightarrow> vmess_security \<Rightarrow> vmess_aead_reader" where
  "vmess_reader_new iv sec =
     \<lparr>vr_security = sec, vr_buffer = [], vr_state = VrLength, vr_read_res = Pending,
      vr_nonce = replicate 32 0, vr_iv = iv, vr_data_length = 0, vr_count = 0,
      vr_minimal_data_to_put = 0, vr_read_zero = False\<rparr>"

definition vmess_decrypted_data :: "aead_lib \<Rightarrow> vmess_aead_reader \<Rightarrow> (bool \<times> vmess_aead_reader) res" where
  "vmess_decrypted_data lib t =
     (let sec = vr_security t; n = vr_data_length t in
      if length (vr_buffer t) < n then Panic
      else map_res (\<lambda>(ok, m). (ok, t\<lparr>vr_buffer := m @ drop n (vr_buffer t)\<rparr>))
             (decrypt_inplace_with_slice lib (vs_kind sec) (vs_key sec)
                (take (vs_nonce_len sec) (vr_nonce t)) [] (take n (vr_buffer t))))"

definition vr_await ::
  "(bytes \<Rightarrow> nat) \<Rightarrow> nat \<Rightarrow>
     (vmess_aead_reader \<Rightarrow> reader \<Rightarrow> (vmess_aead_reader \<times> reader) dr_step) \<Rightarrow>
     vmess_aead_reader \<Rightarrow> reader \<Rightarrow> (vmess_aead_reader \<times> reader) dr_step" where
  "vr_await chunk len rest t r =
     (case read_at_least chunk r len (vr_buffer t) (vr_read_zero t) of
        (p, r, buf, rz) \<Rightarrow>
          (let t = t\<lparr>vr_buffer := buf, vr_read_zero := rz\<rparr> in
           case p of
             Pending \<Rightarrow> DrYield Pending [] (t, r)
           | Ready (Ok u) \<Rightarrow> rest (t\<lparr>vr_read_res := p\<rparr>) r
           | Ready (Err e) \<Rightarrow>
               if rz then DrYield (Ready (Ok ())) [] (t\<lparr>vr_read_res := p, vr_state := VrDone\<rparr>, r)
               else DrYield p [] (t\<lparr>vr_read_res := Pending, vr_state := VrDone\<rparr>, r)
           | Ready Panic \<Rightarrow> DrYield (Ready Panic) [] (t, r)))"

definition vr_length :: "vmess_aead_reader \<Rightarrow> reader \<Rightarrow> (vmess_aead_reader \<times> reader) dr_step" where
  "vr_length t r =
     (case get_u16 (vr_buffer t) of
        Ok (n, b) \<Rightarrow>
          (let t = t\<lparr>vr_buffer := b, vr_data_length := unat n\<rparr> in
           if unat n > MAX_SIZE then
             DrYield (Ready (Err (IoError InvalidData ''buffer size too large!''))) []
               (t\<lparr>vr_state := VrDone\<rparr>, r)
           else DrStep (t\<lparr>vr_state := VrPayload\<rparr>, r))
      | _ \<Rightarrow> DrYield (Ready Panic) [] (t, r))"

definition vr_payload ::
  "aead_lib \<Rightarrow> bool \<Rightarrow> vmess_aead_reader \<Rightarrow> reader \<Rightarrow> (vmess_aead_reader \<times> reader) dr_step" where
  "vr_payload lib checks t r =
     (case bind_res (construct_nonce (vr_nonce t) (vr_count t) (vr_iv t))
             (\<lambda>nonce. vmess_decrypted_data lib (t\<lparr>vr_nonce := nonce\<rparr>)) of
        Ok (ok, t) \<Rightarrow>
          (if \<not> ok then
             DrYield (Ready (Err (IoError Other ''invalid aead tag''))) [] (t\<lparr>vr_state := VrDone\<rparr>, r)
           else case u16_inc checks (vr_count t) of
                  Ok count \<Rightarrow>
                    DrStep (t\<lparr>vr_count := count, vr_data_length := vr_data_length t - 16,
                              vr_state := VrPut\<rparr>, r)
                | _ \<Rightarrow> DrYield (Ready Panic) [] (t, r))
      | Err e \<Rightarrow> DrYield (Ready (Err e)) [] (t, r)
      | Panic \<Rightarrow> DrYield (Ready Panic) [] (t, r))"

definition vr_put ::
  "nat \<Rightarrow> vmess_aead_reader \<Rightarrow> reader \<Rightarrow> (vmess_aead_reader \<times> reader) dr_step" where
  "vr_put remaining t r =
     (let m = calc_data_to_put (vr_data_length t) remaining;
          t = t\<lparr>vr_minimal_data_to_put := m\<rparr>
      in if length (vr_buffer t) < m then DrYield (Ready Panic) [] (t, r)
         else if m \<noteq> 0 then
           DrYield (Ready (Ok ())) (take m (vr_buffer t))
             (t\<lparr>vr_data_length := vr_data_length t - m, vr_buffer := drop m (vr_buffer t),
                vr_state := VrPut\<rparr>, r)
         else case advance 16 (vr_buffer t) of
                Ok b \<Rightarrow> DrStep (t\<lparr>vr_buffer := b, vr_state := VrLength\<rparr>, r)
              | _ \<Rightarrow> DrYield (Ready Panic) [] (t, r))"

definition vr_step ::
  "aead_lib \<Rightarrow> bool \<Rightarrow> (bytes \<Rightarrow> nat) \<Rightarrow> nat \<Rightarrow> vmess_aead_reader \<times> reader \<Rightarrow>
     (vmess_aead_reader \<times> reader) dr_step" where
  "vr_step lib checks chunk remaining s =
     (case s of (t, r) \<Rightarrow>
        (case vr_state t of
           VrLength \<Rightarrow> vr_await chunk 2 vr_length t r
         | VrPayload \<Rightarrow> vr_await chunk (vr_data_length t) (vr_payload lib checks) t r
         | VrPut \<Rightarrow> vr_put remaining t r
         | VrDone \<Rightarrow> DrYield (Ready (Err (IoError UnexpectedEof ''''))) [] (t, r)))"

fun vr_rank :: "vmess_reader_pc \<Rightarrow> nat" where
  "vr_rank VrPayload = 2"
| "vr_rank VrPut = 1"
| "vr_rank VrLength = 0"
| "vr_rank VrDone = 0"

definition vr_weight :: "vmess_aead_reader \<times> reader \<Rightarrow> nat" where
  "vr_weight s = length (vr_buffer (fst s)) + rx_size (snd s)"

definition vr_rel :: "((vmess_aead_reader \<times> reader) \<times> (vmess_aead_reader \<times> reader)) set" where
  "vr_rel = inv_image (less_than <*lex*> less_than) (\<lambda>s. (vr_weight s, vr_rank (vr_state (fst s))))"

lemma wf_vr_rel: "wf vr_rel"
  unfolding vr_rel_def by (intro wf_inv_image wf_lex_prod wf_less_than)

lemma length_vmess_decrypted_data:
  "vmess_decrypted_data lib t = Ok (ok, t') \<Longrightarrow>
     length (vr_buffer t') = length (vr_buffer t) \<and> 16 \<le> vr_data_length t"
  by (auto simp: vmess_decrypted_data_def decrypt_inplace_with_slice_def Let_def res_simps
      split: if_splits prod.splits)

lemma vr_await_Step:
  assumes "vr_await chunk n rest t r = DrStep s"
  shows "\<exists>t' r'. rest t' r' = DrStep s \<and> vr_weight (t', r') \<le> vr_weight (t, r) \<and>
    vr_state t' = vr_state t"
proof -
  obtain p r' b z where q: "read_at_least chunk r n (vr_buffer t) (vr_read_zero t) = (p, r', b, z)"
    by (cases "read_at_least chunk r n (vr_buffer t) (vr_read_zero t)")
  have "length b + rx_size r' \<le> length (vr_buffer t) + rx_size r" using read_at_least_size [OF q] .
  moreover have "rest (t\<lparr>vr_buffer := b, vr_read_zero := z, vr_read_res := p\<rparr>) r' = DrStep s"
    using assms q by (auto simp: vr_await_def Let_def split: poll.splits res.splits if_splits)
  ultimately show ?thesis by (force simp: vr_weight_def)
qed

lemma vr_length_Step: "vr_length t r = DrStep s \<Longrightarrow> vr_weight s < vr_weight (t, r)"
  by (auto simp: vr_length_def vr_weight_def Let_def get_u16_def copy_to_slice_def res_simps
      split: res.splits if_splits prod.splits)

lemma vr_payload_Step:
  "vr_payload lib checks t r = DrStep s \<Longrightarrow> vr_weight s = vr_weight (t, r) \<and> vr_state (fst s) = VrPut"
  by (auto simp: vr_payload_def construct_nonce_def vr_weight_def res_simps
      dest!: length_vmess_decrypted_data split: res.splits prod.splits if_splits)

lemma vr_put_Step:
  "vr_put remaining t r = DrStep s \<Longrightarrow> vr_weight s \<le> vr_weight (t, r) \<and> vr_state (fst s) = VrLength"
  by (auto simp: vr_put_def Let_def vr_weight_def advance_def split: if_splits)

lemma vr_step_decreases:
  assumes "vr_step lib checks chunk remaining s = DrStep s'"
  shows "(s', s) \<in> vr_rel"
proof -
  obtain t r where s: "s = (t, r)" by (cases s)
  show ?thesis
  proof (cases "vr_state t")
    case VrLength
    with assms s have "vr_await chunk 2 vr_length t r = DrStep s'" by (simp add: vr_step_def)
    from vr_await_Step [OF this] s show ?thesis by (auto simp: vr_rel_def dest!: vr_length_Step)
  next
    case VrPayload
    with assms s have "vr_await chunk (vr_data_length t) (vr_payload lib checks) t r = DrStep s'"
      by (simp add: vr_step_def)
    from vr_await_Step [OF this] VrPayload s show ?thesis
      by (auto simp: vr_rel_def dest!: vr_payload_Step)
  next
    case VrPut
    with assms s vr_put_Step [of remaining t r s'] show ?thesis
      by (auto simp: vr_step_def vr_rel_def)
  next
    case VrDone
    with assms s show ?thesis by (simp add: vr_step_def)
  qed
qed

function vmess_poll_read_decrypted ::
  "aead_lib \<Rightarrow> bool \<Rightarrow> (bytes \<Rightarrow> nat) \<Rightarrow> nat \<Rightarrow> vmess_aead_reader \<times> reader \<Rightarrow>
     (unit poll \<times> bytes) \<times> vmess_aead_reader \<times> reader" where
  "vmess_poll_read_decrypted lib checks chunk remaining s =
     (case vr_step lib checks chunk remaining s of
        DrYield p bs s' \<Rightarrow> ((p, bs), s')
      | DrStep s' \<Rightarrow> vmess_poll_read_decrypted lib checks chunk remaining s')"
  by pat_completeness auto
termination
  by (relation "inv_image vr_rel (\<lambda>(lib, checks, chunk, remaining, s). s)")
    (auto simp: wf_vr_rel dest: vr_step_decreases)

declare vmess_poll_read_decrypted.simps [simp del]

section \<open>The chunks of a direction\<close>

definition vmess_nonce :: "bytes \<Rightarrow> u16 \<Rightarrow> bytes" where
  "vmess_nonce iv count = put_u16 count @ take 10 (drop 2 iv)"

definition vs_sealed :: "aead_lib \<Rightarrow> vmess_security \<Rightarrow> bytes \<Rightarrow> bytes \<Rightarrow> bytes" where
  "vs_sealed lib sec nonce m =
     (case seal lib (vs_kind sec) (vs_key sec) nonce [] m of Some (c, t) \<Rightarrow> c @ t | None \<Rightarrow> [])"

definition vmess_chunk :: "aead_lib \<Rightarrow> vmess_security \<Rightarrow> bytes \<Rightarrow> nat \<Rightarrow> bytes \<Rightarrow> bytes" where
  "vmess_chunk lib sec iv i m =
     to_be 2 (length m + 16) @ vs_sealed lib sec (vmess_nonce iv (of_nat i)) m"

definition vmess_chunks :: "aead_lib \<Rightarrow> vmess_security \<Rightarrow> bytes \<Rightarrow> nat \<Rightarrow> bytes list \<Rightarrow> bytes" where
  "vmess_chunks lib sec iv = enc_all (vmess_chunk lib sec iv) (\<lambda>i m. i + 1)"

lemma vmess_chunks_simps [simp]:
  "vmess_chunks lib sec iv i [] = []"
  "vmess_chunks lib sec iv i (m # ms) = vmess_chunk lib sec iv i m @ vmess_chunks lib sec iv (i + 1) ms"
  by (simp_all add: vmess_chunks_def)

text \<open>
  The largest data a chunk of the writer carries, which is below what the reader takes, and the
  bound on the number of chunks with overflow checks.
\<close>

definition vmess_max :: nat where "vmess_max = 16368"

lemma vmess_max_limits:
  "length m \<le> vmess_max \<Longrightarrow> length m + 16 \<le> MAX_SIZE \<and> length m + 16 < 65536 \<and> length m < 2 ^ 32"
  by (simp add: vmess_max_def MAX_SIZE_def)

lemma vmess_max_chunk: "vmess_max = CHUNK_SIZE - vs_overhead_len sec"
  by (simp add: vmess_max_def CHUNK_SIZE_def vs_overhead_len_def)

definition count_room :: "bool \<Rightarrow> nat \<Rightarrow> nat \<Rightarrow> bool" where
  "count_room checks i n \<longleftrightarrow> (checks \<longrightarrow> i + n < 65536)"

lemma u16_inc_of_nat:
  assumes "count_room checks i 1"
  shows "u16_inc checks (of_nat i) = Ok (of_nat (i + 1))"
proof -
  have "(of_nat i :: u16) \<noteq> - 1" if checks
  proof
    assume "(of_nat i :: u16) = - 1"
    then have "unat (of_nat i :: u16) = unat (- 1 :: u16)" by simp
    moreover have "i < 65535" using assms that by (simp add: count_room_def)
    ultimately show False by (simp add: unat_of_nat unsigned_minus_1_eq_mask mask_eq_exp_minus_1)
  qed
  then show ?thesis by (simp add: u16_inc_def add.commute)
qed

lemma construct_nonce_take:
  assumes "length nonce = 32" "12 \<le> length iv"
  shows "\<exists>nonce'. construct_nonce nonce c iv = Ok nonce' \<and> length nonce' = 32 \<and>
    take 12 nonce' = vmess_nonce iv c"
  using assms by (simp add: construct_nonce_def copy_at_def vmess_nonce_def put_u16_def)

lemma vs_open:
  assumes "aead_ok lib" "length m < 2 ^ 32"
  shows "length (vs_sealed lib sec nonce m) = length m + 16"
    "length pad = 16 \<Longrightarrow>
       encrypt_inplace_with_slice lib (vs_kind sec) (vs_key sec) nonce [] (m @ pad) =
         Ok (vs_sealed lib sec nonce m)"
    "\<exists>t. length t = 16 \<and>
       decrypt_inplace_with_slice lib (vs_kind sec) (vs_key sec) nonce [] (vs_sealed lib sec nonce m) =
         Ok (True, m @ t)"
proof -
  from assms obtain c t where
    "seal lib (vs_kind sec) (vs_key sec) nonce [] m = Some (c, t)" "length c = length m"
    "length t = 16" "unseal lib (vs_kind sec) (vs_key sec) nonce [] c t = (True, m)"
    unfolding aead_ok_def by metis
  then show "length (vs_sealed lib sec nonce m) = length m + 16"
    "length pad = 16 \<Longrightarrow>
       encrypt_inplace_with_slice lib (vs_kind sec) (vs_key sec) nonce [] (m @ pad) =
         Ok (vs_sealed lib sec nonce m)"
    "\<exists>t. length t = 16 \<and>
       decrypt_inplace_with_slice lib (vs_kind sec) (vs_key sec) nonce [] (vs_sealed lib sec nonce m) =
         Ok (True, m @ t)"
    by (simp_all add: vs_sealed_def encrypt_inplace_with_slice_def decrypt_inplace_with_slice_def)
qed

section \<open>Reading chunks back\<close>

text \<open>
  At every suspension point, buffer and stream hold the rest of the chunks of the messages \<open>ms\<close>
  still to be opened, after \<open>rem\<close>, the opened bytes that wait for room.
\<close>

definition vr_at ::
  "aead_lib \<Rightarrow> bool \<Rightarrow> vmess_security \<Rightarrow> bytes \<Rightarrow> bytes \<Rightarrow> nat \<Rightarrow> bytes list \<Rightarrow>
     vmess_aead_reader \<times> reader \<Rightarrow> bool" where
  "vr_at lib checks sec iv rem i ms s \<longleftrightarrow>
     clean (snd s) \<and> \<not> vr_read_zero (fst s) \<and> vr_security (fst s) = sec \<and> vr_iv (fst s) = iv \<and>
     12 \<le> length iv \<and> length (vr_nonce (fst s)) = 32 \<and> vr_count (fst s) = of_nat i \<and>
     count_room checks i (length ms) \<and> (\<forall>m \<in> set ms. length m \<le> vmess_max) \<and>
     (let t = fst s; content = vr_buffer t @ rx_bytes (snd s) in
      case vr_state t of
        VrLength \<Rightarrow> rem = [] \<and> content = vmess_chunks lib sec iv i ms
      | VrPayload \<Rightarrow> rem = [] \<and> ms \<noteq> [] \<and> vr_data_length t = length (hd ms) + 16 \<and>
          content = vs_sealed lib sec (vmess_nonce iv (of_nat i)) (hd ms) @
            vmess_chunks lib sec iv (i + 1) (tl ms)
      | VrPut \<Rightarrow> vr_data_length t = length rem \<and>
          (\<exists>tag b. length tag = 16 \<and> vr_buffer t = rem @ tag @ b \<and>
             b @ rx_bytes (snd s) = vmess_chunks lib sec iv i ms)
      | VrDone \<Rightarrow> False)"

definition vr_source ::
  "aead_lib \<Rightarrow> bool \<Rightarrow> vmess_security \<Rightarrow> bytes \<Rightarrow> bytes \<Rightarrow> vmess_aead_reader \<times> reader \<Rightarrow> bool" where
  "vr_source lib checks sec iv bs s \<longleftrightarrow>
     aead_ok lib \<and> (\<exists>rem i ms. vr_at lib checks sec iv rem i ms s \<and> bs = rem @ concat ms)"

abbreviation vr_advances ::
  "aead_lib \<Rightarrow> bool \<Rightarrow> vmess_security \<Rightarrow> bytes \<Rightarrow> nat \<Rightarrow> bytes \<Rightarrow> vmess_aead_reader \<times> reader \<Rightarrow>
     (vmess_aead_reader \<times> reader) dr_step \<Rightarrow> bool" where
  "vr_advances lib checks sec iv \<equiv> advances (vr_source lib checks sec iv) (\<lambda>s. rx_size (snd s))"

lemma vr_sourceI:
  "aead_ok lib \<Longrightarrow> vr_at lib checks sec iv rem i ms s \<Longrightarrow> bs = rem @ concat ms \<Longrightarrow>
     vr_source lib checks sec iv bs s"
  by (auto simp: vr_source_def)

lemma vr_length_chunk:
  assumes m: "length m \<le> vmess_max" and t: "2 \<le> length (vr_buffer t)"
    and e: "vr_buffer t @ s = vmess_chunk lib sec iv i m @ z"
  shows "\<exists>b. vr_length t r =
      DrStep (t\<lparr>vr_buffer := b, vr_data_length := length m + 16, vr_state := VrPayload\<rparr>, r) \<and>
    b @ s = vs_sealed lib sec (vmess_nonce iv (of_nat i)) m @ z"
proof -
  have "vr_buffer t @ s = to_be 2 (length m + 16) @ (vs_sealed lib sec (vmess_nonce iv (of_nat i)) m @ z)"
    using e by (simp add: vmess_chunk_def)
  from buffer_prefix [OF this] t obtain b where
    b: "vr_buffer t = to_be 2 (length m + 16) @ b" "b @ s = vs_sealed lib sec (vmess_nonce iv (of_nat i)) m @ z"
    by auto
  have u: "unat (of_nat (length m + 16) :: u16) = length m + 16"
    using vmess_max_limits [OF m] by (simp only: unat_of_nat) simp
  then have "put_u16 (of_nat (length m + 16)) = to_be 2 (length m + 16)" by (simp only: put_u16_def)
  then have "get_u16 (vr_buffer t) = Ok (of_nat (length m + 16), b)"
    using b(1) get_u16_put_u16 by metis
  with u b(2) vmess_max_limits [OF m] show ?thesis
    by (intro exI [of _ b]) (simp add: vr_length_def Let_def del: of_nat_add)
qed

lemma vr_step_length:
  assumes ok: "aead_ok lib" and ch: "chunky chunk"
    and src: "vr_at lib checks sec iv rem i ms (t, r)" and st: "vr_state t = VrLength"
  shows "vr_advances lib checks sec iv n (rem @ concat ms) (t, r) (vr_step lib checks chunk n (t, r))"
proof -
  have c: "clean r" "\<not> vr_read_zero t" "rem = []"
    and content: "vr_buffer t @ rx_bytes r = vmess_chunks lib sec iv i ms"
    using src st by (auto simp: vr_at_def)
  have um: "2 \<le> usize_max" by (simp add: usize_max_def)
  have step: "vr_step lib checks chunk n (t, r) = vr_await chunk 2 vr_length t r"
    using st by (simp add: vr_step_def)
  show ?thesis
  proof (cases ms)
    case Nil
    then have "length (vr_buffer t @ rx_bytes r) < 2" using content by simp
    from ch c(1) this um show ?thesis
    proof (cases rule: read_at_least_await_eof [where rz = "vr_read_zero t"])
      case (1 r' b)
      have "vr_at lib checks sec iv rem i ms (t\<lparr>vr_buffer := b, vr_read_zero := False\<rparr>, r')"
        using src st 1 content by (simp add: vr_at_def)
      from vr_sourceI [OF ok this refl] 1 c(2) show ?thesis
        by (simp add: advances_def step vr_await_def yields_def)
    next
      case (2 r' b)
      with Nil c(3) show ?thesis by (simp add: advances_def step vr_await_def yields_def)
    qed
  next
    case (Cons m ms')
    have m: "length m \<le> vmess_max" using src Cons by (simp add: vr_at_def)
    have "2 \<le> length (vmess_chunks lib sec iv i ms)" using Cons by (simp add: vmess_chunk_def)
    then have "2 \<le> length (vr_buffer t @ rx_bytes r)" by (simp only: content)
    from read_at_least_await [OF ch c(1) this um, of "vr_read_zero t"] obtain p r' b where
      q: "read_at_least chunk r 2 (vr_buffer t) (vr_read_zero t) = (p, r', b, vr_read_zero t)"
        "b @ rx_bytes r' = vmess_chunks lib sec iv i ms" "clean r'" "rx_size r' \<le> rx_size r"
        "p = Pending \<and> rx_size r' < rx_size r \<or> p = Ready (Ok ()) \<and> 2 \<le> length b"
      using content by metis
    from q(5) show ?thesis
    proof (elim disjE conjE)
      assume p: "p = Pending" "rx_size r' < rx_size r"
      have "vr_at lib checks sec iv rem i ms (t\<lparr>vr_buffer := b, vr_read_zero := False\<rparr>, r')"
        using src st q by (simp add: vr_at_def)
      from vr_sourceI [OF ok this refl] p q(1) c(2) show ?thesis
        by (simp add: advances_def step vr_await_def yields_def)
    next
      assume p: "p = Ready (Ok ())" "2 \<le> length b"
      let ?t = "t\<lparr>vr_buffer := b, vr_read_zero := vr_read_zero t, vr_read_res := p\<rparr>"
      have "vr_buffer ?t @ rx_bytes r' = vmess_chunk lib sec iv i m @ vmess_chunks lib sec iv (i + 1) ms'"
        using q(2) Cons by simp
      from vr_length_chunk [OF m _ this, where r = r'] p(2) obtain b' where
        b': "vr_length ?t r' =
          DrStep (?t\<lparr>vr_buffer := b', vr_data_length := length m + 16, vr_state := VrPayload\<rparr>, r')"
          "b' @ rx_bytes r' = vs_sealed lib sec (vmess_nonce iv (of_nat i)) m @ vmess_chunks lib sec iv (i + 1) ms'"
        by auto
      let ?s = "(?t\<lparr>vr_buffer := b', vr_data_length := length m + 16, vr_state := VrPayload\<rparr>, r')"
      have "vr_at lib checks sec iv [] i ms ?s" using src Cons q b' c by (simp add: vr_at_def)
      from vr_sourceI [OF ok this, of "concat ms"] b'(1) q(1,4) p(1) c(3) show ?thesis
        by (simp add: advances_def step vr_await_def)
    qed
  qed
qed

lemma vr_payload_open:
  assumes ok: "aead_ok lib" and m: "length m \<le> vmess_max" and room: "count_room checks i 1"
    and t: "vr_security t = sec" "vr_iv t = iv" "12 \<le> length iv" "length (vr_nonce t) = 32"
      "vr_count t = of_nat i" "vr_data_length t = length m + 16"
      "vr_buffer t = vs_sealed lib sec (vmess_nonce iv (of_nat i)) m @ b"
  shows "\<exists>nonce g. length nonce = 32 \<and> length g = 16 \<and> vr_payload lib checks t r =
    DrStep (t\<lparr>vr_nonce := nonce, vr_buffer := m @ g @ b, vr_count := of_nat (i + 1),
              vr_data_length := length m, vr_state := VrPut\<rparr>, r)"
proof -
  have l: "length m < 2 ^ 32" using vmess_max_limits [OF m] by simp
  obtain nonce where n: "construct_nonce (vr_nonce t) (of_nat i) iv = Ok nonce" "length nonce = 32"
    "take 12 nonce = vmess_nonce iv (of_nat i)" using construct_nonce_take t(3,4) by blast
  obtain g where g: "length g = 16"
    "decrypt_inplace_with_slice lib (vs_kind sec) (vs_key sec) (vmess_nonce iv (of_nat i)) []
       (vs_sealed lib sec (vmess_nonce iv (of_nat i)) m) = Ok (True, m @ g)"
    using vs_open(3) [OF ok l] by blast
  have "vmess_decrypted_data lib (t\<lparr>vr_nonce := nonce\<rparr>) =
      Ok (True, t\<lparr>vr_nonce := nonce, vr_buffer := m @ g @ b\<rparr>)"
    using g n t vs_open(1) [OF ok l] by (simp add: vmess_decrypted_data_def vs_nonce_len_def Let_def)
  with g n t u16_inc_of_nat [OF room] show ?thesis
    by (intro exI [of _ nonce] exI [of _ g]) (simp add: vr_payload_def)
qed

lemma vr_step_payload:
  assumes ok: "aead_ok lib" and ch: "chunky chunk"
    and src: "vr_at lib checks sec iv rem i ms (t, r)" and st: "vr_state t = VrPayload"
  shows "vr_advances lib checks sec iv n (rem @ concat ms) (t, r) (vr_step lib checks chunk n (t, r))"
proof -
  obtain m ms' where ms: "ms = m # ms'" using src st by (cases ms) (auto simp: vr_at_def)
  let ?n = "length m + 16"
  let ?wire = "vs_sealed lib sec (vmess_nonce iv (of_nat i)) m @ vmess_chunks lib sec iv (i + 1) ms'"
  have c: "clean r" "\<not> vr_read_zero t" "rem = []" "vr_data_length t = ?n" "length m \<le> vmess_max"
      "count_room checks i 1" "count_room checks (i + 1) (length ms')"
    and content: "vr_buffer t @ rx_bytes r = ?wire"
    using src st ms by (auto simp: vr_at_def count_room_def)
  note lim = vmess_max_limits [OF c(5)]
  have um: "?n \<le> usize_max" using lim by (simp add: usize_max_def)
  have ls: "length (vs_sealed lib sec (vmess_nonce iv (of_nat i)) m) = ?n" using vs_open(1) [OF ok] lim by simp
  have step: "vr_step lib checks chunk n (t, r) = vr_await chunk ?n (vr_payload lib checks) t r"
    using st c by (simp add: vr_step_def)
  have "?n \<le> length (vr_buffer t @ rx_bytes r)" by (simp only: content) (simp add: ls)
  from read_at_least_await [OF ch c(1) this um, of "vr_read_zero t"] obtain p r' b where
    q: "read_at_least chunk r ?n (vr_buffer t) (vr_read_zero t) = (p, r', b, vr_read_zero t)"
      "b @ rx_bytes r' = ?wire" "clean r'" "rx_size r' \<le> rx_size r"
      "p = Pending \<and> rx_size r' < rx_size r \<or> p = Ready (Ok ()) \<and> ?n \<le> length b"
    using content by metis
  from q(5) show ?thesis
  proof (elim disjE conjE)
    assume p: "p = Pending" "rx_size r' < rx_size r"
    have "vr_at lib checks sec iv rem i ms (t\<lparr>vr_buffer := b, vr_read_zero := False\<rparr>, r')"
      using src st q ms by (simp add: vr_at_def)
    from vr_sourceI [OF ok this refl] p q(1) c(2) show ?thesis
      by (simp add: advances_def step vr_await_def yields_def)
  next
    assume p: "p = Ready (Ok ())" "?n \<le> length b"
    let ?t = "t\<lparr>vr_buffer := b, vr_read_zero := vr_read_zero t, vr_read_res := p\<rparr>"
    from buffer_prefix [OF q(2)] p(2) ls obtain b' where
      b': "b = vs_sealed lib sec (vmess_nonce iv (of_nat i)) m @ b'"
        "b' @ rx_bytes r' = vmess_chunks lib sec iv (i + 1) ms'" by auto
    from vr_payload_open [OF ok c(5,6), of ?t sec iv b' r'] src c b'(1) obtain nonce g where
      g: "length nonce = 32" "length g = 16" "vr_payload lib checks ?t r' =
        DrStep (?t\<lparr>vr_nonce := nonce, vr_buffer := m @ g @ b', vr_count := of_nat (i + 1),
              vr_data_length := length m, vr_state := VrPut\<rparr>, r')"
      by (auto simp: vr_at_def)
    let ?s = "(?t\<lparr>vr_nonce := nonce, vr_buffer := m @ g @ b', vr_count := of_nat (i + 1),
              vr_data_length := length m, vr_state := VrPut\<rparr>, r')"
    have "vr_at lib checks sec iv m (i + 1) ms' ?s"
      using src ms q(3) b'(2) c g(1,2)
      by (simp add: vr_at_def) (intro exI [of _ g] conjI exI [of _ b'], simp_all)
    from vr_sourceI [OF ok this, of "m @ concat ms'"] g(3) q(1,4) p(1) c(3) ms show ?thesis
      by (simp add: advances_def step vr_await_def)
  qed
qed

lemma vr_step_put:
  assumes ok: "aead_ok lib" and n: "0 < n"
    and src: "vr_at lib checks sec iv rem i ms (t, r)" and st: "vr_state t = VrPut"
  shows "vr_advances lib checks sec iv n (rem @ concat ms) (t, r) (vr_step lib checks chunk n (t, r))"
proof -
  obtain tag b where b: "length tag = 16" "vr_buffer t = rem @ tag @ b"
    "b @ rx_bytes r = vmess_chunks lib sec iv i ms" and len: "vr_data_length t = length rem"
    using src st by (auto simp: vr_at_def)
  show ?thesis
  proof (cases "rem = []")
    case True
    let ?s = "(t\<lparr>vr_minimal_data_to_put := 0, vr_buffer := b, vr_state := VrLength\<rparr>, r)"
    have "vr_step lib checks chunk n (t, r) = DrStep ?s"
      using st b len True by (simp add: vr_step_def vr_put_def calc_data_to_put_def advance_def)
    moreover have "vr_at lib checks sec iv [] i ms ?s" using src st b by (simp add: vr_at_def)
    ultimately show ?thesis
      using vr_sourceI [OF ok, of checks sec iv "[]" i ms ?s] True by (simp add: advances_def)
  next
    case False
    let ?m = "min (length rem) n"
    let ?s = "(t\<lparr>vr_minimal_data_to_put := ?m, vr_data_length := length rem - ?m,
        vr_buffer := drop ?m rem @ tag @ b, vr_state := VrPut\<rparr>, r)"
    have m: "?m \<noteq> 0" using False n by simp
    then have "vr_step lib checks chunk n (t, r) = DrYield (Ready (Ok ())) (take ?m rem) ?s"
      using st b(2) len by (simp add: vr_step_def vr_put_def calc_data_to_put_def Let_def)
    moreover have "vr_at lib checks sec iv (drop ?m rem) i ms ?s"
      using src st b by (auto simp: vr_at_def Let_def)
    ultimately have st: "vr_step lib checks chunk n (t, r) = DrYield (Ready (Ok ())) (take ?m rem) ?s"
      and src: "vr_source lib checks sec iv (drop ?m rem @ concat ms) ?s"
      using vr_sourceI [OF ok] by auto
    have split: "rem @ concat ms = take ?m rem @ (drop ?m rem @ concat ms)" by simp
    have "take ?m rem \<noteq> []" "length (take ?m rem) \<le> n" using m by auto
    with src split show ?thesis
      unfolding st advances_def yields_def by (simp only: dr_step.case) auto
  qed
qed

lemma vr_step_source:
  assumes "vr_source lib checks sec iv bs s" "chunky chunk" "0 < n"
  shows "vr_advances lib checks sec iv n bs s (vr_step lib checks chunk n s)"
proof -
  obtain rem i ms where a: "aead_ok lib" "vr_at lib checks sec iv rem i ms s" "bs = rem @ concat ms"
    using assms(1) by (auto simp: vr_source_def)
  obtain t r where s: "s = (t, r)" by (cases s)
  note at = a(2) [unfolded s]
  show ?thesis
  proof (cases "vr_state t")
    case VrLength
    from vr_step_length [OF a(1) assms(2) at this] a(3) s show ?thesis by simp
  next
    case VrPayload
    from vr_step_payload [OF a(1) assms(2) at this] a(3) s show ?thesis by simp
  next
    case VrPut
    from vr_step_put [OF a(1) assms(3) at this] a(3) s show ?thesis by simp
  next
    case VrDone
    with at show ?thesis by (simp add: vr_at_def)
  qed
qed

interpretation vmess_in: stepped_source
  "vr_step lib checks chunk" "vmess_poll_read_decrypted lib checks chunk"
  "\<lambda>bs s. chunky chunk \<and> vr_source lib checks sec iv bs s" "\<lambda>s. rx_size (snd s)" vr_rel
  for lib checks chunk sec iv
proof (unfold_locales, goal_cases)
  case 1
  show ?case by (rule wf_vr_rel)
next
  case 2
  then show ?case by (rule vr_step_decreases)
next
  case 3
  then show ?case by (rule vmess_poll_read_decrypted.simps)
next
  case (4 bs s n)
  then show ?case
    using vr_step_source [of lib checks sec iv bs s chunk n]
    by (auto simp: advances_def yields_def split: dr_step.splits)
qed

section \<open>Writing chunks\<close>

definition vw_idle ::
  "aead_lib \<Rightarrow> vmess_security \<Rightarrow> bytes \<Rightarrow> nat \<Rightarrow> vmess_aead_writer \<times> writer \<Rightarrow> bool" where
  "vw_idle lib sec iv i s \<longleftrightarrow>
     aead_ok lib \<and> writer_live (snd s) \<and> vw_security (fst s) = sec \<and> vw_iv (fst s) = iv \<and>
     12 \<le> length iv \<and> length (vw_nonce (fst s)) = 32 \<and> vw_state (fst s) = VwStart \<and>
     vw_buffer (fst s) = [] \<and> vw_count (fst s) = of_nat i"

definition vw_busy ::
  "aead_lib \<Rightarrow> vmess_security \<Rightarrow> bytes \<Rightarrow> nat \<Rightarrow> bytes \<Rightarrow> nat \<Rightarrow> vmess_aead_writer \<times> writer \<Rightarrow> bool" where
  "vw_busy lib sec iv i m n s \<longleftrightarrow>
     vw_idle lib sec iv i s \<and> n = 0 \<or>
     aead_ok lib \<and> writer_live (snd s) \<and> vw_security (fst s) = sec \<and> vw_iv (fst s) = iv \<and>
     12 \<le> length iv \<and> length (vw_nonce (fst s)) = 32 \<and> vw_state (fst s) = VwWrite \<and>
     vw_buffer (fst s) = vmess_chunk lib sec iv i m \<and> vw_pos (fst s) = n \<and>
     n \<le> length (vw_buffer (fst s)) \<and> vw_data_len (fst s) = length m \<and>
     vw_count (fst s) = of_nat (i + 1)"

definition vw_sends ::
  "aead_lib \<Rightarrow> vmess_security \<Rightarrow> bytes \<Rightarrow> nat \<Rightarrow> bytes \<Rightarrow> nat \<Rightarrow> vmess_aead_writer \<times> writer \<Rightarrow>
     nat poll \<Rightarrow> vmess_aead_writer \<times> writer \<Rightarrow> bool" where
  "vw_sends lib sec iv i m n s out s' \<longleftrightarrow>
     (\<exists>n'. out = Pending \<and> n \<le> n' \<and> vw_busy lib sec iv i m n' s' \<and>
        length (wr_script (snd s')) < length (wr_script (snd s)) \<and>
        wr_sent (snd s') = wr_sent (snd s) @ take (n' - n) (drop n (vmess_chunk lib sec iv i m))) \<or>
     out = Ready (Ok (length m)) \<and> vw_idle lib sec iv (i + 1) s' \<and>
     wr_sent (snd s') = wr_sent (snd s) @ drop n (vmess_chunk lib sec iv i m)"

definition vmess_sendable :: "bool \<Rightarrow> nat \<Rightarrow> bytes \<Rightarrow> bool" where
  "vmess_sendable checks i m \<longleftrightarrow> m \<noteq> [] \<and> length m \<le> vmess_max \<and> count_room checks i 1"

lemma vmess_encrypted_buffer_chunk:
  assumes "vw_idle lib sec iv i (v, w)" "vmess_sendable checks i m"
  shows "\<exists>nonce. length nonce = 32 \<and> vmess_encrypted_buffer lib checks m v =
    Ok (v\<lparr>vw_data_len := length m, vw_buffer := vmess_chunk lib sec iv i m, vw_nonce := nonce,
          vw_count := of_nat (i + 1), vw_pos := 0\<rparr>)"
proof -
  have v: "aead_ok lib" "vw_security v = sec" "vw_iv v = iv" "12 \<le> length iv" "length (vw_nonce v) = 32"
    "vw_buffer v = []" "vw_count v = of_nat i"
    and m: "length m \<le> vmess_max" "count_room checks i 1"
    using assms by (simp_all add: vw_idle_def vmess_sendable_def)
  note lim = vmess_max_limits [OF m(1)]
  obtain nonce where n: "construct_nonce (vw_nonce v) (of_nat i) iv = Ok nonce" "length nonce = 32"
    "take 12 nonce = vmess_nonce iv (of_nat i)" using construct_nonce_take v(4,5) by blast
  have u: "unat (of_nat (length m + 16) :: u16) = length m + 16"
    using lim by (simp only: unat_of_nat) simp
  have p: "put_u16 (of_nat (length m + 16)) = to_be 2 (length m + 16)" by (simp only: put_u16_def u)
  have "encrypt_inplace_with_slice lib (vs_kind sec) (vs_key sec) (vmess_nonce iv (of_nat i)) []
      (m @ replicate 16 0) = Ok (vs_sealed lib sec (vmess_nonce iv (of_nat i)) m)"
    using vs_open(2) [OF v(1)] lim by simp
  with v n p u16_inc_of_nat [OF m(2)] show ?thesis
    by (intro exI [of _ nonce])
      (simp add: vmess_encrypted_buffer_def vs_nonce_len_def vs_tag_len_def vmess_chunk_def Let_def
        del: of_nat_add)
qed

lemma vw_flush_out_sends:
  assumes b: "vw_busy lib sec iv i m n (v, w)" "vw_state v = VwWrite"
    and r: "vw_flush_out (v, w) = (out, s')"
  shows "vw_sends lib sec iv i m n (v, w) out s'"
proof -
  have e: "writer_live w" "vw_buffer v = vmess_chunk lib sec iv i m" "vw_pos v = n"
    "vw_pos v \<le> length (vw_buffer v)" "vw_data_len v = length m"
    using b by (auto simp: vw_busy_def vw_idle_def)
  obtain q pos u where q: "write_loop (vw_data_len v) (vw_buffer v) (vw_pos v) w = (q, pos, u)"
    by (cases "write_loop (vw_data_len v) (vw_buffer v) (vw_pos v) w")
  from write_loop_live [OF e(1,4) q] show ?thesis
  proof (elim conjE disjE)
    assume p: "q = Pending" "length (wr_script u) < length (wr_script w)" "writer_live u"
      "vw_pos v \<le> pos" "pos \<le> length (vw_buffer v)"
      "wr_sent u = wr_sent w @ take (pos - vw_pos v) (drop (vw_pos v) (vw_buffer v))"
    then have "out = Pending" "s' = (v\<lparr>vw_pos := pos, vw_state := VwWrite\<rparr>, u)"
      using r q by (simp_all add: vw_flush_out_def vmess_write_data_def)
    with p e b show ?thesis
      by (auto simp: vw_sends_def vw_busy_def vw_idle_def intro!: exI [of _ pos])
  next
    assume p: "q = Ready (Ok (vw_data_len v))" "pos = length (vw_buffer v)" "writer_live u"
      "wr_sent u = wr_sent w @ take (pos - vw_pos v) (drop (vw_pos v) (vw_buffer v))"
    then have "out = q" "s' = (v\<lparr>vw_pos := pos, vw_buffer := [], vw_write_res := Pending, vw_state := VwStart\<rparr>, u)"
      using r q by (simp_all add: vw_flush_out_def vmess_write_data_def)
    with p e b show ?thesis by (auto simp: vw_sends_def vw_busy_def vw_idle_def)
  qed
qed

lemma vw_flush_out_state: "vw_flush_out (v\<lparr>vw_state := x\<rparr>, w) = vw_flush_out (v, w)"
  by (auto simp: vw_flush_out_def vmess_write_data_def split: prod.splits poll.splits res.splits)

lemma vmess_poll_write_encrypted_sends:
  assumes m: "vmess_sendable checks i m" and b: "vw_busy lib sec iv i m n s"
    and r: "vmess_poll_write_encrypted lib checks m s = (out, s')"
  shows "vw_sends lib sec iv i m n s out s'"
proof -
  obtain v w where s: "s = (v, w)" by (cases s)
  show ?thesis
  proof (cases "vw_state v")
    case VwStart
    then have idle: "vw_idle lib sec iv i (v, w)" and n: "n = 0"
      using b s by (auto simp: vw_busy_def)
    from vmess_encrypted_buffer_chunk [OF idle m] obtain nonce where e: "length nonce = 32"
      "vmess_encrypted_buffer lib checks m v =
        Ok (v\<lparr>vw_data_len := length m, vw_buffer := vmess_chunk lib sec iv i m, vw_nonce := nonce,
          vw_count := of_nat (i + 1), vw_pos := 0\<rparr>)" by blast
    let ?v = "v\<lparr>vw_data_len := length m, vw_buffer := vmess_chunk lib sec iv i m, vw_nonce := nonce,
          vw_count := of_nat (i + 1), vw_pos := 0\<rparr>"
    have "min (CHUNK_SIZE - vs_overhead_len (vw_security v)) (length m) = length m" "m \<noteq> []"
      using m vmess_max_chunk by (simp_all add: vmess_sendable_def)
    then have "vw_flush_out (?v\<lparr>vw_state := VwWrite\<rparr>, w) = (out, s')"
      using r VwStart s e(2) unfolding vw_flush_out_state by (simp add: vmess_poll_write_encrypted_def)
    moreover have "vw_busy lib sec iv i m 0 (?v\<lparr>vw_state := VwWrite\<rparr>, w)"
      using idle e(1) by (simp add: vw_busy_def vw_idle_def)
    ultimately have "vw_sends lib sec iv i m 0 (?v\<lparr>vw_state := VwWrite\<rparr>, w) out s'"
      by (rule vw_flush_out_sends [rotated 2]) simp
    then show ?thesis by (simp add: vw_sends_def s n)
  next
    case VwWrite
    with r s b vw_flush_out_sends [of lib sec iv i m n v w out s'] show ?thesis
      by (simp add: vmess_poll_write_encrypted_def)
  next
    case VwDone
    with b s show ?thesis by (simp add: vw_busy_def vw_idle_def)
  qed
qed

interpretation vmess_out: message_sink
  "vmess_poll_write_encrypted lib checks" "vmess_sendable checks" length
  "vmess_chunk lib sec iv" "\<lambda>i m. i + 1"
  "vw_idle lib sec iv" "vw_busy lib sec iv" "\<lambda>s. wr_sent (snd s)" "\<lambda>s. length (wr_script (snd s))"
  for lib checks sec iv
  by unfold_locales
    (simp add: vw_busy_def, drule (1) vmess_poll_write_encrypted_sends, assumption, simp add: vw_sends_def)

text \<open>A sequence of chunks may be sent as long as the count does not wrap, or may wrap.\<close>

lemma all_sendable:
  "\<forall>m \<in> set ms. m \<noteq> [] \<and> length m \<le> vmess_max \<Longrightarrow> count_room checks i (length ms) \<Longrightarrow>
     all_ok (vmess_sendable checks) (\<lambda>i m. i + 1) i ms"
  by (induction ms arbitrary: i) (auto simp: vmess_sendable_def count_room_def)

end
