(* ===== verification/Vmess_Header.thy ===== *)
theory Vmess_Header
  imports Ss_Cipher
begin

text \<open>
  The VMess header layer: the checksum of \<open>src/common/fnv1a.rs\<close>, the nested HMAC key derivation of
  \<open>src/proxy/vmess/kdf.rs\<close>, and the sealed request header and the response header reader of
  \<open>src/proxy/vmess/aead_header.rs\<close>. HMAC-SHA256, AES, CRC-32 and AES-GCM are parameters.
\<close>

section \<open>FNV-1a\<close>

type_synonym fnv1a_hasher = u32

definition fnv1a_default :: fnv1a_hasher where "fnv1a_default = 0x811c9dc5"

definition fnv1a_finish :: "fnv1a_hasher \<Rightarrow> u64" where "fnv1a_finish h = ucast h"

definition fnv1a_write :: "bytes \<Rightarrow> fnv1a_hasher \<Rightarrow> fnv1a_hasher" where
  "fnv1a_write bs h = foldl (\<lambda>hash byte. (hash XOR ucast byte) * 0x01000193) h bs"

lemma fnv1a_write_append: "fnv1a_write (xs @ ys) h = fnv1a_write ys (fnv1a_write xs h)"
  by (simp add: fnv1a_write_def)

section \<open>Key derivation\<close>

definition IPAD :: u8 where "IPAD = 0x36"
definition OPAD :: u8 where "OPAD = 0x5C"
definition BLOCK_LEN :: nat where "BLOCK_LEN = 64"
definition TAG_LEN :: nat where "TAG_LEN = 32"

definition KDF_SALT_CONST_AUTH_ID_ENCRYPTION_KEY :: bytes where
  "KDF_SALT_CONST_AUTH_ID_ENCRYPTION_KEY = as_bytes ''AES Auth ID Encryption''"
definition KDF_SALT_CONST_AEAD_RESP_HEADER_LEN_KEY :: bytes where
  "KDF_SALT_CONST_AEAD_RESP_HEADER_LEN_KEY = as_bytes ''AEAD Resp Header Len Key''"
definition KDF_SALT_CONST_AEAD_RESP_HEADER_LEN_IV :: bytes where
  "KDF_SALT_CONST_AEAD_RESP_HEADER_LEN_IV = as_bytes ''AEAD Resp Header Len IV''"
definition KDF_SALT_CONST_AEAD_RESP_HEADER_PAYLOAD_KEY :: bytes where
  "KDF_SALT_CONST_AEAD_RESP_HEADER_PAYLOAD_KEY = as_bytes ''AEAD Resp Header Key''"
definition KDF_SALT_CONST_AEAD_RESP_HEADER_PAYLOAD_IV :: bytes where
  "KDF_SALT_CONST_AEAD_RESP_HEADER_PAYLOAD_IV = as_bytes ''AEAD Resp Header IV''"
definition KDF_SALT_CONST_VMESS_AEAD_KDF :: bytes where
  "KDF_SALT_CONST_VMESS_AEAD_KDF = as_bytes ''VMess AEAD KDF''"
definition KDF_SALT_CONST_VMESS_HEADER_PAYLOAD_AEAD_KEY :: bytes where
  "KDF_SALT_CONST_VMESS_HEADER_PAYLOAD_AEAD_KEY = as_bytes ''VMess Header AEAD Key''"
definition KDF_SALT_CONST_VMESS_HEADER_PAYLOAD_AEAD_IV :: bytes where
  "KDF_SALT_CONST_VMESS_HEADER_PAYLOAD_AEAD_IV = as_bytes ''VMess Header AEAD Nonce''"
definition KDF_SALT_CONST_VMESS_HEADER_PAYLOAD_LENGTH_AEAD_KEY :: bytes where
  "KDF_SALT_CONST_VMESS_HEADER_PAYLOAD_LENGTH_AEAD_KEY = as_bytes ''VMess Header AEAD Key_Length''"
definition KDF_SALT_CONST_VMESS_HEADER_PAYLOAD_LENGTH_AEAD_IV :: bytes where
  "KDF_SALT_CONST_VMESS_HEADER_PAYLOAD_LENGTH_AEAD_IV = as_bytes ''VMess Header AEAD Nonce_Length''"

text \<open>
  \<open>hmac key msg\<close> is HMAC-SHA256; its incremental state is the key with the message so far. Each
  \<open>VmessKdf\<close> wraps two states of the level below, as the macro \<open>impl_hmac_with_hasher\<close> does.
\<close>

type_synonym hmac = "bytes \<Rightarrow> bytes \<Rightarrow> bytes"

record hmac_sha256 =
  hm_key :: bytes
  hm_msg :: bytes

definition hmac_update :: "bytes \<Rightarrow> hmac_sha256 \<Rightarrow> hmac_sha256" where
  "hmac_update m h = h\<lparr>hm_msg := hm_msg h @ m\<rparr>"

definition hmac_finalize :: "hmac \<Rightarrow> hmac_sha256 \<Rightarrow> bytes" where
  "hmac_finalize hmac h = hmac (hm_key h) (hm_msg h)"

record 'h kdf =
  okey :: bytes
  hasher :: 'h
  hasher_outer :: 'h

text \<open>The two padded keys: a key longer than a block is replaced by its hash.\<close>

definition kdf_key :: "(bytes \<Rightarrow> 'h \<Rightarrow> 'h) \<Rightarrow> ('h \<Rightarrow> bytes) \<Rightarrow> 'h \<Rightarrow> bytes \<Rightarrow> bytes" where
  "kdf_key update finalize hs key =
     (let zero = replicate BLOCK_LEN 0 in
      if length key > BLOCK_LEN then
        (let hkey = finalize (update key hs) in copy_at zero 0 (take TAG_LEN hkey))
      else copy_at zero 0 key)"

definition kdf_new :: "(bytes \<Rightarrow> 'h \<Rightarrow> 'h) \<Rightarrow> ('h \<Rightarrow> bytes) \<Rightarrow> 'h \<Rightarrow> bytes \<Rightarrow> 'h kdf" where
  "kdf_new update finalize hs key =
     (let ikey = kdf_key update finalize hs key; okey = ikey;
          ikey = map (\<lambda>b. b XOR IPAD) ikey; okey = map (\<lambda>b. b XOR OPAD) okey
      in \<lparr>okey = okey, hasher = update ikey hs, hasher_outer = hs\<rparr>)"

definition kdf_update :: "(bytes \<Rightarrow> 'h \<Rightarrow> 'h) \<Rightarrow> bytes \<Rightarrow> 'h kdf \<Rightarrow> 'h kdf" where
  "kdf_update update m k = k\<lparr>hasher := update m (hasher k)\<rparr>"

definition kdf_finalize :: "(bytes \<Rightarrow> 'h \<Rightarrow> 'h) \<Rightarrow> ('h \<Rightarrow> bytes) \<Rightarrow> 'h kdf \<Rightarrow> bytes" where
  "kdf_finalize update finalize k =
     (let h1 = finalize (hasher k);
          outer = update (okey k) (hasher_outer k);
          outer = update h1 outer
      in finalize outer)"

text \<open>The three levels, written out for each type of the source.\<close>

definition kdf1_new :: "hmac \<Rightarrow> hmac_sha256 \<Rightarrow> bytes \<Rightarrow> hmac_sha256 kdf" where
  "kdf1_new hmac = kdf_new hmac_update (hmac_finalize hmac)"
definition kdf1_update :: "bytes \<Rightarrow> hmac_sha256 kdf \<Rightarrow> hmac_sha256 kdf" where
  "kdf1_update = kdf_update hmac_update"
definition kdf1_finalize :: "hmac \<Rightarrow> hmac_sha256 kdf \<Rightarrow> bytes" where
  "kdf1_finalize hmac = kdf_finalize hmac_update (hmac_finalize hmac)"

definition kdf2_new :: "hmac \<Rightarrow> hmac_sha256 kdf \<Rightarrow> bytes \<Rightarrow> hmac_sha256 kdf kdf" where
  "kdf2_new hmac = kdf_new kdf1_update (kdf1_finalize hmac)"
definition kdf2_update :: "bytes \<Rightarrow> hmac_sha256 kdf kdf \<Rightarrow> hmac_sha256 kdf kdf" where
  "kdf2_update = kdf_update kdf1_update"
definition kdf2_finalize :: "hmac \<Rightarrow> hmac_sha256 kdf kdf \<Rightarrow> bytes" where
  "kdf2_finalize hmac = kdf_finalize kdf1_update (kdf1_finalize hmac)"

definition kdf3_new :: "hmac \<Rightarrow> hmac_sha256 kdf kdf \<Rightarrow> bytes \<Rightarrow> hmac_sha256 kdf kdf kdf" where
  "kdf3_new hmac = kdf_new kdf2_update (kdf2_finalize hmac)"
definition kdf3_update :: "bytes \<Rightarrow> hmac_sha256 kdf kdf kdf \<Rightarrow> hmac_sha256 kdf kdf kdf" where
  "kdf3_update = kdf_update kdf2_update"
definition kdf3_finalize :: "hmac \<Rightarrow> hmac_sha256 kdf kdf kdf \<Rightarrow> bytes" where
  "kdf3_finalize hmac = kdf_finalize kdf2_update (kdf2_finalize hmac)"

definition get_vmess_kdf_1 :: "hmac \<Rightarrow> bytes \<Rightarrow> hmac_sha256 kdf" where
  "get_vmess_kdf_1 hmac key1 = kdf1_new hmac \<lparr>hm_key = KDF_SALT_CONST_VMESS_AEAD_KDF, hm_msg = []\<rparr> key1"

definition vmess_kdf_1_one_shot :: "hmac \<Rightarrow> bytes \<Rightarrow> bytes \<Rightarrow> bytes" where
  "vmess_kdf_1_one_shot hmac ident key1 =
     (let h = get_vmess_kdf_1 hmac key1; h = kdf1_update ident h in kdf1_finalize hmac h)"

definition get_vmess_kdf_2 :: "hmac \<Rightarrow> bytes \<Rightarrow> bytes \<Rightarrow> hmac_sha256 kdf kdf" where
  "get_vmess_kdf_2 hmac key1 key2 = kdf2_new hmac (get_vmess_kdf_1 hmac key1) key2"

definition get_vmess_kdf_3 :: "hmac \<Rightarrow> bytes \<Rightarrow> bytes \<Rightarrow> bytes \<Rightarrow> hmac_sha256 kdf kdf kdf" where
  "get_vmess_kdf_3 hmac key1 key2 key3 = kdf3_new hmac (get_vmess_kdf_2 hmac key1 key2) key3"

definition vmess_kdf_3_one_shot :: "hmac \<Rightarrow> bytes \<Rightarrow> bytes \<Rightarrow> bytes \<Rightarrow> bytes \<Rightarrow> bytes" where
  "vmess_kdf_3_one_shot hmac ident key1 key2 key3 =
     (let h = get_vmess_kdf_3 hmac key1 key2 key3; h = kdf3_update ident h in kdf3_finalize hmac h)"

section \<open>The derivation is nested HMAC\<close>

text \<open>HMAC over an arbitrary hash, by its definition; each level uses the one below as its hash.\<close>

definition hmac_over :: "(bytes \<Rightarrow> bytes) \<Rightarrow> bytes \<Rightarrow> bytes \<Rightarrow> bytes" where
  "hmac_over H key text =
     (let k = (if length key > 64 then take 32 (H key) else key);
          k = k @ replicate (64 - length k) 0
      in H (map (\<lambda>b. b XOR OPAD) k @ H (map (\<lambda>b. b XOR IPAD) k @ text)))"

text \<open>
  An incremental hasher: its state stands for a message, updates append to it and the digest is a
  function of the message.
\<close>

locale incremental_hash =
  fixes update :: "bytes \<Rightarrow> 'h \<Rightarrow> 'h"
    and finalize :: "'h \<Rightarrow> bytes"
    and msg :: "'h \<Rightarrow> bytes \<Rightarrow> bool"
    and start :: 'h
    and H :: "bytes \<Rightarrow> bytes"
  assumes start_msg: "msg start []"
    and update_msg: "msg h m \<Longrightarrow> msg (update x h) (m @ x)"
    and finalize_msg: "msg h m \<Longrightarrow> finalize h = H m"
begin

definition kdf_msg :: "bytes \<Rightarrow> 'h kdf \<Rightarrow> bytes \<Rightarrow> bool" where
  "kdf_msg key k m \<longleftrightarrow>
     (let p = kdf_key update finalize start key in
      okey k = map (\<lambda>b. b XOR OPAD) p \<and> hasher_outer k = start \<and>
      msg (hasher k) (map (\<lambda>b. b XOR IPAD) p @ m))"

lemma kdf_key_padded:
  "kdf_key update finalize start key =
     (let k = (if length key > 64 then take 32 (H key) else key) in k @ replicate (64 - length k) 0)"
  using finalize_msg [OF update_msg [OF start_msg]]
  by (simp add: kdf_key_def copy_at_def BLOCK_LEN_def TAG_LEN_def Let_def)

lemma kdf_new_msg: "kdf_msg key (kdf_new update finalize start key) []"
  using update_msg [OF start_msg] by (simp add: kdf_msg_def kdf_new_def Let_def)

lemma kdf_update_msg: "kdf_msg key k m \<Longrightarrow> kdf_msg key (kdf_update update x k) (m @ x)"
  using update_msg by (fastforce simp: kdf_msg_def kdf_update_def Let_def)

lemma kdf_finalize_msg:
  assumes "kdf_msg key k m"
  shows "kdf_finalize update finalize k = hmac_over H key m"
proof -
  let ?p = "kdf_key update finalize start key"
  have k: "okey k = map (\<lambda>b. b XOR OPAD) ?p" "hasher_outer k = start"
    "finalize (hasher k) = H (map (\<lambda>b. b XOR IPAD) ?p @ m)"
    using assms finalize_msg by (auto simp: kdf_msg_def Let_def)
  have "msg (update (finalize (hasher k)) (update (okey k) start)) (okey k @ finalize (hasher k))"
    using update_msg [OF update_msg [OF start_msg]] by simp
  from finalize_msg [OF this] k show ?thesis
    by (simp add: kdf_finalize_def hmac_over_def kdf_key_padded Let_def)
qed

end

text \<open>The three levels; the digest of each is HMAC over the one below.\<close>

definition base_msg :: "hmac_sha256 \<Rightarrow> bytes \<Rightarrow> bool" where
  "base_msg h m \<longleftrightarrow> hm_key h = KDF_SALT_CONST_VMESS_AEAD_KDF \<and> hm_msg h = m"

definition base_start :: hmac_sha256 where
  "base_start = \<lparr>hm_key = KDF_SALT_CONST_VMESS_AEAD_KDF, hm_msg = []\<rparr>"

interpretation sha: incremental_hash
  hmac_update "hmac_finalize hmac" base_msg base_start "hmac KDF_SALT_CONST_VMESS_AEAD_KDF" for hmac
  by unfold_locales (auto simp: base_msg_def base_start_def hmac_update_def hmac_finalize_def)

abbreviation kdf1_H :: "hmac \<Rightarrow> bytes \<Rightarrow> bytes \<Rightarrow> bytes" where
  "kdf1_H hmac key1 \<equiv> hmac_over (hmac KDF_SALT_CONST_VMESS_AEAD_KDF) key1"

lemma get_vmess_kdf_1_eq:
  "get_vmess_kdf_1 hmac key1 = kdf_new hmac_update (hmac_finalize hmac) base_start key1"
  by (simp add: get_vmess_kdf_1_def kdf1_new_def base_start_def)

interpretation level1: incremental_hash
  kdf1_update "kdf1_finalize hmac" "sha.kdf_msg hmac key1" "get_vmess_kdf_1 hmac key1"
  "kdf1_H hmac key1" for hmac key1
  using sha.kdf_new_msg sha.kdf_update_msg sha.kdf_finalize_msg
  by unfold_locales (auto simp: get_vmess_kdf_1_eq kdf1_update_def kdf1_finalize_def)

interpretation level2: incremental_hash
  kdf2_update "kdf2_finalize hmac" "level1.kdf_msg hmac key1 key2" "get_vmess_kdf_2 hmac key1 key2"
  "hmac_over (kdf1_H hmac key1) key2" for hmac key1 key2
  using level1.kdf_new_msg level1.kdf_update_msg level1.kdf_finalize_msg
  by unfold_locales
    (auto simp: get_vmess_kdf_2_def kdf2_new_def kdf2_update_def kdf2_finalize_def)

lemma vmess_kdf_1_nested: "vmess_kdf_1_one_shot hmac ident key1 = kdf1_H hmac key1 ident"
  using level1.finalize_msg [OF level1.update_msg [OF level1.start_msg]]
  by (simp add: vmess_kdf_1_one_shot_def)

lemma vmess_kdf_3_nested:
  "vmess_kdf_3_one_shot hmac ident key1 key2 key3 =
     hmac_over (hmac_over (kdf1_H hmac key1) key2) key3 ident"
  using level2.kdf_finalize_msg [OF level2.kdf_update_msg [OF level2.kdf_new_msg]]
  by (simp add: vmess_kdf_3_one_shot_def get_vmess_kdf_3_def kdf3_new_def kdf3_update_def
      kdf3_finalize_def)

section \<open>The request header\<close>

text \<open>
  \<open>aes128 key block\<close> is one block encryption, \<open>crc32\<close> the checksum. Random bytes come from the
  stream as in \<open>Ss_Cipher\<close>. Key and nonce slices are the first 16 and 12 bytes of a digest.
\<close>

record vmess_lib = aead_lib +
  lib_hmac :: hmac
  aes128 :: "bytes \<Rightarrow> bytes \<Rightarrow> bytes"
  crc32 :: "bytes \<Rightarrow> u32"

definition create_auth_id ::
  "vmess_lib \<Rightarrow> bytes \<Rightarrow> bytes \<Rightarrow> bytes \<Rightarrow> (bytes \<times> bytes) option" where
  "create_auth_id lib cmd_key time rng =
     (case random_iv_or_salt 4 rng of
        None \<Rightarrow> None
      | Some (random_bytes, rng) \<Rightarrow>
          (let buf = time @ random_bytes;
               zero = crc32 lib buf;
               buf = buf @ to_be 4 (unat zero);
               key = vmess_kdf_1_one_shot (lib_hmac lib) cmd_key KDF_SALT_CONST_AUTH_ID_ENCRYPTION_KEY
           in Some (aes128 lib (take 16 key) buf, rng)))"

definition AES_128_GCM_TAG_LEN :: nat where "AES_128_GCM_TAG_LEN = 16"

text \<open>\<open>now\<close> is the clock: seconds since the epoch.\<close>

definition seal_vmess_aead_header ::
  "vmess_lib \<Rightarrow> u64 \<Rightarrow> bytes \<Rightarrow> bytes \<Rightarrow> bytes \<Rightarrow> (bytes res \<times> bytes) option" where
  "seal_vmess_aead_header lib now cmd_key data rng =
     (let time = to_be 8 (unat now) in
      case create_auth_id lib cmd_key time rng of
        None \<Rightarrow> None
      | Some (generated_auth_id, rng) \<Rightarrow>
        case random_iv_or_salt 8 rng of
          None \<Rightarrow> None
        | Some (connection_nonce, rng) \<Rightarrow>
          (let room = replicate AES_128_GCM_TAG_LEN 0;
               kdf = (\<lambda>salt. vmess_kdf_3_one_shot (lib_hmac lib) cmd_key salt generated_auth_id connection_nonce);
               length_key = kdf KDF_SALT_CONST_VMESS_HEADER_PAYLOAD_LENGTH_AEAD_KEY;
               length_nonce = take 12 (kdf KDF_SALT_CONST_VMESS_HEADER_PAYLOAD_LENGTH_AEAD_IV);
               sealed_length = encrypt_inplace_with_slice (aead_lib.truncate lib) Aes128Gcm (take 16 length_key)
                 length_nonce generated_auth_id (put_u16 (of_nat (length data)) @ room);
               payload_key = kdf KDF_SALT_CONST_VMESS_HEADER_PAYLOAD_AEAD_KEY;
               payload_nonce = take 12 (kdf KDF_SALT_CONST_VMESS_HEADER_PAYLOAD_AEAD_IV);
               sealed_payload = encrypt_inplace_with_slice (aead_lib.truncate lib) Aes128Gcm (take 16 payload_key)
                 payload_nonce generated_auth_id (data @ room)
           in Some (bind_res sealed_length (\<lambda>l. bind_res sealed_payload (\<lambda>p.
                Ok (generated_auth_id @ l @ connection_nonce @ p))), rng)))"

section \<open>The response header\<close>

datatype header_reader_pc = HrLength | HrPayload | HrDone

record vmess_header_reader =
  hr_buffer :: bytes
  hr_state :: header_reader_pc
  hr_len_key :: bytes
  hr_len_iv :: bytes
  hr_payload_key :: bytes
  hr_payload_iv :: bytes
  hr_respv :: u8
  hr_data_length :: nat
  hr_read_res :: "unit poll"
  hr_received_resp :: bool
  hr_read_zero :: bool

definition vmess_header_reader_new :: "hmac \<Rightarrow> bytes \<Rightarrow> bytes \<Rightarrow> u8 \<Rightarrow> vmess_header_reader" where
  "vmess_header_reader_new hmac resp_body_key resp_body_iv respv =
     (let header_key = vmess_kdf_1_one_shot hmac resp_body_key KDF_SALT_CONST_AEAD_RESP_HEADER_LEN_KEY;
          header_iv = vmess_kdf_1_one_shot hmac resp_body_iv KDF_SALT_CONST_AEAD_RESP_HEADER_LEN_IV;
          payload_key = vmess_kdf_1_one_shot hmac resp_body_key KDF_SALT_CONST_AEAD_RESP_HEADER_PAYLOAD_KEY;
          payload_iv = vmess_kdf_1_one_shot hmac resp_body_iv KDF_SALT_CONST_AEAD_RESP_HEADER_PAYLOAD_IV
      in \<lparr>hr_buffer = [], hr_state = HrLength, hr_len_key = take 16 header_key,
          hr_len_iv = take 12 header_iv, hr_payload_key = take 16 payload_key,
          hr_payload_iv = take 12 payload_iv, hr_respv = respv, hr_data_length = 0,
          hr_read_res = Pending, hr_received_resp = False, hr_read_zero = False\<rparr>)"

definition hr_get_buffer :: "vmess_header_reader \<Rightarrow> bytes \<times> vmess_header_reader" where
  "hr_get_buffer h = (hr_buffer h, h\<lparr>hr_buffer := []\<rparr>)"

definition hr_fail :: "string \<Rightarrow> vmess_header_reader \<Rightarrow> unit poll \<times> vmess_header_reader" where
  "hr_fail msg h = (Ready (Err (IoError InvalidData msg)), h\<lparr>hr_state := HrDone\<rparr>)"

text \<open>
  The end of \<open>poll_read_decrypted\<close>, once length and payload are buffered. Every path returns, so the
  generator completes.
\<close>

definition hr_payload :: "aead_lib \<Rightarrow> vmess_header_reader \<Rightarrow> unit poll \<times> vmess_header_reader" where
  "hr_payload lib h =
     (let n = hr_data_length h + 16 in
      case decrypt_inplace_with_slice lib Aes128Gcm (hr_payload_key h) (hr_payload_iv h) []
             (take n (hr_buffer h)) of
        Ok (ok, m) \<Rightarrow>
          (let h = h\<lparr>hr_buffer := m @ drop n (hr_buffer h)\<rparr> in
           if \<not> ok then hr_fail ''decrypted resp header payload failed!'' h
           else if length (hr_buffer h) < 20 then hr_fail ''unexpected buffer length!'' h
           else if hr_buffer h ! 0 \<noteq> hr_respv h then hr_fail ''unexpected response header!'' h
           else if hr_buffer h ! 2 \<noteq> 0 then hr_fail ''dynamic port is not supported now!'' h
           else (case advance n (hr_buffer h) of
                   Ok b \<Rightarrow> (Ready (Ok ()), h\<lparr>hr_buffer := b, hr_data_length := length b,
                             hr_received_resp := True, hr_state := HrDone\<rparr>)
                 | _ \<Rightarrow> (Ready Panic, h)))
      | Err e \<Rightarrow> (Ready (Err e), h)
      | Panic \<Rightarrow> (Ready Panic, h))"

definition hr_await ::
  "(bytes \<Rightarrow> nat) \<Rightarrow> nat \<Rightarrow>
     (vmess_header_reader \<Rightarrow> reader \<Rightarrow> unit poll \<times> vmess_header_reader \<times> reader) \<Rightarrow>
     vmess_header_reader \<Rightarrow> reader \<Rightarrow> unit poll \<times> vmess_header_reader \<times> reader" where
  "hr_await chunk len rest h r =
     (case read_at_least chunk r len (hr_buffer h) (hr_read_zero h) of
        (p, r, buf, rz) \<Rightarrow>
          (let h = h\<lparr>hr_buffer := buf, hr_read_zero := rz\<rparr> in
           case p of
             Pending \<Rightarrow> (Pending, h, r)
           | Ready (Ok u) \<Rightarrow> rest (h\<lparr>hr_read_res := p\<rparr>) r
           | Ready (Err e) \<Rightarrow>
               if rz then (Ready (Ok ()), h\<lparr>hr_read_res := p, hr_state := HrDone\<rparr>, r)
               else (p, h\<lparr>hr_read_res := Pending, hr_state := HrDone\<rparr>, r)
           | Ready Panic \<Rightarrow> (Ready Panic, h, r)))"

definition hr_read_payload ::
  "aead_lib \<Rightarrow> (bytes \<Rightarrow> nat) \<Rightarrow> vmess_header_reader \<Rightarrow> reader \<Rightarrow>
     unit poll \<times> vmess_header_reader \<times> reader" where
  "hr_read_payload lib chunk h r =
     hr_await chunk (hr_data_length h + 16)
       (\<lambda>h r. case hr_payload lib h of (p, h) \<Rightarrow> (p, h, r)) (h\<lparr>hr_state := HrPayload\<rparr>) r"

definition hr_length ::
  "aead_lib \<Rightarrow> (bytes \<Rightarrow> nat) \<Rightarrow> vmess_header_reader \<Rightarrow> reader \<Rightarrow>
     unit poll \<times> vmess_header_reader \<times> reader" where
  "hr_length lib chunk h r =
     (case decrypt_inplace_with_slice lib Aes128Gcm (hr_len_key h) (hr_len_iv h) [] (take 18 (hr_buffer h)) of
        Ok (ok, m) \<Rightarrow>
          (let h = h\<lparr>hr_buffer := m @ drop 18 (hr_buffer h)\<rparr> in
           if \<not> ok then (case hr_fail ''decrypted resp header len failed!'' h of (p, h) \<Rightarrow> (p, h, r))
           else case bind_res (get_u16 (hr_buffer h)) (\<lambda>(n, b). map_res (Pair n) (advance 16 b)) of
                  Ok (n, b) \<Rightarrow> hr_read_payload lib chunk (h\<lparr>hr_data_length := unat n, hr_buffer := b\<rparr>) r
                | _ \<Rightarrow> (Ready Panic, h, r))
      | Err e \<Rightarrow> (Ready (Err e), h, r)
      | Panic \<Rightarrow> (Ready Panic, h, r))"

definition hr_poll ::
  "aead_lib \<Rightarrow> (bytes \<Rightarrow> nat) \<Rightarrow> vmess_header_reader \<Rightarrow> reader \<Rightarrow>
     unit poll \<times> vmess_header_reader \<times> reader" where
  "hr_poll lib chunk h r =
     (case hr_state h of
        HrLength \<Rightarrow> hr_await chunk 18 (hr_length lib chunk) h r
      | HrPayload \<Rightarrow> hr_read_payload lib chunk h r
      | HrDone \<Rightarrow> (Ready (Err (IoError UnexpectedEof '''')), h, r))"

text \<open>Polling until the reader is ready.\<close>

fun hr_run ::
  "aead_lib \<Rightarrow> (bytes \<Rightarrow> nat) \<Rightarrow> nat \<Rightarrow> vmess_header_reader \<Rightarrow> reader \<Rightarrow>
     (unit res \<times> vmess_header_reader \<times> reader) option" where
  "hr_run lib chunk 0 h r = None"
| "hr_run lib chunk (Suc n) h r =
     (case hr_poll lib chunk h r of
        (Pending, h', r') \<Rightarrow> hr_run lib chunk n h' r'
      | (Ready x, h', r') \<Rightarrow> Some (x, h', r'))"

section \<open>A well-formed response is accepted\<close>

text \<open>The sealed form of a message under a fixed key and nonce.\<close>

definition gcm_sealed :: "aead_lib \<Rightarrow> bytes \<Rightarrow> bytes \<Rightarrow> bytes \<Rightarrow> bytes" where
  "gcm_sealed lib key iv msg =
     (case seal lib Aes128Gcm key iv [] msg of Some (c, t) \<Rightarrow> c @ t | None \<Rightarrow> [])"

lemma gcm_open:
  assumes "aead_ok lib" "length msg < 2 ^ 32"
  shows "length (gcm_sealed lib key iv msg) = length msg + 16 \<and>
    (\<exists>t. length t = 16 \<and> decrypt_inplace_with_slice lib Aes128Gcm key iv [] (gcm_sealed lib key iv msg) =
       Ok (True, msg @ t))"
proof -
  from assms obtain c t where "seal lib Aes128Gcm key iv [] msg = Some (c, t)" "length c = length msg"
    "length t = 16" "unseal lib Aes128Gcm key iv [] c t = (True, msg)" unfolding aead_ok_def by metis
  then show ?thesis by (simp add: gcm_sealed_def decrypt_inplace_with_slice_def)
qed

text \<open>What the server sends, and a response header the reader must accept.\<close>

definition response_bytes :: "aead_lib \<Rightarrow> vmess_header_reader \<Rightarrow> bytes \<Rightarrow> bytes" where
  "response_bytes lib h p =
     gcm_sealed lib (hr_len_key h) (hr_len_iv h) (to_be 2 (length p)) @
     gcm_sealed lib (hr_payload_key h) (hr_payload_iv h) p"

definition response_ok :: "vmess_header_reader \<Rightarrow> bytes \<Rightarrow> bool" where
  "response_ok h p \<longleftrightarrow> 4 \<le> length p \<and> length p < 65536 \<and> p ! 0 = hr_respv h \<and> p ! 2 = 0"

definition hr_accepts ::
  "aead_lib \<Rightarrow> (bytes \<Rightarrow> nat) \<Rightarrow> bytes \<Rightarrow> vmess_header_reader \<Rightarrow> reader \<Rightarrow> bool" where
  "hr_accepts lib chunk rest h r \<longleftrightarrow>
     (\<exists>n h' r'. hr_run lib chunk n h r = Some (Ok (), h', r') \<and> hr_received_resp h' \<and>
        hr_buffer h' @ rx_bytes r' = rest)"

lemma hr_accepts_step:
  "hr_poll lib chunk h r = (Pending, h', r') \<Longrightarrow> hr_accepts lib chunk rest h' r' \<Longrightarrow>
     hr_accepts lib chunk rest h r"
  unfolding hr_accepts_def
  by (elim exE, rule_tac x = "Suc n" in exI) auto

lemma hr_accepts_done:
  "hr_poll lib chunk h r = (Ready (Ok ()), h', r') \<Longrightarrow> hr_received_resp h' \<Longrightarrow>
     hr_buffer h' @ rx_bytes r' = rest \<Longrightarrow> hr_accepts lib chunk rest h r"
  unfolding hr_accepts_def by (intro exI [of _ "Suc 0"] exI [of _ h'] exI [of _ r']) simp

lemma hr_payload_accept:
  assumes ok: "aead_ok lib" "response_ok h p" and len: "hr_data_length h = length p"
    and b: "hr_buffer h = gcm_sealed lib (hr_payload_key h) (hr_payload_iv h) p @ b"
  shows "\<exists>h'. hr_payload lib h = (Ready (Ok ()), h') \<and> hr_received_resp h' \<and> hr_buffer h' = b"
proof -
  have p: "4 \<le> length p" "p ! 0 = hr_respv h" "p ! 2 = 0" "length p < 2 ^ 32"
    using ok(2) by (auto simp: response_ok_def)
  from gcm_open [OF ok(1) p(4), of "hr_payload_key h" "hr_payload_iv h"] obtain t where
    t: "length t = 16" "length (gcm_sealed lib (hr_payload_key h) (hr_payload_iv h) p) = length p + 16"
      "decrypt_inplace_with_slice lib Aes128Gcm (hr_payload_key h) (hr_payload_iv h) []
         (gcm_sealed lib (hr_payload_key h) (hr_payload_iv h) p) = Ok (True, p @ t)" by blast
  have "(p @ t @ b) ! 0 = p ! 0" "(p @ t @ b) ! 2 = p ! 2" using p(1) by (auto simp: nth_append)
  with p t b len show ?thesis by (simp add: hr_payload_def advance_def Let_def)
qed

text \<open>
  One poll of the reader, against a peer that sends \<open>p\<close> as its header and \<open>rest\<close> after it: it keeps
  \<open>hr_source\<close>, or the header is accepted.
\<close>

definition hr_source ::
  "aead_lib \<Rightarrow> bytes \<Rightarrow> bytes \<Rightarrow> vmess_header_reader \<times> reader \<Rightarrow> bool" where
  "hr_source lib p rest s \<longleftrightarrow>
     aead_ok lib \<and> response_ok (fst s) p \<and> clean (snd s) \<and> \<not> hr_received_resp (fst s) \<and>
     (let h = fst s; content = hr_buffer h @ rx_bytes (snd s) in
      case hr_state h of
        HrLength \<Rightarrow> content = response_bytes lib h p @ rest
      | HrPayload \<Rightarrow> hr_data_length h = length p \<and>
          content = gcm_sealed lib (hr_payload_key h) (hr_payload_iv h) p @ rest
      | HrDone \<Rightarrow> False)"

definition hr_moves ::
  "aead_lib \<Rightarrow> bytes \<Rightarrow> bytes \<Rightarrow> reader \<Rightarrow> unit poll \<times> vmess_header_reader \<times> reader \<Rightarrow> bool" where
  "hr_moves lib p rest r out \<longleftrightarrow>
     (case out of (q, h', r') \<Rightarrow>
        q = Pending \<and> hr_source lib p rest (h', r') \<and> rx_size r' < rx_size r \<or>
        q = Ready (Ok ()) \<and> hr_received_resp h' \<and> hr_buffer h' @ rx_bytes r' = rest \<and> clean r' \<and>
          rx_size r' \<le> rx_size r)"

lemma hr_moves_size: "hr_moves lib p rest r' out \<Longrightarrow> rx_size r' \<le> rx_size r \<Longrightarrow> hr_moves lib p rest r out"
  by (auto simp: hr_moves_def)

lemma hr_read_payload_moves:
  assumes ch: "chunky chunk" and src: "hr_source lib p rest (h\<lparr>hr_state := HrPayload\<rparr>, r)"
  shows "hr_moves lib p rest r (hr_read_payload lib chunk h r)"
proof -
  let ?g = "gcm_sealed lib (hr_payload_key h) (hr_payload_iv h) p" and ?n = "length p + 16"
  have ok: "aead_ok lib" "response_ok h p" "clean r" "hr_data_length h = length p"
    and content: "hr_buffer h @ rx_bytes r = ?g @ rest"
    using src by (simp_all add: hr_source_def response_ok_def)
  have p: "length p < 65536" using ok(2) by (simp add: response_ok_def)
  then have um: "?n \<le> usize_max" by (simp add: usize_max_def)
  have lg: "length ?g = ?n" using gcm_open [OF ok(1)] p by simp
  have "?n \<le> length (hr_buffer h @ rx_bytes r)" by (simp only: content) (simp add: lg)
  from read_at_least_await [OF ch ok(3) this um, of "hr_read_zero h"] obtain q r' b where
    q: "read_at_least chunk r ?n (hr_buffer h) (hr_read_zero h) = (q, r', b, hr_read_zero h)"
      "b @ rx_bytes r' = ?g @ rest" "clean r'" "rx_size r' \<le> rx_size r"
      "q = Pending \<and> rx_size r' < rx_size r \<or> q = Ready (Ok ()) \<and> ?n \<le> length b"
    using content by metis
  from q(5) show ?thesis
  proof (elim disjE conjE)
    assume "q = Pending" "rx_size r' < rx_size r"
    with q src ok(4) show ?thesis
      by (simp add: hr_read_payload_def hr_await_def hr_moves_def hr_source_def response_ok_def)
  next
    assume w: "q = Ready (Ok ())" "?n \<le> length b"
    from buffer_prefix [OF q(2)] w(2) lg obtain b' where b': "b = ?g @ b'" "b' @ rx_bytes r' = rest" by auto
    let ?h = "h\<lparr>hr_state := HrPayload, hr_buffer := b, hr_read_res := q\<rparr>"
    from hr_payload_accept [OF ok(1), of ?h p b'] ok(2,4) b'(1) obtain h' where
      "hr_payload lib ?h = (Ready (Ok ()), h')" "hr_received_resp h'" "hr_buffer h' = b'"
      by (auto simp: response_ok_def)
    with q w(1) b'(2) ok(4) show ?thesis
      by (simp add: hr_read_payload_def hr_await_def hr_moves_def)
  qed
qed

lemma hr_length_moves:
  assumes ch: "chunky chunk" and src: "hr_source lib p rest (h, r)" and st: "hr_state h = HrLength"
  shows "hr_moves lib p rest r (hr_poll lib chunk h r)"
proof -
  let ?l = "gcm_sealed lib (hr_len_key h) (hr_len_iv h) (to_be 2 (length p))"
  let ?g = "gcm_sealed lib (hr_payload_key h) (hr_payload_iv h) p"
  have ok: "aead_ok lib" "response_ok h p" "clean r" "\<not> hr_received_resp h"
    and content: "hr_buffer h @ rx_bytes r = ?l @ (?g @ rest)"
    using src st by (simp_all add: hr_source_def response_bytes_def)
  have um: "18 \<le> usize_max" by (simp add: usize_max_def)
  from gcm_open [OF ok(1), of "to_be 2 (length p)" "hr_len_key h" "hr_len_iv h"] obtain t where
    t: "length ?l = 18" "length t = 16"
      "decrypt_inplace_with_slice lib Aes128Gcm (hr_len_key h) (hr_len_iv h) [] ?l =
         Ok (True, to_be 2 (length p) @ t)" by auto
  have "18 \<le> length (hr_buffer h @ rx_bytes r)" by (simp only: content) (simp add: t(1))
  from read_at_least_await [OF ch ok(3) this um, of "hr_read_zero h"] obtain q r' b where
    q: "read_at_least chunk r 18 (hr_buffer h) (hr_read_zero h) = (q, r', b, hr_read_zero h)"
      "b @ rx_bytes r' = ?l @ (?g @ rest)" "clean r'" "rx_size r' \<le> rx_size r"
      "q = Pending \<and> rx_size r' < rx_size r \<or> q = Ready (Ok ()) \<and> 18 \<le> length b"
    using content by metis
  from q(5) show ?thesis
  proof (elim disjE conjE)
    assume w: "q = Pending" "rx_size r' < rx_size r"
    with q src st show ?thesis
      by (simp add: hr_poll_def hr_await_def hr_moves_def hr_source_def response_ok_def response_bytes_def)
  next
    assume w: "q = Ready (Ok ())" "18 \<le> length b"
    from buffer_prefix [OF q(2)] w(2) t(1) obtain b' where b': "b = ?l @ b'" "b' @ rx_bytes r' = ?g @ rest" by auto
    let ?h = "h\<lparr>hr_read_res := q, hr_data_length := length p, hr_buffer := b'\<rparr>"
    have "put_u16 (of_nat (length p)) = to_be 2 (length p)" and up: "unat (of_nat (length p) :: u16) = length p"
      using ok(2) by (simp_all add: put_u16_def unat_of_nat response_ok_def)
    then have g16: "get_u16 (to_be 2 (length p) @ t @ b') = Ok (of_nat (length p), t @ b')"
      by (metis get_u16_put_u16)
    have adv: "advance 16 (t @ b') = Ok b'" using t(2) by (simp add: advance_def)
    have "hr_poll lib chunk h r = hr_read_payload lib chunk ?h r'"
      using q(1) w(1) st b'(1) t g16 adv up by (simp add: hr_poll_def hr_await_def hr_length_def)
    moreover have "hr_source lib p rest (?h\<lparr>hr_state := HrPayload\<rparr>, r')"
      using ok q(3) b'(2) by (simp add: hr_source_def response_ok_def)
    ultimately show ?thesis using hr_moves_size [OF hr_read_payload_moves [OF ch] q(4)] by metis
  qed
qed

lemma hr_poll_moves:
  assumes ch: "chunky chunk" and src: "hr_source lib p rest (h, r)"
  shows "hr_moves lib p rest r (hr_poll lib chunk h r)"
proof (cases "hr_state h")
  case HrLength
  from hr_length_moves [OF ch src this] show ?thesis .
next
  case HrPayload
  then have "h\<lparr>hr_state := HrPayload\<rparr> = h" by simp
  with src HrPayload hr_read_payload_moves [OF ch, of lib p rest h r] show ?thesis
    by (simp add: hr_poll_def)
next
  case HrDone
  with src show ?thesis by (simp add: hr_source_def)
qed

lemma hr_source_accepts:
  assumes ch: "chunky chunk"
  shows "hr_source lib p rest (h, r) \<Longrightarrow> hr_accepts lib chunk rest h r"
proof (induction r arbitrary: h rule: measure_induct_rule [of rx_size])
  case (less r)
  obtain q h' r' where q: "hr_poll lib chunk h r = (q, h', r')" by (metis surj_pair)
  from hr_poll_moves [OF ch less.prems] show ?case
    using less.IH [of r' h'] hr_accepts_step [OF _ , of lib chunk h r h' r']
      hr_accepts_done [of lib chunk h r h' r']
    by (auto simp: hr_moves_def q)
qed

lemma hr_length_accepts:
  assumes "aead_ok lib" "chunky chunk" "response_ok h p" "clean r" "hr_state h = HrLength"
    "\<not> hr_received_resp h" "hr_buffer h @ rx_bytes r = response_bytes lib h p @ rest"
  shows "hr_accepts lib chunk rest h r"
  using assms by (intro hr_source_accepts) (simp_all add: hr_source_def)

end
