(* ===== verification/Vmess_Stream.thy ===== *)
theory Vmess_Stream
  imports Vmess_Aead Vmess_Header
begin

text \<open>
  A VMess client connection: \<open>src/proxy/vmess/vmess_stream.rs\<close> and the builder of
  \<open>src/proxy/vmess/mod.rs\<close>. The stream sends its sealed request before the first chunk and expects
  the response header before the chunks of the server. Random bytes come from an explicit stream
  (\<open>None\<close> when it is used up), \<open>now\<close> is the clock; MD5 and SHA-256 are parameters.
\<close>

definition VERSION :: u8 where "VERSION = 1"
definition OPT_CHUNK_STREAM :: u8 where "OPT_CHUNK_STREAM = 1"
definition COMMAND_UDP :: u8 where "COMMAND_UDP = 2"
definition COMMAND_TCP :: u8 where "COMMAND_TCP = 1"
definition AES_128_GCM_SECURITY_NUM :: u8 where "AES_128_GCM_SECURITY_NUM = 3"
definition CHACHA20POLY1305_SECURITY_NUM :: u8 where "CHACHA20POLY1305_SECURITY_NUM = 4"
definition NONE_SECURITY_NUM :: u8 where "NONE_SECURITY_NUM = 5"

datatype read_header_pc = RhHeader | RhStream | RhDone
datatype write_header_pc = WhHeader | WhStream | WhDone

record vmess_stream =
  vt_rx :: reader
  vt_tx :: writer
  vt_option :: vmess_option
  vt_reader :: vmess_aead_reader
  vt_writer :: vmess_aead_writer
  vt_salt :: bytes
  vt_respv :: u8
  vt_header_reader :: vmess_header_reader
  vt_header_buffer :: bytes
  vt_header_pos :: nat
  vt_state_1 :: read_header_pc
  vt_state_2 :: write_header_pc
  vt_header_write_res :: "nat poll"
  vt_header_read_res :: "unit poll"

section \<open>The request header\<close>

definition req_body_iv :: "bytes \<Rightarrow> bytes" where "req_body_iv salt = take 16 salt"
definition req_body_key :: "bytes \<Rightarrow> bytes" where "req_body_key salt = take 16 (drop 16 salt)"

fun random_u8 :: "bytes \<Rightarrow> (u8 \<times> bytes) option" where
  "random_u8 [] = None"
| "random_u8 (b # rng) = Some (b, rng)"

text \<open>
  The plaintext of the request in the order of \<open>construct_header_data\<close>, up to the padding of \<open>x\<close>
  bytes and its checksum.
\<close>

definition request_fields :: "bytes \<Rightarrow> u8 \<Rightarrow> vmess_option \<Rightarrow> u8 \<Rightarrow> bytes" where
  "request_fields salt respv opt x =
     write_to_buf_vmess (vo_addr opt)
       ([VERSION] @ req_body_iv salt @ req_body_key salt @
        [respv, OPT_CHUNK_STREAM, push_bit 4 x OR vo_security_num opt, 0,
         if vo_is_udp opt then COMMAND_UDP else COMMAND_TCP])"

definition request_padding :: "u8 \<Rightarrow> bytes \<Rightarrow> (bytes \<times> bytes) option" where
  "request_padding x rng =
     (if x > 0 then
        (case random_iv_or_salt 16 rng of
           None \<Rightarrow> None
         | Some (padding, rng) \<Rightarrow> Some (take (unat x) padding, rng))
      else Some ([], rng))"

definition request_checksum :: "bytes \<Rightarrow> bytes" where
  "request_checksum buf =
     (let h = fnv1a_write buf fnv1a_default
      in to_be 4 (unat (ucast (fnv1a_finish h) :: u32)))"

definition construct_header_data ::
  "vmess_lib \<Rightarrow> (bytes \<Rightarrow> bytes) \<Rightarrow> u64 \<Rightarrow> bytes \<Rightarrow> vmess_stream \<Rightarrow> (vmess_stream res \<times> bytes) option" where
  "construct_header_data lib md5 now rng v =
     (case random_u8 rng of
        None \<Rightarrow> None
      | Some (y, rng) \<Rightarrow>
        (let x = y mod 16; opt = vt_option v;
             buf = request_fields (vt_salt v) (vt_respv v) opt x in
         case request_padding x rng of
           None \<Rightarrow> None
         | Some (padding, rng) \<Rightarrow>
           (let buf = buf @ padding;
                buf = buf @ request_checksum buf;
                cmd_key = md5 (vo_uuid opt @ as_bytes ''c48619fe-8f02-49e0-b9e9-edf763e17e21'')
            in case seal_vmess_aead_header lib now cmd_key buf rng of
                 None \<Rightarrow> None
               | Some (sealed_header, rng) \<Rightarrow>
                   Some (map_res (\<lambda>b. v\<lparr>vt_header_buffer := b\<rparr>) sealed_header, rng))))"

section \<open>A new connection\<close>

text \<open>
  The keys of the two directions. The second half of a ChaCha20 key is computed from the second
  half of the key array, which is still zero at the first use.
\<close>

definition vmess_securities ::
  "(bytes \<Rightarrow> bytes) \<Rightarrow> u8 \<Rightarrow> bytes \<Rightarrow> bytes \<Rightarrow> (vmess_security \<times> vmess_security) res" where
  "vmess_securities md5 security_num req_key resp_key =
     (if security_num = AES_128_GCM_SECURITY_NUM then
        Ok (VsAes128Gcm req_key, VsAes128Gcm resp_key)
      else if security_num = CHACHA20POLY1305_SECURITY_NUM then
        (let key = replicate 32 0;
             key = copy_at key 0 (md5 req_key);
             key = copy_at key 16 (md5 (drop 16 key));
             writer_cipher = VsChaCha20Poly1305 key;
             key = copy_at key 0 (md5 resp_key);
             key = copy_at key 16 (md5 (drop 16 key));
             reader_cipher = VsChaCha20Poly1305 key
         in Ok (writer_cipher, reader_cipher))
      else Panic)"

text \<open>The response key and vector, hashes of the request's, overwrite the second half of the salt.\<close>

definition vmess_salt :: "(bytes \<Rightarrow> bytes) \<Rightarrow> bytes \<Rightarrow> bytes" where
  "vmess_salt sha256 salt =
     (let resp_body_key = sha256 (take 16 (drop 16 salt));
          resp_body_iv = sha256 (take 16 salt)
      in copy_at (copy_at salt 32 (take 16 resp_body_key)) 48 (take 16 resp_body_iv))"

definition vmess_stream_new ::
  "vmess_lib \<Rightarrow> (bytes \<Rightarrow> bytes) \<Rightarrow> (bytes \<Rightarrow> bytes) \<Rightarrow> u64 \<Rightarrow> vmess_option \<Rightarrow> reader \<times> writer \<Rightarrow> bytes \<Rightarrow>
     (vmess_stream res \<times> bytes) option" where
  "vmess_stream_new lib md5 sha256 now opt io rng =
     (case random_iv_or_salt 64 rng of
        None \<Rightarrow> None
      | Some (salt, rng) \<Rightarrow>
        (let respv = salt ! 32;
             salt = vmess_salt sha256 salt;
             req_iv = take 16 salt; req_key = take 16 (drop 16 salt);
             resp_key = take 16 (drop 32 salt); resp_iv = drop 48 salt
         in case vmess_securities md5 (vo_security_num opt) req_key resp_key of
              Ok (writer_cipher, reader_cipher) \<Rightarrow>
                construct_header_data lib md5 now rng
                  \<lparr>vt_rx = fst io, vt_tx = snd io, vt_option = opt,
                   vt_reader = vmess_reader_new resp_iv reader_cipher,
                   vt_writer = vmess_writer_new req_iv writer_cipher,
                   vt_salt = salt, vt_respv = respv,
                   vt_header_reader =
                     vmess_header_reader_new (lib_hmac lib) (take 16 resp_key) (take 16 resp_iv) respv,
                   vt_header_buffer = [], vt_header_pos = 0, vt_state_1 = RhHeader,
                   vt_state_2 = WhHeader, vt_header_write_res = Pending, vt_header_read_res = Pending\<rparr>
            | Err e \<Rightarrow> Some (Err e, rng)
            | Panic \<Rightarrow> Some (Panic, rng)))"

section \<open>Reading\<close>

definition vt_read_body ::
  "aead_lib \<Rightarrow> bool \<Rightarrow> (bytes \<Rightarrow> nat) \<Rightarrow> nat \<Rightarrow> vmess_stream \<Rightarrow> (unit poll \<times> bytes) \<times> vmess_stream" where
  "vt_read_body lib checks chunk n v =
     (case vmess_poll_read_decrypted lib checks chunk n (vt_reader v, vt_rx v) of
        (out, (t, r)) \<Rightarrow> (out, v\<lparr>vt_reader := t, vt_rx := r, vt_state_1 := RhStream\<rparr>))"

definition vt_steal_buffer :: "vmess_stream \<Rightarrow> vmess_stream" where
  "vt_steal_buffer v =
     (case hr_get_buffer (vt_header_reader v) of
        (buffer, h) \<Rightarrow> v\<lparr>vt_reader := (vt_reader v)\<lparr>vr_buffer := buffer\<rparr>, vt_header_reader := h\<rparr>)"

text \<open>
  \<open>poll_read_header\<close>. The header reader is ready without an error also at the end of the stream;
  what it has buffered then goes to the body reader all the same.
\<close>

definition poll_read_header ::
  "aead_lib \<Rightarrow> bool \<Rightarrow> (bytes \<Rightarrow> nat) \<Rightarrow> nat \<Rightarrow> vmess_stream \<Rightarrow> (unit poll \<times> bytes) \<times> vmess_stream" where
  "poll_read_header lib checks chunk n v =
     (case vt_state_1 v of
        RhHeader \<Rightarrow>
          if hr_received_resp (vt_header_reader v) then
            vt_read_body lib checks chunk n (vt_steal_buffer v)
          else (case hr_poll lib chunk (vt_header_reader v) (vt_rx v) of
                  (p, h, r) \<Rightarrow>
                    (let v = v\<lparr>vt_header_reader := h, vt_rx := r, vt_header_read_res := p\<rparr> in
                     case p of
                       Ready (Err e) \<Rightarrow> ((p, []), v\<lparr>vt_header_read_res := Pending, vt_state_1 := RhDone\<rparr>)
                     | Ready Panic \<Rightarrow> ((p, []), v)
                     | Ready (Ok u) \<Rightarrow> vt_read_body lib checks chunk n (vt_steal_buffer v)
                     | Pending \<Rightarrow> ((Pending, []), v)))
      | RhStream \<Rightarrow> vt_read_body lib checks chunk n v
      | RhDone \<Rightarrow> ((Ready (Err (IoError UnexpectedEof '''')), []), v))"

section \<open>Writing\<close>

definition vt_write_body ::
  "aead_lib \<Rightarrow> bool \<Rightarrow> bytes \<Rightarrow> vmess_stream \<Rightarrow> nat poll \<times> vmess_stream" where
  "vt_write_body lib checks buf v =
     (case vmess_poll_write_encrypted lib checks buf (vt_writer v, vt_tx v) of
        (p, (e, w)) \<Rightarrow> (p, v\<lparr>vt_writer := e, vt_tx := w, vt_state_2 := WhStream\<rparr>))"

text \<open>
  \<open>poll_write_header\<close>: one write of the rest of the request per poll; unless that finishes it, the
  poll is pending, whatever the transport answered.
\<close>

definition poll_write_header ::
  "aead_lib \<Rightarrow> bool \<Rightarrow> bytes \<Rightarrow> vmess_stream \<Rightarrow> nat poll \<times> vmess_stream" where
  "poll_write_header lib checks buf v =
     (case vt_state_2 v of
        WhHeader \<Rightarrow>
          if vt_header_pos v < length (vt_header_buffer v) then
            (case poll_write (drop (vt_header_pos v) (vt_header_buffer v)) (vt_tx v) of
               (p, w) \<Rightarrow>
                 (let v = v\<lparr>vt_tx := w, vt_header_write_res := p,
                            vt_header_pos := vt_header_pos v + get_poll_res 0 p\<rparr> in
                  case p of
                    Ready (Err e) \<Rightarrow>
                      (p, v\<lparr>vt_header_write_res := Pending, vt_state_2 := WhDone\<rparr>)
                  | Ready Panic \<Rightarrow> (p, v)
                  | _ \<Rightarrow> if vt_header_pos v < length (vt_header_buffer v) then (Pending, v)
                         else vt_write_body lib checks buf v))
          else vt_write_body lib checks buf v
      | WhStream \<Rightarrow> vt_write_body lib checks buf v
      | WhDone \<Rightarrow> (Ready (Err (IoError UnexpectedEof '''')), v))"

text \<open>\<open>priv_poll_flush\<close>, and the datagram interface: datagrams carry the address of the request.\<close>

definition vmess_poll_flush :: "vmess_stream \<Rightarrow> unit poll \<times> vmess_stream" where
  "vmess_poll_flush v = (case poll_flush (vt_tx v) of (p, w) \<Rightarrow> (p, v\<lparr>vt_tx := w\<rparr>))"

definition vmess_poll_recv_from ::
  "aead_lib \<Rightarrow> bool \<Rightarrow> (bytes \<Rightarrow> nat) \<Rightarrow> nat \<Rightarrow> vmess_stream \<Rightarrow> (address poll \<times> bytes) \<times> vmess_stream" where
  "vmess_poll_recv_from lib checks chunk n v =
     (let addr = vo_addr (vt_option v) in
      case poll_read_header lib checks chunk n v of
        ((p, bs), v) \<Rightarrow>
          ((case p of Ready x \<Rightarrow> Ready (map_res (\<lambda>u. addr) x) | Pending \<Rightarrow> Pending), bs), v)"

text \<open>\<open>strict\<close> is the feature \<open>strict-vmess-udp\<close>.\<close>

definition vmess_poll_send_to ::
  "aead_lib \<Rightarrow> bool \<Rightarrow> bool \<Rightarrow> bytes \<Rightarrow> address \<Rightarrow> vmess_stream \<Rightarrow> nat poll \<times> vmess_stream" where
  "vmess_poll_send_to lib checks strict buf target v =
     (if strict \<and> vo_addr (vt_option v) \<noteq> target then
        (Ready (Err (new_error (''Vmess can't change target udp address different from first packet. '' @
           ''Try using a full-cone protocol instead.''))), v)
      else poll_write_header lib checks buf v)"

text \<open>The builder.\<close>

definition vmess_build_tcp ::
  "vmess_lib \<Rightarrow> (bytes \<Rightarrow> bytes) \<Rightarrow> (bytes \<Rightarrow> bytes) \<Rightarrow> u64 \<Rightarrow> vmess_option \<Rightarrow> reader \<times> writer \<Rightarrow> bytes \<Rightarrow>
     (vmess_stream res \<times> bytes) option" where
  "vmess_build_tcp lib md5 sha256 now opt io rng = vmess_stream_new lib md5 sha256 now opt io rng"

definition vmess_build_udp ::
  "vmess_lib \<Rightarrow> (bytes \<Rightarrow> bytes) \<Rightarrow> (bytes \<Rightarrow> bytes) \<Rightarrow> u64 \<Rightarrow> vmess_option \<Rightarrow> bool \<Rightarrow> reader \<times> writer \<Rightarrow> bytes \<Rightarrow>
     (vmess_stream res \<times> bytes) option" where
  "vmess_build_udp lib md5 sha256 now opt build_tcp_inside io rng =
     vmess_stream_new lib md5 sha256 now (opt\<lparr>vo_is_udp := \<not> build_tcp_inside\<rparr>) io rng"

section \<open>The reading side delivers what the server sends\<close>

definition vr_fresh :: "vmess_security \<Rightarrow> bytes \<Rightarrow> vmess_aead_reader \<Rightarrow> bool" where
  "vr_fresh sec iv t \<longleftrightarrow>
     vr_security t = sec \<and> vr_iv t = iv \<and> vr_state t = VrLength \<and> length (vr_nonce t) = 32 \<and>
     vr_count t = 0 \<and> \<not> vr_read_zero t"

lemma vmess_reader_new_fresh [simp]: "vr_fresh sec iv (vmess_reader_new iv sec)"
  by (simp add: vr_fresh_def vmess_reader_new_def)

text \<open>The messages a direction can carry from its start.\<close>

definition vmess_messages :: "bool \<Rightarrow> bytes list \<Rightarrow> bool" where
  "vmess_messages checks ms \<longleftrightarrow>
     count_room checks 0 (length ms) \<and> (\<forall>m \<in> set ms. length m \<le> vmess_max)"

lemma vr_source_fresh:
  assumes "aead_ok lib" "vr_fresh sec iv t" "12 \<le> length iv" "vmess_messages checks ms" "clean r"
    "vr_buffer t @ rx_bytes r = vmess_chunks lib sec iv 0 ms"
  shows "vr_source lib checks sec iv (concat ms) (t, r)"
proof -
  have "vr_at lib checks sec iv [] 0 ms (t, r)"
    using assms by (simp add: vr_at_def vr_fresh_def vmess_messages_def)
  from vr_sourceI [OF assms(1) this] show ?thesis by simp
qed

definition vt_source ::
  "aead_lib \<Rightarrow> bool \<Rightarrow> vmess_security \<Rightarrow> bytes \<Rightarrow> bytes \<Rightarrow> bytes \<Rightarrow> vmess_stream \<Rightarrow> bool" where
  "vt_source lib checks sec iv p bs v \<longleftrightarrow>
     (case vt_state_1 v of
        RhHeader \<Rightarrow>
          vr_fresh sec iv (vt_reader v) \<and> 12 \<le> length iv \<and>
          (\<exists>ms. vmess_messages checks ms \<and> bs = concat ms \<and>
             hr_source lib p (vmess_chunks lib sec iv 0 ms) (vt_header_reader v, vt_rx v))
      | RhStream \<Rightarrow> vr_source lib checks sec iv bs (vt_reader v, vt_rx v)
      | RhDone \<Rightarrow> False)"

abbreviation vt_yields ::
  "aead_lib \<Rightarrow> bool \<Rightarrow> vmess_security \<Rightarrow> bytes \<Rightarrow> bytes \<Rightarrow> nat \<Rightarrow> bytes \<Rightarrow> vmess_stream \<Rightarrow> unit poll \<Rightarrow> bytes \<Rightarrow>
     vmess_stream \<Rightarrow> bool" where
  "vt_yields lib checks sec iv p \<equiv> yields (vt_source lib checks sec iv p) (\<lambda>v. rx_size (vt_rx v))"

lemma vt_read_body_yields:
  assumes "vr_source lib checks sec iv bs (vt_reader v, vt_rx v)" "chunky chunk" "0 < n"
    and "vt_read_body lib checks chunk n v = ((q, cs), v')"
  shows "vt_yields lib checks sec iv p n bs v q cs v'"
proof -
  obtain q1 cs1 t r where pr: "vmess_poll_read_decrypted lib checks chunk n (vt_reader v, vt_rx v) =
      ((q1, cs1), (t, r))" by (metis surj_pair)
  with assms(4) have o: "q = q1" "cs = cs1" "v' = v\<lparr>vt_reader := t, vt_rx := r, vt_state_1 := RhStream\<rparr>"
    by (simp_all add: vt_read_body_def)
  have "yields (\<lambda>bs s. chunky chunk \<and> vr_source lib checks sec iv bs s) (\<lambda>s. rx_size (snd s)) n bs
      (vt_reader v, vt_rx v) q1 cs1 (t, r)"
    by (rule vmess_in.read_yields [OF _ assms(3) pr]) (simp add: assms(1,2))
  with o show ?thesis by (auto simp: yields_def vt_source_def)
qed

lemma poll_read_header_yields:
  assumes src: "vt_source lib checks sec iv p bs v" and ch: "chunky chunk" and n: "0 < n"
    and r: "poll_read_header lib checks chunk n v = ((q, cs), v')"
  shows "vt_yields lib checks sec iv p n bs v q cs v'"
proof (cases "vt_state_1 v")
  case RhStream
  with src r show ?thesis
    by (intro vt_read_body_yields [OF _ ch n]) (simp_all add: vt_source_def poll_read_header_def)
next
  case RhDone
  with src show ?thesis by (simp add: vt_source_def)
next
  case RhHeader
  from src RhHeader obtain ms where f: "vr_fresh sec iv (vt_reader v)" "12 \<le> length iv"
    "vmess_messages checks ms" "bs = concat ms"
    "hr_source lib p (vmess_chunks lib sec iv 0 ms) (vt_header_reader v, vt_rx v)"
    by (auto simp: vt_source_def)
  have nr: "\<not> hr_received_resp (vt_header_reader v)" "aead_ok lib" using f(5) by (simp_all add: hr_source_def)
  obtain u h' r' where h: "hr_poll lib chunk (vt_header_reader v) (vt_rx v) = (u, h', r')"
    by (metis surj_pair)
  from hr_poll_moves [OF ch f(5)] h have
    "u = Pending \<and> hr_source lib p (vmess_chunks lib sec iv 0 ms) (h', r') \<and> rx_size r' < rx_size (vt_rx v) \<or>
     u = Ready (Ok ()) \<and> hr_received_resp h' \<and> hr_buffer h' @ rx_bytes r' = vmess_chunks lib sec iv 0 ms \<and>
       clean r' \<and> rx_size r' \<le> rx_size (vt_rx v)"
    by (simp add: hr_moves_def)
  then show ?thesis
  proof (elim disjE conjE)
    assume w: "u = Pending" "hr_source lib p (vmess_chunks lib sec iv 0 ms) (h', r')"
      "rx_size r' < rx_size (vt_rx v)"
    then have "q = Pending" "v' = v\<lparr>vt_header_reader := h', vt_rx := r', vt_header_read_res := Pending\<rparr>"
      using r RhHeader nr h by (simp_all add: poll_read_header_def)
    with w f RhHeader show ?thesis by (auto simp: yields_def vt_source_def)
  next
    assume d: "u = Ready (Ok ())" "hr_buffer h' @ rx_bytes r' = vmess_chunks lib sec iv 0 ms" "clean r'"
      "rx_size r' \<le> rx_size (vt_rx v)"
    let ?v = "vt_steal_buffer (v\<lparr>vt_header_reader := h', vt_rx := r', vt_header_read_res := u\<rparr>)"
    have body: "vt_read_body lib checks chunk n ?v = ((q, cs), v')"
      using r RhHeader nr h d(1) by (simp add: poll_read_header_def)
    have stolen: "vt_reader ?v = (vt_reader v)\<lparr>vr_buffer := hr_buffer h'\<rparr>" "vt_rx ?v = r'"
      by (simp_all add: vt_steal_buffer_def hr_get_buffer_def)
    have "vr_fresh sec iv (vt_reader ?v)" using f(1) by (simp add: vr_fresh_def stolen)
    from vr_source_fresh [OF nr(2) this f(2,3) d(3)] d(2) f(4)
    have "vr_source lib checks sec iv bs (vt_reader ?v, vt_rx ?v)" by (simp add: stolen)
    from vt_read_body_yields [OF this ch n body] d(4) stolen(2) show ?thesis by (fastforce simp: yields_def)
  qed
qed

interpretation vmess_download: byte_source
  "poll_read_header lib checks chunk"
  "\<lambda>bs v. chunky chunk \<and> vt_source lib checks sec iv p bs v" "\<lambda>v. rx_size (vt_rx v)"
  for lib checks chunk sec iv p
proof
  fix bs s n out s'
  assume "chunky chunk \<and> vt_source lib checks sec iv p bs s" "0 < n"
    "poll_read_header lib checks chunk n s = (out, s')"
  then show "fst out = Pending \<and> (chunky chunk \<and> vt_source lib checks sec iv p bs s') \<and>
      rx_size (vt_rx s') < rx_size (vt_rx s) \<or>
    (\<exists>cs ds. out = (Ready (Ok ()), cs) \<and> bs = cs @ ds \<and> length cs \<le> n \<and> (cs = [] \<longrightarrow> bs = []) \<and>
       (cs \<noteq> [] \<longrightarrow> (chunky chunk \<and> vt_source lib checks sec iv p ds s') \<and>
          rx_size (vt_rx s') \<le> rx_size (vt_rx s)))"
    using poll_read_header_yields [of lib checks sec iv p bs s chunk n "fst out" "snd out" s']
    by (cases out) (fastforce simp: yields_def)
qed

section \<open>The writing side sends the request, then chunks\<close>

definition vt_enc :: "aead_lib \<Rightarrow> vmess_security \<Rightarrow> bytes \<Rightarrow> bytes \<times> nat \<Rightarrow> bytes \<Rightarrow> bytes" where
  "vt_enc lib sec iv c m = fst c @ vmess_chunk lib sec iv (snd c) m"

definition vt_adv :: "bytes \<times> nat \<Rightarrow> bytes \<Rightarrow> bytes \<times> nat" where
  "vt_adv c m = ([], snd c + 1)"

definition vt_idle ::
  "aead_lib \<Rightarrow> vmess_security \<Rightarrow> bytes \<Rightarrow> bytes \<times> nat \<Rightarrow> vmess_stream \<Rightarrow> bool" where
  "vt_idle lib sec iv c v \<longleftrightarrow>
     vw_idle lib sec iv (snd c) (vt_writer v, vt_tx v) \<and>
     (vt_state_2 v = WhHeader \<and> vt_header_buffer v = fst c \<and> vt_header_pos v = 0 \<or>
      vt_state_2 v = WhStream \<and> fst c = [])"

definition vt_busy ::
  "aead_lib \<Rightarrow> vmess_security \<Rightarrow> bytes \<Rightarrow> bytes \<times> nat \<Rightarrow> bytes \<Rightarrow> nat \<Rightarrow> vmess_stream \<Rightarrow> bool" where
  "vt_busy lib sec iv c m n v \<longleftrightarrow>
     vt_state_2 v = WhHeader \<and> vt_header_buffer v = fst c \<and> vt_header_pos v = n \<and>
       n \<le> length (fst c) \<and> vw_idle lib sec iv (snd c) (vt_writer v, vt_tx v) \<or>
     vt_state_2 v = WhStream \<and>
       (\<exists>k. n = length (fst c) + k \<and> vw_busy lib sec iv (snd c) m k (vt_writer v, vt_tx v))"

definition vt_sends ::
  "aead_lib \<Rightarrow> vmess_security \<Rightarrow> bytes \<Rightarrow> bytes \<times> nat \<Rightarrow> bytes \<Rightarrow> nat \<Rightarrow> vmess_stream \<Rightarrow>
     nat poll \<Rightarrow> vmess_stream \<Rightarrow> bool" where
  "vt_sends lib sec iv c m n v out v' \<longleftrightarrow>
     (\<exists>n'. out = Pending \<and> n \<le> n' \<and> vt_busy lib sec iv c m n' v' \<and>
        length (wr_script (vt_tx v')) < length (wr_script (vt_tx v)) \<and>
        wr_sent (vt_tx v') = wr_sent (vt_tx v) @ take (n' - n) (drop n (vt_enc lib sec iv c m))) \<or>
     out = Ready (Ok (length m)) \<and> vt_idle lib sec iv (vt_adv c m) v' \<and>
     wr_sent (vt_tx v') = wr_sent (vt_tx v) @ drop n (vt_enc lib sec iv c m)"

lemma vt_write_body_sends:
  assumes m: "vmess_sendable checks (snd c) m"
    and b: "vw_busy lib sec iv (snd c) m k (vt_writer v, vt_tx v)"
    and r: "vt_write_body lib checks m v = (out, v')"
  shows "vt_sends lib sec iv c m (length (fst c) + k) v out v'"
proof -
  obtain q e w where q: "vmess_poll_write_encrypted lib checks m (vt_writer v, vt_tx v) = (q, (e, w))"
    by (metis surj_pair)
  then have o: "out = q" "v' = v\<lparr>vt_writer := e, vt_tx := w, vt_state_2 := WhStream\<rparr>"
    using r by (simp_all add: vt_write_body_def)
  have "vw_sends lib sec iv (snd c) m k (vt_writer v, vt_tx v) q (e, w)"
    by (rule vmess_poll_write_encrypted_sends [OF m b q])
  then show ?thesis unfolding vw_sends_def
  proof (elim disjE exE conjE)
    fix k' assume "q = Pending" "k \<le> k'" "vw_busy lib sec iv (snd c) m k' (e, w)"
      "length (wr_script (snd (e, w))) < length (wr_script (snd (vt_writer v, vt_tx v)))"
      "wr_sent (snd (e, w)) = wr_sent (snd (vt_writer v, vt_tx v)) @
         take (k' - k) (drop k (vmess_chunk lib sec iv (snd c) m))"
    then show ?thesis
      unfolding vt_sends_def
      by (intro disjI1 exI [of _ "length (fst c) + k'"]) (auto simp: vt_busy_def vt_enc_def o)
  next
    assume "q = Ready (Ok (length m))" "vw_idle lib sec iv (snd c + 1) (e, w)"
      "wr_sent (snd (e, w)) = wr_sent (snd (vt_writer v, vt_tx v)) @
         drop k (vmess_chunk lib sec iv (snd c) m)"
    then show ?thesis by (simp add: vt_sends_def vt_idle_def vt_adv_def vt_enc_def o)
  qed
qed

lemma poll_write_partial:
  assumes "writer_live w" "poll_write buf w = (Ready (Ok k), w')" "k < length buf"
  shows "length (wr_script w') < length (wr_script w)"
  using assms by (cases "wr_script w") (auto simp: poll_write_def Let_def split: write_event.splits)

text \<open>A poll that has sent the bytes from \<open>n\<close> to \<open>l\<close> goes on as one that starts at \<open>l\<close>.\<close>

lemma vt_sends_later:
  assumes "vt_sends lib sec iv c m l u out v'" "n \<le> l"
    and "length (wr_script (vt_tx u)) \<le> length (wr_script (vt_tx v))"
    and "wr_sent (vt_tx u) = wr_sent (vt_tx v) @ take (l - n) (drop n (vt_enc lib sec iv c m))"
  shows "vt_sends lib sec iv c m n v out v'"
proof -
  let ?e = "vt_enc lib sec iv c m"
  from assms(1) consider n' where "out = Pending" "l \<le> n'" "vt_busy lib sec iv c m n' v'"
      "length (wr_script (vt_tx v')) < length (wr_script (vt_tx u))"
      "wr_sent (vt_tx v') = wr_sent (vt_tx u) @ take (n' - l) (drop l ?e)"
    | "out = Ready (Ok (length m))" "vt_idle lib sec iv (vt_adv c m) v'"
      "wr_sent (vt_tx v') = wr_sent (vt_tx u) @ drop l ?e"
    unfolding vt_sends_def by blast
  then show ?thesis
  proof cases
    case (1 n')
    have "take (l - n) (drop n ?e) @ take (n' - l) (drop l ?e) = take (n' - n) (drop n ?e)"
      using take_add [of "l - n" "n' - l" "drop n ?e"] assms(2) 1(2) by simp
    with 1 assms(2-4) show ?thesis
      unfolding vt_sends_def by (intro disjI1 exI [of _ n']) simp
  next
    case 2
    have "take (l - n) (drop n ?e) @ drop l ?e = drop n ?e"
      using append_take_drop_id [of "l - n" "drop n ?e"] assms(2) by simp
    with 2 assms(4) show ?thesis unfolding vt_sends_def by (intro disjI2) simp
  qed
qed

lemma vw_idle_peer:
  "vw_idle lib sec iv i (e, w) \<Longrightarrow> writer_live w' \<Longrightarrow> vw_idle lib sec iv i (e, w')"
  by (simp add: vw_idle_def)

lemma poll_write_header_sends:
  assumes m: "vmess_sendable checks (snd c) m" and b: "vt_busy lib sec iv c m n v"
    and r: "poll_write_header lib checks m v = (out, v')"
  shows "vt_sends lib sec iv c m n v out v'"
proof (cases "vt_state_2 v = WhHeader \<and> n < length (fst c)")
  case False
  with b obtain k where k: "n = length (fst c) + k" "vw_busy lib sec iv (snd c) m k (vt_writer v, vt_tx v)"
    by (auto simp: vt_busy_def vw_busy_def)
  have "vt_write_body lib checks m v = (out, v')"
    using r b False by (auto simp: poll_write_header_def vt_busy_def)
  from vt_write_body_sends [OF m k(2) this] k(1) show ?thesis by simp
next
  case True
  then have h: "vt_state_2 v = WhHeader" "n < length (fst c)" "vt_header_buffer v = fst c"
    "vt_header_pos v = n" "vw_idle lib sec iv (snd c) (vt_writer v, vt_tx v)"
    using b by (auto simp: vt_busy_def)
  have live: "writer_live (vt_tx v)" using h(5) by (simp add: vw_idle_def)
  obtain p w where p: "poll_write (drop n (fst c)) (vt_tx v) = (p, w)" by fastforce
  have ne: "drop n (fst c) \<noteq> []" using h(2) by simp
  note pl = poll_write_live [OF live ne p]
  let ?v = "v\<lparr>vt_tx := w, vt_header_write_res := p, vt_header_pos := n + get_poll_res 0 p\<rparr>"
  have idle: "vw_idle lib sec iv (snd c) (vt_writer ?v, vt_tx ?v)"
    using vw_idle_peer [OF h(5)] pl by simp
  from pl consider "p = Pending" "length (wr_script w) < length (wr_script (vt_tx v))"
    | k where "0 < k" "p = Ready (Ok k)" by blast
  then show ?thesis
  proof cases
    case 1
    have "wr_sent w = wr_sent (vt_tx v)" using poll_write_other [OF p] 1(1) by simp
    with 1 h p r idle show ?thesis
      by (auto simp: poll_write_header_def vt_sends_def vt_busy_def intro!: exI [of _ n])
  next
    case (2 k)
    note ok = poll_write_Ok [OF p [unfolded 2(2)]]
    have sent: "wr_sent w = wr_sent (vt_tx v) @ take k (drop n (fst c))" "k \<le> length (fst c) - n"
      using ok by simp_all
    show ?thesis
    proof (cases "n + k < length (fst c)")
      case True
      have "length (wr_script w) < length (wr_script (vt_tx v))"
        by (rule poll_write_partial [OF live p [unfolded 2(2)]]) (use True in simp)
      with True 2 h p r idle sent show ?thesis
        by (auto simp: poll_write_header_def vt_sends_def vt_busy_def vt_enc_def intro!: exI [of _ "n + k"])
    next
      case False
      then have nk: "k = length (fst c) - n" using sent(2) h(2) by simp
      have body: "vt_write_body lib checks m ?v = (out, v')"
        using r h p 2 False by (simp add: poll_write_header_def)
      have "vw_busy lib sec iv (snd c) m 0 (vt_writer ?v, vt_tx ?v)" using idle by (simp add: vw_busy_def)
      from vt_write_body_sends [OF m this body]
      have s: "vt_sends lib sec iv c m (length (fst c)) ?v out v'" by simp
      have "wr_sent (vt_tx ?v) = wr_sent (vt_tx v) @
          take (length (fst c) - n) (drop n (vt_enc lib sec iv c m))"
        using sent(1) nk by (simp add: vt_enc_def)
      with pl h(2) show ?thesis by (intro vt_sends_later [OF s]) simp_all
    qed
  qed
qed

interpretation vmess_upload: message_sink
  "poll_write_header lib checks" "\<lambda>c. vmess_sendable checks (snd c)" length
  "vt_enc lib sec iv" vt_adv "vt_idle lib sec iv" "vt_busy lib sec iv"
  "\<lambda>v. wr_sent (vt_tx v)" "\<lambda>v. length (wr_script (vt_tx v))"
  for lib checks sec iv
proof (unfold_locales, goal_cases)
  case (1 c v m)
  then show ?case by (auto simp: vt_idle_def vt_busy_def vw_busy_def)
next
  case (2 c m n v out v')
  from poll_write_header_sends [OF 2] show ?case by (simp add: vt_sends_def)
qed

lemma enc_all_vmess:
  "enc_all (vt_enc lib sec iv) vt_adv (pre, i) (m # ms) = pre @ vmess_chunks lib sec iv i (m # ms)"
proof (induction ms arbitrary: pre i m)
  case Nil
  then show ?case by (simp add: vt_enc_def)
next
  case (Cons x xs)
  then show ?case by (simp add: vt_enc_def vt_adv_def)
qed

lemma all_sendable_stream:
  "\<forall>m \<in> set ms. m \<noteq> [] \<and> length m \<le> vmess_max \<Longrightarrow> count_room checks i (length ms) \<Longrightarrow>
     all_ok (\<lambda>c. vmess_sendable checks (snd c)) vt_adv (pre, i) ms"
  by (induction ms arbitrary: pre i) (auto simp: vmess_sendable_def count_room_def vt_adv_def)

section \<open>A new connection in both directions\<close>

lemma construct_header_data_Ok:
  assumes "construct_header_data lib md5 now rng v = Some (Ok v', rng')"
  shows "vt_rx v' = vt_rx v \<and> vt_tx v' = vt_tx v \<and> vt_option v' = vt_option v \<and>
    vt_state_1 v' = vt_state_1 v \<and> vt_state_2 v' = vt_state_2 v \<and> vt_header_pos v' = vt_header_pos v \<and>
    vt_salt v' = vt_salt v \<and> vt_respv v' = vt_respv v \<and> vt_reader v' = vt_reader v \<and>
    vt_writer v' = vt_writer v \<and> vt_header_reader v' = vt_header_reader v"
  using assms
  by (auto simp: construct_header_data_def Let_def res_simps split: option.splits prod.splits)

lemma vmess_securities_Ok:
  "vmess_securities md5 n rk sk = Ok (a, b) \<Longrightarrow>
     (n = AES_128_GCM_SECURITY_NUM \<and> a = VsAes128Gcm rk \<and> b = VsAes128Gcm sk) \<or>
     (n = CHACHA20POLY1305_SECURITY_NUM \<and> (\<exists>x y. a = VsChaCha20Poly1305 x \<and> b = VsChaCha20Poly1305 y))"
  by (auto simp: vmess_securities_def Let_def split: if_splits)

lemma vmess_stream_new_Ok:
  assumes sha: "\<forall>x. length (sha256 x) = 32"
    and new: "vmess_stream_new lib md5 sha256 now opt io rng = Some (Ok v, rng')"
  shows "vt_rx v = fst io \<and> vt_tx v = snd io \<and> vt_option v = opt \<and> vt_state_1 v = RhHeader \<and>
    vt_state_2 v = WhHeader \<and> vt_header_pos v = 0 \<and> length (vt_salt v) = 64 \<and>
    drop 32 (vt_salt v) = take 16 (sha256 (req_body_key (vt_salt v))) @ take 16 (sha256 (req_body_iv (vt_salt v))) \<and>
    vmess_securities md5 (vo_security_num opt) (req_body_key (vt_salt v)) (take 16 (drop 32 (vt_salt v))) =
      Ok (vw_security (vt_writer v), vr_security (vt_reader v)) \<and>
    vt_writer v = vmess_writer_new (req_body_iv (vt_salt v)) (vw_security (vt_writer v)) \<and>
    vt_reader v = vmess_reader_new (drop 48 (vt_salt v)) (vr_security (vt_reader v)) \<and>
    vt_header_reader v = vmess_header_reader_new (lib_hmac lib) (take 16 (drop 32 (vt_salt v)))
      (drop 48 (vt_salt v)) (vt_respv v)"
proof -
  obtain s rng1 where s: "random_iv_or_salt 64 rng = Some (s, rng1)"
    using new by (auto simp: vmess_stream_new_def split: option.splits)
  have ls: "length s = 64" using random_iv_or_salt_Some [OF s] by simp
  let ?salt = "vmess_salt sha256 s"
  have salt: "?salt = take 32 s @ take 16 (sha256 (take 16 (drop 16 s))) @ take 16 (sha256 (take 16 s))"
    using ls sha by (simp add: vmess_salt_def copy_at_def)
  have parts: "length ?salt = 64" "take 16 ?salt = take 16 s" "take 16 (drop 16 ?salt) = take 16 (drop 16 s)"
    "drop 32 ?salt = take 16 (sha256 (take 16 (drop 16 s))) @ take 16 (sha256 (take 16 s))"
    unfolding salt using ls sha take_drop [of 16 16 s] by simp_all
  obtain a b where ab: "vmess_securities md5 (vo_security_num opt) (take 16 (drop 16 ?salt))
      (take 16 (drop 32 ?salt)) = Ok (a, b)"
    and h: "construct_header_data lib md5 now rng1
        \<lparr>vt_rx = fst io, vt_tx = snd io, vt_option = opt,
         vt_reader = vmess_reader_new (drop 48 ?salt) b, vt_writer = vmess_writer_new (take 16 ?salt) a,
         vt_salt = ?salt, vt_respv = s ! 32,
         vt_header_reader = vmess_header_reader_new (lib_hmac lib) (take 16 (take 16 (drop 32 ?salt)))
           (take 16 (drop 48 ?salt)) (s ! 32),
         vt_header_buffer = [], vt_header_pos = 0, vt_state_1 = RhHeader, vt_state_2 = WhHeader,
         vt_header_write_res = Pending, vt_header_read_res = Pending\<rparr> = Some (Ok v, rng')"
    using new s by (auto simp: vmess_stream_new_def Let_def split: res.splits prod.splits)
  from parts(1) have "length (drop 48 ?salt) = 16" by (simp only: length_drop)
  then have iv: "take 16 (drop 48 ?salt) = drop 48 ?salt" by simp
  note fields = construct_header_data_Ok [OF h, simplified]
  show ?thesis
    using ab iv parts
    by (simp only: fields) (simp add: req_body_iv_def req_body_key_def vmess_reader_new_def vmess_writer_new_def)
qed

lemma vmess_stream_new_idle:
  assumes "aead_ok alib" "\<forall>x. length (sha256 x) = 32"
    and "vmess_stream_new lib md5 sha256 now opt (r, w) rng = Some (Ok v, rng')" "writer_live w"
  shows "vt_idle alib (vw_security (vt_writer v)) (req_body_iv (vt_salt v)) (vt_header_buffer v, 0) v"
proof -
  note n = vmess_stream_new_Ok [OF assms(2,3)]
  then have "vw_state (vt_writer v) = VwStart \<and> vw_iv (vt_writer v) = req_body_iv (vt_salt v) \<and>
      length (vw_nonce (vt_writer v)) = 32 \<and> vw_buffer (vt_writer v) = [] \<and> vw_count (vt_writer v) = 0"
    by (metis vmess_writer_new_def vmess_aead_writer.select_convs length_replicate)
  with n assms(1,4) show ?thesis by (simp add: vt_idle_def vw_idle_def req_body_iv_def)
qed

lemma vmess_stream_sends:
  assumes "aead_ok alib" "\<forall>x. length (sha256 x) = 32"
    and "vmess_stream_new lib md5 sha256 now opt (r, w) rng = Some (Ok v, rng')" "writer_live w"
    and "ms \<noteq> []" "\<forall>m \<in> set ms. m \<noteq> [] \<and> length m \<le> vmess_max" "count_room checks 0 (length ms)"
  shows "\<exists>n v'. send_run (poll_write_header alib checks) n ms v = Some v' \<and>
    wr_sent (vt_tx v') = wr_sent w @ vt_header_buffer v @
      vmess_chunks alib (vw_security (vt_writer v)) (req_body_iv (vt_salt v)) 0 ms"
proof -
  obtain m ms' where ms: "ms = m # ms'" using assms(5) by (cases ms) auto
  have tx: "vt_tx v = w" using vmess_stream_new_Ok [OF assms(2,3)] by simp
  from vmess_upload.send_all [OF all_sendable_stream [OF assms(6,7)] vmess_stream_new_idle [OF assms(1-4)]]
  show ?thesis by (simp only: tx ms enc_all_vmess)
qed

lemma vmess_stream_new_source:
  assumes "aead_ok alib" "\<forall>x. length (sha256 x) = 32"
    and "vmess_stream_new lib md5 sha256 now opt (r, w) rng = Some (Ok v, rng')" "clean r"
    and "vmess_messages checks ms" "response_ok (vt_header_reader v) p"
    and "rx_bytes r = response_bytes alib (vt_header_reader v) p @
      vmess_chunks alib (vr_security (vt_reader v)) (drop 48 (vt_salt v)) 0 ms"
  shows "vt_source alib checks (vr_security (vt_reader v)) (drop 48 (vt_salt v)) p (concat ms) v"
proof -
  note n = vmess_stream_new_Ok [OF assms(2,3)]
  have hr: "hr_state (vt_header_reader v) = HrLength" "hr_buffer (vt_header_reader v) = []"
    "\<not> hr_received_resp (vt_header_reader v)"
    using n by (metis (no_types, lifting) vmess_header_reader_new_def vmess_header_reader.select_convs)+
  have "vr_fresh (vr_security (vt_reader v)) (drop 48 (vt_salt v)) (vt_reader v)"
    using n vmess_reader_new_fresh by metis
  then show ?thesis using n hr assms by (auto simp: vt_source_def hr_source_def)
qed

section \<open>What the server makes of the request\<close>

text \<open>
  The reference: a server opens the sealed header with the user's key and parses what it finds. Its
  checks are those of the protocol (version, checksum, lengths).
\<close>

definition open_request :: "vmess_lib \<Rightarrow> bytes \<Rightarrow> bytes \<Rightarrow> (bytes \<times> bytes) option" where
  "open_request lib cmd_key bs =
     (let auth_id = take 16 bs; connection_nonce = take 8 (drop 34 bs);
          kdf = (\<lambda>salt. vmess_kdf_3_one_shot (lib_hmac lib) cmd_key salt auth_id connection_nonce);
          open_it = (\<lambda>key iv. decrypt_inplace_with_slice (aead_lib.truncate lib) Aes128Gcm
            (take 16 (kdf key)) (take 12 (kdf iv)) auth_id)
      in case open_it KDF_SALT_CONST_VMESS_HEADER_PAYLOAD_LENGTH_AEAD_KEY
               KDF_SALT_CONST_VMESS_HEADER_PAYLOAD_LENGTH_AEAD_IV (take 18 (drop 16 bs)) of
           Ok (True, l) \<Rightarrow>
             (let n = of_be (take 2 l) in
              case open_it KDF_SALT_CONST_VMESS_HEADER_PAYLOAD_AEAD_KEY
                     KDF_SALT_CONST_VMESS_HEADER_PAYLOAD_AEAD_IV (take (n + 16) (drop 42 bs)) of
                Ok (True, d) \<Rightarrow> Some (take n d, drop (n + 58) bs)
              | _ \<Rightarrow> None)
         | _ \<Rightarrow> None)"

record vmess_request =
  rq_iv :: bytes
  rq_key :: bytes
  rq_respv :: u8
  rq_option :: u8
  rq_security :: u8
  rq_udp :: bool
  rq_addr :: address

definition parse_request :: "bytes \<Rightarrow> vmess_request option" where
  "parse_request bs =
     (if length bs < 38 \<or> bs ! 0 \<noteq> 1 then None
      else let padding = unat (drop_bit 4 (bs ! 35)); body = take (length bs - 4) bs in
        case decode_address_vmess (drop 38 bs) of
          Ok (a, r) \<Rightarrow>
            if length r = padding + 4 \<and> drop padding r = request_checksum body \<and> bs ! 37 \<in> {1, 2} then
              Some \<lparr>rq_iv = take 16 (drop 1 bs), rq_key = take 16 (drop 17 bs), rq_respv = bs ! 33,
                    rq_option = bs ! 34, rq_security = bs ! 35 AND 15, rq_udp = (bs ! 37 = 2), rq_addr = a\<rparr>
            else None
        | _ \<Rightarrow> None)"

lemma seal_open:
  assumes "aead_ok lib" "length msg < 2 ^ 32" "length pad = 16"
  shows "\<exists>c t. length c = length msg + 16 \<and> length t = 16 \<and>
    encrypt_inplace_with_slice lib k key nonce aad (msg @ pad) = Ok c \<and>
    decrypt_inplace_with_slice lib k key nonce aad c = Ok (True, msg @ t)"
proof -
  from assms obtain c t where "seal lib k key nonce aad msg = Some (c, t)" "length c = length msg"
    "length t = 16" "unseal lib k key nonce aad c t = (True, msg)" unfolding aead_ok_def by metis
  with assms(3) show ?thesis
    by (intro exI [of _ "c @ t"] exI [of _ t])
      (simp add: encrypt_inplace_with_slice_def decrypt_inplace_with_slice_def)
qed

lemma seal_vmess_aead_header_opens:
  assumes ok: "aead_ok (aead_lib.truncate lib)" "\<forall>k b. length (aes128 lib k b) = 16"
    and len: "length data < 65536"
    and s: "seal_vmess_aead_header lib now cmd_key data rng = Some (x, rng')"
  shows "\<exists>hdr. x = Ok hdr \<and> hdr \<noteq> [] \<and> open_request lib cmd_key (hdr @ rest) = Some (data, rest)"
proof -
  obtain auth rng1 nonce rng2 where a: "create_auth_id lib cmd_key (to_be 8 (unat now)) rng = Some (auth, rng1)"
    and n: "random_iv_or_salt 8 rng1 = Some (nonce, rng2)"
    using s by (auto simp: seal_vmess_aead_header_def Let_def split: option.splits)
  have la: "length auth = 16" using a ok(2)
    by (auto simp: create_auth_id_def Let_def split: option.splits)
  have ln: "length nonce = 8" using random_iv_or_salt_Some [OF n] by simp
  let ?kdf = "\<lambda>salt. vmess_kdf_3_one_shot (lib_hmac lib) cmd_key salt auth nonce"
  let ?len = "put_u16 (of_nat (length data)) :: bytes"
  let ?lk = "take 16 (?kdf KDF_SALT_CONST_VMESS_HEADER_PAYLOAD_LENGTH_AEAD_KEY)"
    and ?li = "take 12 (?kdf KDF_SALT_CONST_VMESS_HEADER_PAYLOAD_LENGTH_AEAD_IV)"
    and ?pk = "take 16 (?kdf KDF_SALT_CONST_VMESS_HEADER_PAYLOAD_AEAD_KEY)"
    and ?pi = "take 12 (?kdf KDF_SALT_CONST_VMESS_HEADER_PAYLOAD_AEAD_IV)"
  have l2: "length ?len = 2" "?len = to_be 2 (length data)" using len by (simp_all add: put_u16_def unat_of_nat)
  then have ol: "of_be ?len = length data" using len by (simp add: of_be_to_be)
  obtain c t where c: "length c = 18"
    "encrypt_inplace_with_slice (aead_lib.truncate lib) Aes128Gcm ?lk ?li auth (?len @ replicate 16 0) = Ok c"
    "decrypt_inplace_with_slice (aead_lib.truncate lib) Aes128Gcm ?lk ?li auth c = Ok (True, ?len @ t)"
    using seal_open [OF ok(1), of ?len "replicate 16 0" Aes128Gcm ?lk ?li auth] l2 by auto
  obtain d u where d: "length d = length data + 16"
    "encrypt_inplace_with_slice (aead_lib.truncate lib) Aes128Gcm ?pk ?pi auth (data @ replicate 16 0) = Ok d"
    "decrypt_inplace_with_slice (aead_lib.truncate lib) Aes128Gcm ?pk ?pi auth d = Ok (True, data @ u)"
    using seal_open [OF ok(1), of data "replicate 16 0" Aes128Gcm ?pk ?pi auth] len by auto
  have x: "x = Ok (auth @ c @ nonce @ d)"
    using s a n c(2) d(2) by (simp add: seal_vmess_aead_header_def AES_128_GCM_TAG_LEN_def Let_def)
  have p: "take 16 (auth @ c @ nonce @ d @ rest) = auth" "take 18 (drop 16 (auth @ c @ nonce @ d @ rest)) = c"
    "take 8 (drop 34 (auth @ c @ nonce @ d @ rest)) = nonce" "take 2 (?len @ t) = ?len"
    "take (length data + 16) (drop 42 (auth @ c @ nonce @ d @ rest)) = d"
    "drop (length data + 58) (auth @ c @ nonce @ d @ rest) = rest"
    using la ln c(1) d(1) l2(1) by simp_all
  have "open_request lib cmd_key (auth @ c @ nonce @ d @ rest) = Some (data, rest)"
    unfolding open_request_def Let_def p c(3) by (simp only: res.case prod.case p(4) ol p(5,6) d(3)) simp
  moreover have "auth \<noteq> []" using la by auto
  ultimately show ?thesis using x by simp
qed

lemma nibbles:
  fixes y s :: u8
  assumes "s \<in> {3, 4}"
  shows "drop_bit 4 (push_bit 4 (y mod 16) OR s) = y mod 16 \<and> (push_bit 4 (y mod 16) OR s) AND 15 = s \<and>
    unat (y mod 16) < 16"
proof -
  have "unat (y mod 16) < 16" by (simp add: unat_mod)
  then have "y mod 16 \<in> of_nat ` {..<16}" by (intro image_eqI [of _ _ "unat (y mod 16)"]) simp_all
  then have "y mod 16 \<in> {0, 1, 2, 3, 4, 5, 6, 7, 8, 9, 10, 11, 12, 13, 14, 15}"
    by (auto simp: lessThan_nat_numeral lessThan_Suc eval_nat_numeral)
  with assms \<open>unat (y mod 16) < 16\<close> show ?thesis by (elim insertE emptyE) simp_all
qed

lemma request_padding_Some:
  "request_padding x rng = Some (p, rng') \<Longrightarrow> unat x \<le> 16 \<Longrightarrow> length p = unat x"
  by (auto simp: request_padding_def word_gt_0 dest!: random_iv_or_salt_Some
      split: if_splits option.splits)

lemma length_request_checksum [simp]: "length (request_checksum b) = 4"
  by (simp add: request_checksum_def)

lemma parse_request_fields:
  assumes sec: "vo_security_num opt \<in> {3, 4}" and a: "wire_ok (vo_addr opt)" and s: "32 \<le> length salt"
    and p: "length padding = unat (y mod 16)"
    and buf_def: "buf = request_fields salt respv opt (y mod 16) @ padding"
  shows "parse_request (buf @ request_checksum buf) =
    Some \<lparr>rq_iv = req_body_iv salt, rq_key = req_body_key salt, rq_respv = respv, rq_option = 1,
          rq_security = vo_security_num opt, rq_udp = vo_is_udp opt, rq_addr = vo_addr opt\<rparr>"
proof -
  let ?ps = "push_bit 4 (y mod 16) OR vo_security_num opt"
  let ?cmd = "if vo_is_udp opt then 2 else 1 :: u8"
  let ?bs = "buf @ request_checksum buf"
  let ?tail = "encode_address_vmess (vo_addr opt) @ padding @ request_checksum buf"
  have iv: "length (req_body_iv salt) = 16" "length (req_body_key salt) = 16"
    using s by (simp_all add: req_body_iv_def req_body_key_def)
  have bs: "?bs = (1 # req_body_iv salt @ req_body_key salt @ [respv, 1, ?ps, 0, ?cmd]) @ ?tail"
    by (simp add: buf_def request_fields_def write_to_buf_vmess_append VERSION_def OPT_CHUNK_STREAM_def
        COMMAND_UDP_def COMMAND_TCP_def)
  have parts: "\<not> length ?bs < 38" "?bs ! 0 = 1" "take 16 (drop 1 ?bs) = req_body_iv salt"
    "take 16 (drop 17 ?bs) = req_body_key salt" "drop 38 ?bs = ?tail"
    unfolding bs using iv by (simp_all add: drop_Cons')
  have "drop 33 ?bs = [respv, 1, ?ps, 0, ?cmd] @ ?tail"
    unfolding bs using iv by (simp add: drop_Cons')
  moreover have "?bs ! (33 + k) = drop 33 ?bs ! k" for k using parts(1) by (subst nth_drop) simp_all
  ultimately have at: "?bs ! 33 = respv" "?bs ! 34 = 1" "?bs ! 35 = ?ps" "?bs ! 37 = ?cmd"
    by (metis add_0_right append_Cons nth_Cons_0, simp_all add: eval_nat_numeral)
  have d: "decode_address_vmess (drop 38 ?bs) = Ok (vo_addr opt, padding @ request_checksum buf)"
    unfolding parts(5) by (rule decode_encode_address_vmess [OF a])
  have "take (length ?bs - 4) ?bs = buf" by simp
  with parts at d nibbles [OF sec, of y] p show ?thesis by (simp add: parse_request_def Let_def)
qed

lemma wire_ok_vmess_length: "wire_ok a \<Longrightarrow> length (encode_address_vmess a) \<le> 259"
  by (cases a rule: wire_ok.cases) (auto simp: encode_address_vmess_def put_u16_def)

text \<open>What a new connection sends first opens, under the user's key, to the request it stands for.\<close>

lemma vmess_stream_new_request:
  assumes ok: "aead_ok (aead_lib.truncate lib)" "\<forall>k b. length (aes128 lib k b) = 16"
      "\<forall>x. length (sha256 x) = 32"
    and new: "vmess_stream_new lib md5 sha256 now opt io rng = Some (Ok v, rng')"
    and a: "wire_ok (vo_addr opt)"
  shows "\<exists>data. open_request lib (md5 (vo_uuid opt @ as_bytes ''c48619fe-8f02-49e0-b9e9-edf763e17e21''))
      (vt_header_buffer v @ rest) = Some (data, rest) \<and>
    parse_request data =
      Some \<lparr>rq_iv = req_body_iv (vt_salt v), rq_key = req_body_key (vt_salt v), rq_respv = vt_respv v,
            rq_option = 1, rq_security = vo_security_num opt, rq_udp = vo_is_udp opt,
            rq_addr = vo_addr opt\<rparr>"
proof -
  note n = vmess_stream_new_Ok [OF ok(3) new]
  have sec: "vo_security_num opt \<in> {3, 4}"
    using n by (auto dest!: vmess_securities_Ok [OF conjunct1]
        simp: AES_128_GCM_SECURITY_NUM_def CHACHA20POLY1305_SECURITY_NUM_def)
  obtain v0 rng0 where h: "construct_header_data lib md5 now rng0 v0 = Some (Ok v, rng')"
    using new by (auto simp: vmess_stream_new_def Let_def split: option.splits res.splits prod.splits)
  note f = construct_header_data_Ok [OF h]
  obtain y rng1 padding rng2 where p: "request_padding (y mod 16) rng1 = Some (padding, rng2)"
    and s: "seal_vmess_aead_header lib now
        (md5 (vo_uuid opt @ as_bytes ''c48619fe-8f02-49e0-b9e9-edf763e17e21''))
        ((request_fields (vt_salt v) (vt_respv v) opt (y mod 16) @ padding) @
         request_checksum (request_fields (vt_salt v) (vt_respv v) opt (y mod 16) @ padding)) rng2 =
      Some (Ok (vt_header_buffer v), rng')"
    using h f n by (auto simp: construct_header_data_def Let_def res_simps split: option.splits prod.splits)
  have u: "unat (y mod 16) < 16" using nibbles [OF sec] by blast
  then have lp: "length padding = unat (y mod 16)" using request_padding_Some [OF p] by simp
  let ?buf = "request_fields (vt_salt v) (vt_respv v) opt (y mod 16) @ padding"
  have "length ?buf < 65000"
    using lp u wire_ok_vmess_length [OF a]
    by (simp add: request_fields_def write_to_buf_vmess_append req_body_iv_def req_body_key_def)
  then have "length (?buf @ request_checksum ?buf) < 65536" by simp
  from seal_vmess_aead_header_opens [OF ok(1,2) this s, of rest] 
  have "open_request lib (md5 (vo_uuid opt @ as_bytes ''c48619fe-8f02-49e0-b9e9-edf763e17e21''))
      (vt_header_buffer v @ rest) = Some (?buf @ request_checksum ?buf, rest)" by auto
  moreover have "32 \<le> length (vt_salt v)" using n by simp
  ultimately show ?thesis using parse_request_fields [OF sec a _ lp refl] by blast
qed

end
