(* ===== verification/Chain.thy ===== *)
theory Chain
  imports Config_Types
begin

text \<open>
  Proxy chains: \<open>ChainStreamBuilder\<close> of \<open>src/proxy/mod.rs\<close>, the protocol iterator of
  \<open>src/proxy/utils/mod.rs\<close>, and the construction of the chains from the configuration in
  \<open>src/config/mod.rs\<close>.
\<close>

section \<open>The protocol iterator\<close>

text \<open>
  \<open>next\<close> is a generator: \<open>pi_state\<close> says where it resumes, at the start, inside the loop, or
  after its return.
\<close>

datatype iter_state = IterStart | IterLoop | IterDone

record protocol_iter =
  pi_builders :: "stream_builder list"
  pi_ty :: "protocol_type option"
  pi_pos :: nat
  pi_state :: iter_state

definition protocol_iter_new :: "stream_builder list \<Rightarrow> proto_config option \<Rightarrow> protocol_iter" where
  "protocol_iter_new builders last_builder =
     \<lparr>pi_builders = builders, pi_ty = map_option get_protocol_type last_builder,
      pi_pos = length builders, pi_state = IterStart\<rparr>"

definition iter_loop :: "protocol_iter \<Rightarrow> protocol_type option \<times> protocol_iter" where
  "iter_loop it =
     (if pi_pos it \<noteq> 0
      then (Some (builder_protocol_type (pi_builders it ! (pi_pos it - 1))),
            it\<lparr>pi_pos := pi_pos it - 1, pi_state := IterLoop\<rparr>)
      else (None, it\<lparr>pi_state := IterDone\<rparr>))"

definition iter_next :: "protocol_iter \<Rightarrow> protocol_type option \<times> protocol_iter" where
  "iter_next it =
     (case pi_state it of
        IterStart \<Rightarrow>
          (case pi_ty it of
             Some ty \<Rightarrow> (Some ty, it\<lparr>pi_state := IterLoop\<rparr>)
           | None \<Rightarrow> iter_loop it)
      | IterLoop \<Rightarrow> iter_loop it
      | IterDone \<Rightarrow> (None, it))"

function iter_collect :: "protocol_iter \<Rightarrow> protocol_type list" where
  "iter_collect it = (case iter_next it of (Some ty, it) \<Rightarrow> ty # iter_collect it | (None, it) \<Rightarrow> [])"
  by pat_completeness auto
termination
  by (relation "measure (\<lambda>it. pi_pos it + (if pi_state it = IterStart then 1 else 0))")
    (auto simp: iter_next_def iter_loop_def split: iter_state.splits option.splits if_splits)

declare iter_collect.simps [simp del]

lemma iter_collect_loop:
  "pi_state it = IterLoop \<Longrightarrow> pi_pos it \<le> length (pi_builders it) \<Longrightarrow>
     iter_collect it = rev (map builder_protocol_type (take (pi_pos it) (pi_builders it)))"
proof (induction "pi_pos it" arbitrary: it)
  case 0
  then show ?case by (simp add: iter_collect.simps [of it] iter_next_def iter_loop_def)
next
  case (Suc n)
  let ?it = "it\<lparr>pi_pos := n, pi_state := IterLoop\<rparr>"
  have "iter_collect ?it = rev (map builder_protocol_type (take n (pi_builders it)))"
    using Suc.hyps(1) [of ?it] Suc by simp
  moreover have "take (Suc n) (pi_builders it) = take n (pi_builders it) @ [pi_builders it ! n]"
    using Suc.prems(2) Suc.hyps(2) [symmetric] by (simp add: take_Suc_conv_app_nth)
  ultimately show ?case
    using Suc.prems(1) by (simp add: iter_collect.simps [of it] iter_next_def iter_loop_def flip: Suc.hyps(2))
qed

text \<open>The iterator yields the protocols of the chain from its last hop to its first.\<close>

lemma iter_collect_new:
  "iter_collect (protocol_iter_new bs l) =
     (case l of None \<Rightarrow> [] | Some c \<Rightarrow> [get_protocol_type c]) @ rev (map builder_protocol_type bs)"
proof -
  let ?it = "protocol_iter_new bs l"
  let ?loop = "?it\<lparr>pi_state := IterLoop\<rparr>"
  have loop: "iter_collect ?loop = rev (map builder_protocol_type bs)"
    using iter_collect_loop [of ?loop] by (simp add: protocol_iter_new_def)
  show ?thesis
  proof (cases l)
    case None
    have "iter_next ?it = iter_next ?loop"
      using None by (auto simp: iter_next_def iter_loop_def protocol_iter_new_def)
    then have "iter_collect ?it = iter_collect ?loop"
      by (simp only: iter_collect.simps [of ?it] iter_collect.simps [of ?loop])
    with loop None show ?thesis by simp
  next
    case (Some c)
    have "iter_next ?it = (Some (get_protocol_type c), ?loop)"
      using Some by (simp add: iter_next_def protocol_iter_new_def)
    then have "iter_collect ?it = get_protocol_type c # iter_collect ?loop"
      by (simp only: iter_collect.simps [of ?it] prod.case option.case)
    with loop Some show ?thesis by simp
  qed
qed

section \<open>Markers\<close>

fun udp_marks :: "bool \<Rightarrow> protocol_type list \<Rightarrow> bool list" where
  "udp_marks seen [] = []"
| "udp_marks seen (ty # tys) =
     (if is_uot ty \<and> \<not> seen then False # udp_marks True tys else seen # udp_marks seen tys)"

definition build_udp_marker_impl :: "bool list \<Rightarrow> protocol_type list \<Rightarrow> bool list" where
  "build_udp_marker_impl bit_vec tys = rev (bit_vec @ udp_marks False tys)"

lemma length_udp_marks [simp]: "length (udp_marks seen tys) = length tys"
  by (induction tys arbitrary: seen) auto

lemma udp_marks_nth:
  "i < length tys \<Longrightarrow> udp_marks seen tys ! i \<longleftrightarrow> seen \<or> (\<exists>j < i. is_uot (tys ! j))"
proof (induction tys arbitrary: seen i)
  case (Cons ty tys)
  show ?case
  proof (cases i)
    case (Suc k)
    with Cons show ?thesis by (auto simp: less_Suc_eq_0_disj)
  qed (use Cons in auto)
qed simp

text \<open>A hop builds plain TCP exactly when a later hop carries UDP over TCP.\<close>

lemma build_udp_marker_impl_nth:
  assumes "i < length tys"
  shows "build_udp_marker_impl [] (rev tys) ! i \<longleftrightarrow> (\<exists>j. i < j \<and> j < length tys \<and> is_uot (tys ! j))"
proof -
  let ?k = "length tys - 1 - i"
  have "build_udp_marker_impl [] (rev tys) ! i = udp_marks False (rev tys) ! ?k"
    using assms by (simp add: build_udp_marker_impl_def rev_nth)
  also have "\<dots> \<longleftrightarrow> (\<exists>j < ?k. is_uot (rev tys ! j))"
    using assms by (simp add: udp_marks_nth)
  also have "\<dots> \<longleftrightarrow> (\<exists>j. i < j \<and> j < length tys \<and> is_uot (tys ! j))"
  proof
    assume "\<exists>j < ?k. is_uot (rev tys ! j)"
    then obtain j where "j < ?k" "is_uot (rev tys ! j)" by blast
    then show "\<exists>j. i < j \<and> j < length tys \<and> is_uot (tys ! j)"
      using assms by (intro exI [of _ "length tys - Suc j"]) (auto simp: rev_nth)
  next
    assume "\<exists>j. i < j \<and> j < length tys \<and> is_uot (tys ! j)"
    then obtain j where "i < j" "j < length tys" "is_uot (tys ! j)" by blast
    then show "\<exists>j < ?k. is_uot (rev tys ! j)"
      by (intro exI [of _ "length tys - Suc j"]) (auto simp: rev_nth)
  qed
  finally show ?thesis .
qed

section \<open>The chain builder\<close>

record chain =
  ch_builders :: "stream_builder list"
  remote_addr :: "address option"
  last_udp_addr :: "address option"
  build_udp_marker :: "bool list"
  last_builder :: "proto_config option"
  is_full_cone :: bool
  is_black_hole :: bool

definition chain_new :: chain where
  "chain_new = \<lparr>ch_builders = [], remote_addr = None, last_udp_addr = None, build_udp_marker = [],
     last_builder = None, is_full_cone = True, is_black_hole = False\<rparr>"

fun position_of :: "('a \<Rightarrow> bool) \<Rightarrow> 'a list \<Rightarrow> nat option" where
  "position_of P [] = None"
| "position_of P (x # xs) = (if P x then Some 0 else map_option Suc (position_of P xs))"

definition build_inner_markers :: "chain \<Rightarrow> chain res" where
  "build_inner_markers c =
     (let tys = iter_collect (protocol_iter_new (ch_builders c) (last_builder c));
          c = c\<lparr>is_black_hole := list_ex (\<lambda>x. x = Blackhole) tys,
                build_udp_marker := build_udp_marker_impl (build_udp_marker c) tys\<rparr>
      in case position_of is_uot tys of
           Some idx \<Rightarrow>
             if idx = 0 then Ok c
             else if idx \<le> length (ch_builders c)
             then Ok (c\<lparr>last_udp_addr := builder_addr (ch_builders c ! (length (ch_builders c) - idx))\<rparr>)
             else Panic
         | None \<Rightarrow> Ok (c\<lparr>last_udp_addr := remote_addr c\<rparr>))"

definition remote_addr_is_none :: "chain \<Rightarrow> bool" where
  "remote_addr_is_none c \<longleftrightarrow> remote_addr c = None"

definition push_remote_addr :: "address \<Rightarrow> chain \<Rightarrow> chain" where
  "push_remote_addr a c = c\<lparr>remote_addr := Some a\<rparr>"

definition push_last_builder :: "proto_config \<Rightarrow> chain \<Rightarrow> chain" where
  "push_last_builder b c = c\<lparr>last_builder := Some b\<rparr>"

definition push_builder :: "stream_builder \<Rightarrow> chain \<Rightarrow> chain" where
  "push_builder b c = c\<lparr>ch_builders := ch_builders c @ [b]\<rparr>"

text \<open>
  The network is a parameter: connecting a TCP or a UDP socket, and what each stream builder does
  to the stream below it. \<open>net_tls\<close> is what a TLS builder made while connecting would find.
\<close>

record 'io network =
  net_tls :: tls_env
  connect_tcp :: "address \<Rightarrow> 'io res"
  connect_udp :: "address \<Rightarrow> 'io res"
  hop_tcp :: "stream_builder \<Rightarrow> 'io \<Rightarrow> 'io res"
  hop_udp :: "stream_builder \<Rightarrow> bool \<Rightarrow> 'io \<Rightarrow> 'io res"

fun run_hops :: "('b \<Rightarrow> 'io \<Rightarrow> 'io res) \<Rightarrow> 'b list \<Rightarrow> 'io \<Rightarrow> 'io res" where
  "run_hops f [] io = Ok io"
| "run_hops f (b # bs) io = bind_res (f b io) (run_hops f bs)"

definition build_tcp :: "'io network \<Rightarrow> chain \<Rightarrow> address \<Rightarrow> 'io res" where
  "build_tcp N c proxy_addr =
     (if is_black_hole c then Err (new_error ''block connection'')
      else bind_res (connect_tcp N (case remote_addr c of Some r \<Rightarrow> r | None \<Rightarrow> proxy_addr)) (\<lambda>io.
           bind_res (run_hops (hop_tcp N) (ch_builders c) io) (\<lambda>io.
             case last_builder c of
               Some b \<Rightarrow> bind_res (to_chainable_stream_builder (net_tls N) b (Some proxy_addr)) (\<lambda>b. hop_tcp N b io)
             | None \<Rightarrow> Ok io)))"

definition build_udp :: "'io network \<Rightarrow> chain \<Rightarrow> address \<Rightarrow> 'io res" where
  "build_udp N c proxy_addr =
     (if is_black_hole c then Err (new_error ''block connection'')
      else
        (let target = (case remote_addr c of Some r \<Rightarrow> r | None \<Rightarrow> proxy_addr) in
         bind_res (case build_udp_marker c of
                     [] \<Rightarrow> Panic
                   | m # ms \<Rightarrow> if m then connect_tcp N target else connect_udp N target) (\<lambda>io.
         bind_res (run_hops (\<lambda>(b, m). hop_udp N b m) (zip (ch_builders c) (build_udp_marker c)) io) (\<lambda>io.
           case last_builder c of
             Some b \<Rightarrow>
               bind_res (to_chainable_stream_builder (net_tls N) b
                           (if is_uot (get_protocol_type b) then Some proxy_addr else last_udp_addr c))
                 (\<lambda>sb. hop_udp N sb (last (build_udp_marker c)) io)
           | None \<Rightarrow> Ok io))))"

end
