(* ===== verification/Insert_Order_Map.thy ===== *)
theory Insert_Order_Map
  imports Prelude
begin

text \<open>
  \<open>src/config/utils.rs\<close>: \<open>KeepInsertOrderMap\<close>, a vector of entries with an index from key to
  position, and the interface its clients rely on: an insertion-ordered map in which the first
  insertion of a key wins and updates keep the order.
\<close>

section \<open>The map\<close>

record 'v kmap =
  kdata :: "(string \<times> 'v) list"
  korder :: "string \<rightharpoonup> nat"

definition kmap_new :: "'v kmap" where
  "kmap_new = \<lparr>kdata = [], korder = Map.empty\<rparr>"

definition kmap_insert :: "string \<Rightarrow> 'v \<Rightarrow> 'v kmap \<Rightarrow> 'v kmap" where
  "kmap_insert key v m =
     (if korder m key = None
      then m\<lparr>korder := (korder m)(key \<mapsto> length (kdata m)), kdata := kdata m @ [(key, v)]\<rparr>
      else m)"

text \<open>\<open>get_mut\<close> hands out a reference: a value to read, and a place to store an update.\<close>

definition kmap_get :: "'v kmap \<Rightarrow> string \<Rightarrow> 'v option res" where
  "kmap_get m k =
     (case korder m k of
        Some idx \<Rightarrow> if idx < length (kdata m) then Ok (Some (snd (kdata m ! idx))) else Panic
      | None \<Rightarrow> Ok None)"

definition kmap_get_mut :: "'v kmap \<Rightarrow> string \<Rightarrow> ('v \<Rightarrow> 'v) \<Rightarrow> 'v kmap res" where
  "kmap_get_mut m k f =
     (case korder m k of
        Some idx \<Rightarrow>
          if idx < length (kdata m)
          then Ok (m\<lparr>kdata := (kdata m)[idx := (fst (kdata m ! idx), f (snd (kdata m ! idx)))]\<rparr>)
          else Panic
      | None \<Rightarrow> Ok m)"

definition contains_key :: "'v kmap \<Rightarrow> string \<Rightarrow> bool" where
  "contains_key m k \<longleftrightarrow> korder m k \<noteq> None"

definition kmap_into_iter :: "'v kmap \<Rightarrow> (string \<times> 'v) list" where
  "kmap_into_iter m = kdata m"

definition kmap_iter_mut :: "('v \<Rightarrow> 'v) \<Rightarrow> 'v kmap \<Rightarrow> 'v kmap" where
  "kmap_iter_mut f m = m\<lparr>kdata := map (\<lambda>(k, v). (k, f v)) (kdata m)\<rparr>"

section \<open>The interface\<close>

text \<open>The keys a sequence adds, in the order of their first occurrence, and the value of each.\<close>

fun new_keys :: "'k list \<Rightarrow> 'k list \<Rightarrow> 'k list" where
  "new_keys seen [] = []"
| "new_keys seen (k # ks) =
     (if k \<in> set seen then new_keys seen ks else k # new_keys (seen @ [k]) ks)"

fun value_after :: "('k \<times> 'v \<times> ('v \<Rightarrow> 'v)) list \<Rightarrow> ('k \<rightharpoonup> 'v) \<Rightarrow> 'k \<rightharpoonup> 'v" where
  "value_after [] M = M"
| "value_after ((k, v, f) # us) M =
     value_after us (M(k \<mapsto> f (case M k of Some x \<Rightarrow> x | None \<Rightarrow> v)))"

lemma set_new_keys: "set (new_keys seen ks) = set ks - set seen"
  by (induction ks arbitrary: seen) auto

lemma find_new_keys:
  "(\<And>k. k \<in> set seen \<Longrightarrow> \<not> P k) \<Longrightarrow> find P (new_keys seen ks) = find P ks"
proof (induction ks arbitrary: seen)
  case (Cons a ks)
  show ?case
  proof (cases "a \<in> set seen \<or> P a")
    case False
    with Cons.prems have "find P (new_keys (seen @ [a]) ks) = find P ks"
      by (intro Cons.IH) auto
    with False show ?thesis by simp
  qed (use Cons in auto)
qed simp

lemma value_after_other: "k \<notin> fst ` set us \<Longrightarrow> value_after us M k = M k"
  by (induction us M rule: value_after.induct) auto

lemma value_after_Some:
  "M k = Some v \<Longrightarrow>
     value_after us M k = Some (fold (\<lambda>(k', w, f) x. if k' = k then f x else x) us v)"
  by (induction us M arbitrary: v rule: value_after.induct) auto

lemma value_after_None:
  "k \<in> fst ` set us \<Longrightarrow> M k = None \<Longrightarrow>
     \<exists>v f. (k, v, f) \<in> set us \<and>
       value_after us M k = Some (fold (\<lambda>(k', w, f) x. if k' = k then f x else x) us v)"
proof (induction us M rule: value_after.induct)
  case (1 M)
  then show ?case by simp
next
  case (2 k' v f us M)
  show ?case
  proof (cases "k' = k")
    case True
    with 2(3) value_after_Some [of "M(k \<mapsto> f v)" k "f v" us] show ?thesis by auto
  next
    case False
    with 2(2,3) have "k \<in> fst ` set us" "(M(k' \<mapsto> f (case M k' of Some x \<Rightarrow> x | None \<Rightarrow> v))) k = None"
      by auto
    from 2(1) [OF this] obtain w g where "(k, w, g) \<in> set us"
      "value_after us (M(k' \<mapsto> f (case M k' of Some x \<Rightarrow> x | None \<Rightarrow> v))) k =
       Some (fold (\<lambda>(k', w, f) x. if k' = k then f x else x) us w)" by blast
    with False show ?thesis
      by (intro exI [of _ w] exI [of _ g]) (simp only: value_after.simps fold_simps, simp)
  qed
qed

text \<open>
  An insertion-ordered map, seen as the association list \<open>entries\<close> with distinct keys.
\<close>

locale ordered_map =
  fixes empty :: 'm
    and insert :: "string \<Rightarrow> 'v \<Rightarrow> 'm \<Rightarrow> 'm"
    and modify :: "'m \<Rightarrow> string \<Rightarrow> ('v \<Rightarrow> 'v) \<Rightarrow> 'm res"
    and member :: "'m \<Rightarrow> string \<Rightarrow> bool"
    and entries :: "'m \<Rightarrow> (string \<times> 'v) list"
    and invar :: "'m \<Rightarrow> bool"
  assumes empty_invar: "invar empty" and empty_entries: "entries empty = []"
    and distinct_entries: "invar m \<Longrightarrow> distinct (map fst (entries m))"
    and member_iff: "invar m \<Longrightarrow> member m k \<longleftrightarrow> k \<in> fst ` set (entries m)"
    and insert_invar: "invar m \<Longrightarrow> invar (insert k v m)"
    and insert_entries: "invar m \<Longrightarrow>
      entries (insert k v m) = (if member m k then entries m else entries m @ [(k, v)])"
    and modify_ok: "invar m \<Longrightarrow> \<exists>m'. modify m k f = Ok m' \<and> invar m' \<and>
      entries m' = map (\<lambda>(k', v). (k', if k' = k then f v else v)) (entries m)"
begin

text \<open>Update the entry of a key, or create it: the way the router collects the rules of a tag.\<close>

definition upsert :: "string \<Rightarrow> 'v \<Rightarrow> ('v \<Rightarrow> 'v) \<Rightarrow> 'm \<Rightarrow> 'm res" where
  "upsert k v f m = (if member m k then modify m k f else Ok (insert k (f v) m))"

definition value_of :: "'m \<Rightarrow> string \<Rightarrow> 'v option" where
  "value_of m k = map_of (entries m) k"

lemma map_of_map_entry:
  "map_of (map (\<lambda>(k', v). (k', if k' = k then f v else v)) es) x =
     (if x = k then map_option f (map_of es x) else map_of es x)"
  by (induction es) auto

lemma upsert_ok:
  assumes "invar m"
  shows "\<exists>m'. upsert k v f m = Ok m' \<and> invar m' \<and>
    map fst (entries m') = map fst (entries m) @ (if member m k then [] else [k]) \<and>
    value_of m' = (value_of m)(k \<mapsto> f (case value_of m k of Some x \<Rightarrow> x | None \<Rightarrow> v))"
proof (cases "member m k")
  case True
  from modify_ok [OF assms] obtain m' where m': "modify m k f = Ok m'" "invar m'"
      "entries m' = map (\<lambda>(k', v). (k', if k' = k then f v else v)) (entries m)"
    by blast
  from True have "k \<in> fst ` set (entries m)" using member_iff [OF assms] by simp
  then obtain x where "map_of (entries m) k = Some x" by (metis map_of_eq_None_iff option.exhaust)
  moreover have "map fst (entries m') = map fst (entries m)"
    by (simp add: m'(3) comp_def case_prod_unfold)
  ultimately show ?thesis
    using True m' by (auto simp: upsert_def value_of_def map_of_map_entry fun_eq_iff)
next
  case False
  then have "map_of (entries m) k = None" using member_iff [OF assms] by (simp add: map_of_eq_None_iff)
  moreover have "map_of (entries m @ [(k, f v)]) x = (if x = k \<and> map_of (entries m) x = None then Some (f v)
      else map_of (entries m) x)" for x
    by (auto simp: map_add_def split: option.splits)
  ultimately show ?thesis
    using False assms
    by (auto simp: upsert_def value_of_def insert_invar insert_entries fun_eq_iff)
qed

text \<open>A sequence of updates of keyed entries: the order of the keys and the value of each.\<close>

fun upserts :: "(string \<times> 'v \<times> ('v \<Rightarrow> 'v)) list \<Rightarrow> 'm \<Rightarrow> 'm res" where
  "upserts [] m = Ok m"
| "upserts ((k, v, f) # us) m = bind_res (upsert k v f m) (upserts us)"

lemma upserts_append: "upserts (us @ vs) m = bind_res (upserts us m) (upserts vs)"
proof (induction us arbitrary: m)
  case (Cons u us)
  have "upserts (us @ vs) = (\<lambda>m. bind_res (upserts us m) (upserts vs))" using Cons by (intro ext)
  then show ?case by (cases u) (simp add: bind_res_assoc)
qed simp

lemma upserts_ok:
  "invar m \<Longrightarrow> \<exists>m'. upserts us m = Ok m' \<and> invar m' \<and>
     map fst (entries m') = map fst (entries m) @ new_keys (map fst (entries m)) (map fst us) \<and>
     value_of m' = value_after us (value_of m)"
proof (induction us arbitrary: m)
  case Nil
  then show ?case by simp
next
  case (Cons u us)
  obtain k v f where u: "u = (k, v, f)" by (cases u)
  from upsert_ok [OF Cons.prems, of k v f] obtain m1 where m1: "upsert k v f m = Ok m1" "invar m1"
      "map fst (entries m1) = map fst (entries m) @ (if member m k then [] else [k])"
      "value_of m1 = (value_of m)(k \<mapsto> f (case value_of m k of Some x \<Rightarrow> x | None \<Rightarrow> v))"
    by blast
  from Cons.IH [OF m1(2)] obtain m' where "upserts us m1 = Ok m'" "invar m'"
      "map fst (entries m') = map fst (entries m1) @ new_keys (map fst (entries m1)) (map fst us)"
      "value_of m' = value_after us (value_of m1)"
    by blast
  with m1 u member_iff [OF Cons.prems, of k] show ?case by auto
qed

end

section \<open>The implementation\<close>

definition kmap_inv :: "'v kmap \<Rightarrow> bool" where
  "kmap_inv m \<longleftrightarrow> distinct (map fst (kdata m)) \<and>
     (\<forall>k i. korder m k = Some i \<longleftrightarrow> i < length (kdata m) \<and> fst (kdata m ! i) = k)"

lemma kmap_member: "kmap_inv m \<Longrightarrow> contains_key m k \<longleftrightarrow> k \<in> fst ` set (kdata m)"
proof
  assume inv: "kmap_inv m"
  { assume "contains_key m k"
    then obtain i where "korder m k = Some i" by (auto simp: contains_key_def)
    with inv show "k \<in> fst ` set (kdata m)" by (auto simp: kmap_inv_def) }
  assume "k \<in> fst ` set (kdata m)"
  then obtain i where "i < length (kdata m)" "fst (kdata m ! i) = k"
    by (auto simp: in_set_conv_nth)
  with inv have "korder m k = Some i" by (simp add: kmap_inv_def)
  then show "contains_key m k" by (simp add: contains_key_def)
qed

lemma kmap_insert_inv:
  assumes "kmap_inv m"
  shows "kmap_inv (kmap_insert k v m)"
proof (cases "contains_key m k")
  case True
  with assms show ?thesis by (auto simp: kmap_insert_def contains_key_def)
next
  case False
  then have "k \<notin> fst ` set (kdata m)" using kmap_member [OF assms] by simp
  then have "i < length (kdata m) \<Longrightarrow> fst (kdata m ! i) \<noteq> k" for i by force
  with False assms \<open>k \<notin> fst ` set (kdata m)\<close> show ?thesis
    by (auto simp: kmap_insert_def contains_key_def kmap_inv_def nth_append less_Suc_eq split: if_splits)
qed

lemma kmap_get_mut_ok:
  assumes "kmap_inv m"
  shows "\<exists>m'. kmap_get_mut m k f = Ok m' \<and> kmap_inv m' \<and>
    kdata m' = map (\<lambda>(k', v). (k', if k' = k then f v else v)) (kdata m)"
proof (cases "korder m k")
  case None
  with assms have "\<And>e. e \<in> set (kdata m) \<Longrightarrow> fst e \<noteq> k"
    using kmap_member [of m k] by (auto simp: contains_key_def)
  with None assms show ?thesis
    by (auto simp: kmap_get_mut_def case_prod_unfold intro!: map_idI [symmetric])
next
  case (Some i)
  with assms have i: "i < length (kdata m)" "fst (kdata m ! i) = k" by (auto simp: kmap_inv_def)
  let ?d = "(kdata m)[i := (fst (kdata m ! i), f (snd (kdata m ! i)))]"
  have d: "?d = map (\<lambda>(k', v). (k', if k' = k then f v else v)) (kdata m)"
  proof (rule nth_equalityI)
    fix j assume "j < length ?d"
    then have j: "j < length (kdata m)" by simp
    have "fst (kdata m ! j) = k \<longleftrightarrow> j = i"
      using assms i j by (auto simp: kmap_inv_def distinct_conv_nth)
    with i j show "?d ! j = map (\<lambda>(k', v). (k', if k' = k then f v else v)) (kdata m) ! j"
      by (auto simp: nth_list_update case_prod_unfold)
  qed simp
  have "map fst ?d = map fst (kdata m)" using d by (simp add: comp_def case_prod_unfold)
  moreover have "fst (?d ! j) = fst (kdata m ! j)" if "j < length (kdata m)" for j
    using that i by (auto simp: nth_list_update)
  ultimately have "kmap_inv (m\<lparr>kdata := ?d\<rparr>)" using assms by (auto simp: kmap_inv_def)
  with Some i d show ?thesis by (simp add: kmap_get_mut_def)
qed

interpretation km: ordered_map kmap_new kmap_insert kmap_get_mut contains_key kmap_into_iter kmap_inv
proof unfold_locales
  fix m :: "'v kmap" and k v
  assume "kmap_inv m"
  then show "kmap_into_iter (kmap_insert k v m) =
      (if contains_key m k then kmap_into_iter m else kmap_into_iter m @ [(k, v)])"
    by (auto simp: kmap_into_iter_def kmap_insert_def contains_key_def)
next
  show "kmap_inv kmap_new" by (simp add: kmap_inv_def kmap_new_def)
next
  fix m :: "'v kmap" assume "kmap_inv m"
  then show "distinct (map fst (kmap_into_iter m))" by (simp add: kmap_inv_def kmap_into_iter_def)
qed (simp_all add: kmap_into_iter_def kmap_member kmap_insert_inv kmap_get_mut_ok, simp add: kmap_new_def)

end
