(* ===== verification/Prefix_Table.thy ===== *)
theory Prefix_Table
  imports Prelude "HOL-Library.Sublist"
begin

text \<open>
  The specification of a longest-prefix-match table: a partial map from bit strings to values,
  the value a key is matched to, and the interface a concrete table promises. The array trie of
  \<open>src/config/ip_trie.rs\<close> implements it (theory \<open>Ip_Trie\<close>).
\<close>

section \<open>Longest prefix match\<close>

fun lpm :: "(bool list \<rightharpoonup> 'v) \<Rightarrow> bool list \<Rightarrow> 'v option" where
  "lpm m [] = m []"
| "lpm m (k # ks) =
     (case lpm (\<lambda>p. m (k # p)) ks of Some v \<Rightarrow> Some v | None \<Rightarrow> m [])"

text \<open>The value of the longest stored prefix of the key, if any prefix is stored.\<close>

lemma lpm_None_iff: "lpm m ks = None \<longleftrightarrow> (\<forall>p. prefix p ks \<longrightarrow> m p = None)"
proof (induction ks arbitrary: m)
  case Nil
  then show ?case by simp
next
  case (Cons k ks)
  have "lpm (\<lambda>p. m (k # p)) ks = None \<longleftrightarrow> (\<forall>p. prefix p ks \<longrightarrow> m (k # p) = None)"
    by (rule Cons)
  then show ?case
    by (cases "lpm (\<lambda>p. m (k # p)) ks") (auto simp: prefix_Cons)
qed

lemma lpm_Some:
  "lpm m ks = Some v \<Longrightarrow>
     \<exists>p. prefix p ks \<and> m p = Some v \<and>
         (\<forall>q. prefix q ks \<and> m q \<noteq> None \<longrightarrow> length q \<le> length p)"
proof (induction ks arbitrary: m)
  case Nil
  then show ?case by simp
next
  case (Cons k ks)
  show ?case
  proof (cases "lpm (\<lambda>p. m (k # p)) ks")
    case None
    with Cons.prems have m: "m [] = Some v" by simp
    from None have "m (k # p) = None" if "prefix p ks" for p
      using that by (simp add: lpm_None_iff)
    with m show ?thesis by (intro exI [of _ "[]"]) (auto simp: prefix_Cons)
  next
    case (Some w)
    with Cons.prems have "w = v" by simp
    with Some Cons.IH [of "\<lambda>p. m (k # p)"] obtain p where
      p: "prefix p ks" "m (k # p) = Some v"
        "\<forall>q. prefix q ks \<and> m (k # q) \<noteq> None \<longrightarrow> length q \<le> length p"
      by auto
    then show ?thesis by (intro exI [of _ "k # p"]) (auto simp: prefix_Cons)
  qed
qed

lemma lpm_eq_Some:
  assumes p: "prefix p ks" "m p = Some v"
    and longest: "\<And>q. prefix q ks \<Longrightarrow> m q \<noteq> None \<Longrightarrow> length q \<le> length p"
  shows "lpm m ks = Some v"
proof -
  from p have "lpm m ks \<noteq> None" by (auto simp: lpm_None_iff)
  then obtain w where w: "lpm m ks = Some w" by auto
  from lpm_Some [OF w] obtain q where
    q: "prefix q ks" "m q = Some w" "\<forall>q'. prefix q' ks \<and> m q' \<noteq> None \<longrightarrow> length q' \<le> length q"
    by blast
  from longest [OF q(1)] q(2,3) p have "length p = length q" by fastforce
  with p(1) q(1) have "p = q" by (auto simp: prefix_def)
  with w p q show ?thesis by simp
qed

text \<open>The last of a list of rules wins among the rules with equal prefixes.\<close>

definition rule_map :: "(bool list \<times> 'v) list \<Rightarrow> bool list \<rightharpoonup> 'v" where
  "rule_map rs = map_of (rev rs)"

lemma rule_map_Nil [simp]: "rule_map [] = Map.empty"
  by (simp add: rule_map_def)

lemma rule_map_snoc [simp]: "rule_map (rs @ [(p, v)]) = (rule_map rs)(p \<mapsto> v)"
  by (simp add: rule_map_def)

section \<open>The interface of a table\<close>

text \<open>
  A table over keys of \<open>width\<close> bits: \<open>bits\<close> reads a key, \<open>absm\<close> is the map a table stands
  for, \<open>nodes\<close> its size, which an insertion grows by at most \<open>grow\<close> and which must stay below
  \<open>limit\<close>.
\<close>

locale prefix_table =
  fixes new :: 't
    and put :: "'t \<Rightarrow> 'k \<Rightarrow> nat \<Rightarrow> 'v \<Rightarrow> 't res"
    and get :: "'t \<Rightarrow> 'k \<Rightarrow> 'v option res option"
    and invar :: "'t \<Rightarrow> bool"
    and absm :: "'t \<Rightarrow> bool list \<rightharpoonup> 'v"
    and bits :: "'k \<Rightarrow> bool list"
    and storable :: "'v \<Rightarrow> bool"
    and nodes :: "'t \<Rightarrow> nat"
    and width :: nat
    and grow :: nat
    and limit :: nat
  assumes new_invar: "invar new"
    and new_abs: "absm new = Map.empty"
    and put_correct: "invar t \<Longrightarrow> 1 \<le> n \<Longrightarrow> n \<le> width \<Longrightarrow> storable v \<Longrightarrow> nodes t + grow < limit \<Longrightarrow>
      \<exists>t'. put t k n v = Ok t' \<and> invar t' \<and> absm t' = (absm t)(take n (bits k) \<mapsto> v) \<and>
           nodes t' \<le> nodes t + grow"
    and get_correct: "invar t \<Longrightarrow> get t k = Some (Ok (lpm (absm t) (bits k)))"
begin

fun put_all :: "('k \<times> nat \<times> 'v) list \<Rightarrow> 't \<Rightarrow> 't res" where
  "put_all [] t = Ok t"
| "put_all ((k, n, v) # rs) t = bind_res (put t k n v) (put_all rs)"

lemma put_all_correct:
  assumes "invar t" and "nodes t + grow * length rs < limit"
    and "\<And>k n v. (k, n, v) \<in> set rs \<Longrightarrow> 1 \<le> n \<and> n \<le> width \<and> storable v"
  shows "\<exists>t'. put_all rs t = Ok t' \<and> invar t' \<and> nodes t' \<le> nodes t + grow * length rs \<and>
     absm t' = (absm t) ++ rule_map (map (\<lambda>(k, n, v). (take n (bits k), v)) rs)"
  using assms
proof (induction rs arbitrary: t)
  case Nil
  then show ?case by simp
next
  case (Cons r rs)
  obtain k n v where r: "r = (k, n, v)" by (cases r)
  with Cons.prems have "1 \<le> n" "n \<le> width" "storable v" "nodes t + grow < limit" by auto
  with put_correct [OF Cons.prems(1)] obtain t1 where
    t1: "put t k n v = Ok t1" "invar t1" "absm t1 = (absm t)(take n (bits k) \<mapsto> v)"
      "nodes t1 \<le> nodes t + grow"
    by blast
  with Cons.prems have "nodes t1 + grow * length rs < limit" by auto
  with Cons.IH [OF t1(2)] Cons.prems(3) obtain t' where
    "put_all rs t1 = Ok t'" "invar t'" "nodes t' \<le> nodes t1 + grow * length rs"
    "absm t' = (absm t1) ++ rule_map (map (\<lambda>(k, n, v). (take n (bits k), v)) rs)"
    by auto
  with t1 r show ?case
    by (auto simp: rule_map_def map_add_def fun_eq_iff split: option.splits)
qed

lemma put_all_get:
  assumes "nodes new + grow * length rs < limit"
    and "\<And>k n v. (k, n, v) \<in> set rs \<Longrightarrow> 1 \<le> n \<and> n \<le> width \<and> storable v"
  shows "\<exists>t. put_all rs new = Ok t \<and>
     get t key = Some (Ok (lpm (rule_map (map (\<lambda>(k, n, v). (take n (bits k), v)) rs)) (bits key)))"
proof -
  from assms(1) obtain t where "put_all rs new = Ok t" "invar t"
      "absm t = absm new ++ rule_map (map (\<lambda>(k, n, v). (take n (bits k), v)) rs)"
    using put_all_correct [OF new_invar, of rs] assms(2) by blast
  then show ?thesis using get_correct [of t key] by (simp add: new_abs)
qed

end

end
