(* ===== verification/Ip_Trie.thy ===== *)
theory Ip_Trie
  imports Prefix_Table Address
begin

text \<open>
  \<open>src/config/ip_trie.rs\<close>: the array-backed binary trie that \<open>impl_trie!\<close> generates for
  IPv4 (\<open>u32\<close>) and IPv6 (\<open>u128\<close>), and \<open>GeoIPMatcher\<close> on top of it. One definition per
  macro body, over words of any width; the two instances are the word lengths 32 and 128.
  The parameter \<open>checks\<close> says whether arithmetic overflow checks are compiled in (a debug
  build): an overflowing shift or subtraction then panics, and otherwise wraps.
\<close>

section \<open>Arithmetic\<close>

definition usize_sub :: "bool \<Rightarrow> nat \<Rightarrow> nat \<Rightarrow> nat res" where
  "usize_sub checks a b =
     (if b \<le> a then Ok (a - b) else if checks then Panic else Ok (2 ^ 64 + a - b))"

definition u8_sub :: "bool \<Rightarrow> u8 \<Rightarrow> u8 \<Rightarrow> u8 res" where
  "u8_sub checks a b = (if unat b \<le> unat a \<or> \<not> checks then Ok (a - b) else Panic)"

definition shl :: "bool \<Rightarrow> 'a::len word \<Rightarrow> nat \<Rightarrow> 'a word res" where
  "shl checks x n =
     (if n < LENGTH('a) then Ok (push_bit n x)
      else if checks then Panic else Ok (push_bit (n mod LENGTH('a)) x))"

definition shr :: "bool \<Rightarrow> 'a::len word \<Rightarrow> nat \<Rightarrow> 'a word res" where
  "shr checks x n =
     (if n < LENGTH('a) then Ok (drop_bit n x)
      else if checks then Panic else Ok (drop_bit (n mod LENGTH('a)) x))"

definition as_usize :: "'a::len word \<Rightarrow> nat" where
  "as_usize w = unat w mod 2 ^ 64"

definition index_vec :: "'a list \<Rightarrow> nat \<Rightarrow> 'a res" where
  "index_vec xs i = (if i < length xs then Ok (xs ! i) else Panic)"

definition set_vec :: "'a list \<Rightarrow> nat \<Rightarrow> 'a \<Rightarrow> 'a list res" where
  "set_vec xs i v = (if i < length xs then Ok (xs[i := v]) else Panic)"

section \<open>The trie\<close>

record 'p trie =
  t_left :: "'p list"
  t_right :: "'p list"
  t_value :: "u32 list"
  t_size :: nat

definition nullptr :: "'a::len word" where
  "nullptr = - 1"

definition no_value :: u32 where
  "no_value = - 1"

definition trie_new :: "'a::len word trie" where
  "trie_new = \<lparr>t_left = [nullptr], t_right = [nullptr], t_value = [no_value], t_size = 1\<rparr>"

definition child :: "'a::len word trie \<Rightarrow> bool \<Rightarrow> 'a word \<Rightarrow> 'a word res" where
  "child t b node = index_vec (if b then t_right t else t_left t) (as_usize node)"

text \<open>The first loop of \<open>put\<close>: follow existing nodes while the prefix lasts.\<close>

function put_walk ::
  "'a::len word trie \<Rightarrow> 'a word \<Rightarrow> 'a word \<Rightarrow> 'a word \<Rightarrow> 'a word \<Rightarrow> 'a word \<Rightarrow>
   ('a word \<times> 'a word \<times> 'a word) res" where
  "put_walk t key msk bt node nxt =
     (if bt AND msk \<noteq> 0 then
        bind_res (child t (key AND bt \<noteq> 0) node) (\<lambda>nxt.
          if nxt = nullptr then Ok (bt, node, nxt)
          else put_walk t key msk (drop_bit 1 bt) nxt nxt)
      else Ok (bt, node, nxt))"
  by pat_completeness auto

lemma drop_bit_1_less: "bt AND m \<noteq> 0 \<Longrightarrow> unat (drop_bit (Suc 0) bt) < unat (bt :: 'a::len word)"
proof -
  assume "bt AND m \<noteq> 0"
  then have "bt \<noteq> 0" by auto
  then have "0 < unat bt" by (simp add: unat_gt_0)
  moreover have "unat (drop_bit (Suc 0) bt) = unat bt div 2"
    by (simp only: unsigned_drop_bit_eq) (simp add: drop_bit_eq_div take_bit_nat_eq_self)
  ultimately show ?thesis by simp
qed

termination put_walk
  by (relation "measure (\<lambda>(t, key, msk, bt, node, nxt). unat bt)")
    (auto simp: drop_bit_1_less)

text \<open>The second loop of \<open>put\<close>: append a node for every remaining bit of the prefix.\<close>

definition push_node :: "'a::len word trie \<Rightarrow> 'a word trie" where
  "push_node t = t\<lparr>t_value := t_value t @ [no_value], t_left := t_left t @ [nullptr],
                   t_right := t_right t @ [nullptr]\<rparr>"

definition set_child :: "'a::len word trie \<Rightarrow> bool \<Rightarrow> 'a word \<Rightarrow> 'a word \<Rightarrow> 'a word trie res" where
  "set_child t b node nxt =
     (if b then map_res (\<lambda>xs. t\<lparr>t_right := xs\<rparr>) (set_vec (t_right t) (as_usize node) nxt)
      else map_res (\<lambda>xs. t\<lparr>t_left := xs\<rparr>) (set_vec (t_left t) (as_usize node) nxt))"

function put_extend ::
  "'a::len word trie \<Rightarrow> 'a word \<Rightarrow> 'a word \<Rightarrow> 'a word \<Rightarrow> 'a word \<Rightarrow> ('a word trie \<times> 'a word) res" where
  "put_extend t key msk bt node =
     (if bt AND msk \<noteq> 0 then
        (let nxt = of_nat (t_size t) in
         bind_res (set_child (push_node t) (key AND bt \<noteq> 0) node nxt) (\<lambda>t'.
           put_extend (t'\<lparr>t_size := t_size t' + 1\<rparr>) key msk (drop_bit 1 bt) nxt))
      else Ok (t, node))"
  by pat_completeness auto
termination put_extend
  by (relation "measure (\<lambda>(t, key, msk, bt, node). unat bt)")
    (auto simp: drop_bit_1_less)

declare put_walk.simps [simp del] put_extend.simps [simp del]

definition set_value :: "'a::len word trie \<Rightarrow> 'a word \<Rightarrow> u32 \<Rightarrow> 'a word trie res" where
  "set_value t node v = map_res (\<lambda>xs. t\<lparr>t_value := xs\<rparr>) (set_vec (t_value t) (as_usize node) v)"

definition trie_put :: "bool \<Rightarrow> 'a::len word trie \<Rightarrow> 'a word \<Rightarrow> u8 \<Rightarrow> u32 \<Rightarrow> 'a word trie res" where
  "trie_put checks t key pfx v =
     bind_res (usize_sub checks LENGTH('a) (unat pfx)) (\<lambda>sh.
     bind_res (shl checks 1 sh) (\<lambda>one.
       let msk = (one - 1) XOR nullptr;
           bt = push_bit (LENGTH('a) - 1) 1
       in bind_res (put_walk t key msk bt 0 0) (\<lambda>(bt, node, nxt).
            if nxt \<noteq> nullptr then set_value t node v
            else bind_res (put_extend t key msk bt node) (\<lambda>(t, node). set_value t node v))))"

text \<open>
  The loop of \<open>get\<close>. It has no bound of its own: it stops at a missing child, so on a damaged
  trie it may run forever (\<open>None\<close>).
\<close>

partial_function (option) get_loop ::
  "'a::len word trie \<Rightarrow> 'a word \<Rightarrow> 'a word \<Rightarrow> u32 \<Rightarrow> 'a word \<Rightarrow> u32 res option" where
  "get_loop t key bt v node =
     (if node = nullptr then Some (Ok v)
      else case index_vec (t_value t) (as_usize node) of
             Ok v1 \<Rightarrow>
               (case child t (key AND bt \<noteq> 0) node of
                  Ok node' \<Rightarrow> get_loop t key (drop_bit 1 bt) (if v1 \<noteq> no_value then v1 else v) node'
                | _ \<Rightarrow> Some Panic)
           | _ \<Rightarrow> Some Panic)"

text \<open>The start bit is computed from \<open>size_of::<u32>()\<close> in both instances.\<close>

definition trie_get :: "'a::len word trie \<Rightarrow> 'a word \<Rightarrow> u32 option res option" where
  "trie_get t key =
     map_option (map_res (\<lambda>v. if v = no_value then None else Some v))
       (get_loop t key (push_bit (32 - 1) 1) no_value 0)"

section \<open>The matcher\<close>

record geoip_matcher =
  trie4 :: "u32 trie"
  trie6 :: "u128 trie"
  outbound :: "string list"

definition geoip_new :: geoip_matcher where
  "geoip_new = \<lparr>trie4 = trie_new, trie6 = trie_new, outbound = []\<rparr>"

definition normalize6 :: "bool \<Rightarrow> u128 \<Rightarrow> u8 \<Rightarrow> u128 res" where
  "normalize6 checks ip pfx =
     bind_res (u8_sub checks 128 pfx) (\<lambda>n.
     bind_res (shr checks ip (unat n)) (\<lambda>x. shl checks x (unat n)))"

definition normalize :: "bool \<Rightarrow> u32 \<Rightarrow> u8 \<Rightarrow> u32 res" where
  "normalize checks ip pfx =
     bind_res (u8_sub checks 32 pfx) (\<lambda>n.
     bind_res (shr checks ip (unat n)) (\<lambda>x. shl checks x (unat n)))"

definition match4 :: "geoip_matcher \<Rightarrow> u32 \<Rightarrow> string res option" where
  "match4 m ip =
     map_option (\<lambda>r. bind_res r (\<lambda>c. case c of Some c \<Rightarrow> index_vec (outbound m) (unat c)
                                          | None \<Rightarrow> Ok ''''))
       (trie_get (trie4 m) ip)"

definition match6 :: "geoip_matcher \<Rightarrow> u128 \<Rightarrow> string res option" where
  "match6 m ip =
     map_option (\<lambda>r. bind_res r (\<lambda>c. case c of Some c \<Rightarrow> index_vec (outbound m) (unat c)
                                          | None \<Rightarrow> Ok ''''))
       (trie_get (trie6 m) ip)"

fun position :: "'a \<Rightarrow> 'a list \<Rightarrow> nat option" where
  "position x [] = None"
| "position x (y # ys) = (if y = x then Some 0 else map_option Suc (position x ys))"

definition get_outbound_pos :: "geoip_matcher \<Rightarrow> string \<Rightarrow> geoip_matcher \<times> nat" where
  "get_outbound_pos m ob =
     (case position ob (outbound m) of
        Some p \<Rightarrow> (m, p)
      | None \<Rightarrow> (m\<lparr>outbound := outbound m @ [ob]\<rparr>, length (outbound m)))"

definition put_v6 :: "bool \<Rightarrow> geoip_matcher \<Rightarrow> u128 \<Rightarrow> u8 \<Rightarrow> string \<Rightarrow> geoip_matcher res" where
  "put_v6 checks m ip6 pfx ob =
     (let (m, pos) = get_outbound_pos m ob in
      bind_res (normalize6 checks ip6 pfx) (\<lambda>ip6.
        map_res (\<lambda>t. m\<lparr>trie6 := t\<rparr>) (trie_put checks (trie6 m) ip6 pfx (of_nat pos))))"

definition put_v4 :: "bool \<Rightarrow> geoip_matcher \<Rightarrow> u32 \<Rightarrow> u8 \<Rightarrow> string \<Rightarrow> geoip_matcher res" where
  "put_v4 checks m ip4 pfx ob =
     (let (m, pos) = get_outbound_pos m ob in
      bind_res (normalize checks ip4 pfx) (\<lambda>ip4.
        map_res (\<lambda>t. m\<lparr>trie4 := t\<rparr>) (trie_put checks (trie4 m) ip4 pfx (of_nat pos))))"

end
