(* ===== verification/Ip_Trie_Proofs.thy ===== *)
theory Ip_Trie_Proofs
  imports Ip_Trie
begin

text \<open>
  The array trie implements the prefix table: the loops of \<open>put\<close> and \<open>get\<close> over single-bit
  masks are recursions over the bits of the key, the arrays form a tree, and a lookup returns the
  value of the longest stored prefix.
\<close>

section \<open>Keys as bit strings\<close>

definition key_bits :: "'a::len word \<Rightarrow> bool list" where
  "key_bits k = map (\<lambda>i. bit k (LENGTH('a) - 1 - i)) [0..<LENGTH('a)]"

definition top_bit :: "nat \<Rightarrow> 'a::len word" where
  "top_bit i = (if i < LENGTH('a) then push_bit (LENGTH('a) - 1 - i) 1 else 0)"

lemma length_key_bits [simp]: "length (key_bits (k :: 'a::len word)) = LENGTH('a)"
  by (simp add: key_bits_def)

lemma nth_key_bits [simp]:
  "i < LENGTH('a) \<Longrightarrow> key_bits (k :: 'a::len word) ! i = bit k (LENGTH('a) - 1 - i)"
  by (simp add: key_bits_def)

lemma and_top_bit:
  "(k :: 'a::len word) AND top_bit i \<noteq> 0 \<longleftrightarrow> i < LENGTH('a) \<and> bit k (LENGTH('a) - 1 - i)"
proof (cases "i < LENGTH('a)")
  case True
  have "k AND push_bit n 1 \<noteq> 0 \<longleftrightarrow> bit k n" if "n < LENGTH('a)" for n
    using that by (simp add: bit_iff_and_push_bit_not_eq_0)
  with True show ?thesis by (simp add: top_bit_def)
next
  case False
  then show ?thesis by (simp add: top_bit_def)
qed

lemma drop_top_bit [simp]: "drop_bit (Suc 0) (top_bit i :: 'a::len word) = top_bit (Suc i)"
proof (rule bit_word_eqI)
  fix n assume "n < LENGTH('a)"
  then show "bit (drop_bit (Suc 0) (top_bit i :: 'a word)) n \<longleftrightarrow> bit (top_bit (Suc i) :: 'a word) n"
    by (auto simp: top_bit_def bit_simps)
qed

definition prefix_mask :: "nat \<Rightarrow> 'a::len word" where
  "prefix_mask p = (push_bit (LENGTH('a) - p) 1 - 1) XOR nullptr"

lemma prefix_mask_bit:
  "1 \<le> p \<Longrightarrow> p \<le> LENGTH('a) \<Longrightarrow> n < LENGTH('a) \<Longrightarrow>
     bit (prefix_mask p :: 'a::len word) n \<longleftrightarrow> LENGTH('a) - p \<le> n"
proof -
  assume "1 \<le> p" "p \<le> LENGTH('a)" "n < LENGTH('a)"
  have "push_bit (LENGTH('a) - p) 1 - 1 = (mask (LENGTH('a) - p) :: 'a word)"
    by (simp add: mask_eq_exp_minus_1 push_bit_of_1)
  then show ?thesis
    using \<open>n < LENGTH('a)\<close> by (auto simp: prefix_mask_def nullptr_def bit_simps)
qed

lemma top_bit_and_mask:
  assumes "1 \<le> p" "p \<le> LENGTH('a)"
  shows "(top_bit i AND prefix_mask p :: 'a::len word) \<noteq> 0 \<longleftrightarrow> i < p"
proof -
  have "bit (prefix_mask p :: 'a word) (LENGTH('a) - 1 - i) \<longleftrightarrow> i < p" if "i < LENGTH('a)"
  proof -
    from that have "LENGTH('a) - 1 - i < LENGTH('a)" by simp
    from prefix_mask_bit [OF assms this] that assms show ?thesis by linarith
  qed
  with assms show ?thesis
    by (subst and.commute, subst and_top_bit) (meson less_le_trans)
qed

lemma drop_key_bits:
  "i < LENGTH('a) \<Longrightarrow>
     drop i (key_bits (k :: 'a::len word)) = bit k (LENGTH('a) - 1 - i) # drop (Suc i) (key_bits k)"
  using Cons_nth_drop_Suc [of i "key_bits k"] by simp

lemma drop_take_key_bits:
  assumes "i < p" "p \<le> LENGTH('a)"
  shows "drop i (take p (key_bits (k :: 'a::len word))) =
     bit k (LENGTH('a) - 1 - i) # drop (Suc i) (take p (key_bits k))"
proof -
  from assms have "i < length (take p (key_bits k))" by simp
  from Cons_nth_drop_Suc [OF this] assms show ?thesis by simp
qed

section \<open>The loops over bit strings\<close>

fun walk_bits ::
  "'a::len word trie \<Rightarrow> bool list \<Rightarrow> 'a word \<Rightarrow> 'a word \<Rightarrow> (bool list \<times> 'a word \<times> 'a word) res" where
  "walk_bits t [] node nxt = Ok ([], node, nxt)"
| "walk_bits t (b # bs) node nxt =
     bind_res (child t b node) (\<lambda>nxt.
       if nxt = nullptr then Ok (b # bs, node, nxt) else walk_bits t bs nxt nxt)"

fun extend_bits :: "'a::len word trie \<Rightarrow> bool list \<Rightarrow> 'a word \<Rightarrow> ('a word trie \<times> 'a word) res" where
  "extend_bits t [] node = Ok (t, node)"
| "extend_bits t (b # bs) node =
     bind_res (set_child (push_node t) b node (of_nat (t_size t))) (\<lambda>t'.
       extend_bits (t'\<lparr>t_size := t_size t' + 1\<rparr>) bs (of_nat (t_size t)))"

lemma put_walk_bits:
  assumes p: "1 \<le> p" "p \<le> LENGTH('a)" and "i \<le> p"
  shows "put_walk t (key :: 'a::len word) (prefix_mask p) (top_bit i) node nxt =
     map_res (\<lambda>(rest, n, x). (top_bit (p - length rest), n, x))
       (walk_bits t (drop i (take p (key_bits key))) node nxt)"
  using \<open>i \<le> p\<close>
proof (induction "p - i" arbitrary: i node nxt)
  case 0
  then have "i = p" by simp
  with p show ?case by (simp add: put_walk.simps [of t key "prefix_mask p" "top_bit p"] top_bit_and_mask)
next
  case (Suc d)
  then have i: "i < p" "d = p - Suc i" "Suc i \<le> p" by auto
  note IH = Suc.hyps(1) [OF i(2,3)]
  have c: "key AND top_bit i \<noteq> 0 \<longleftrightarrow> bit key (LENGTH('a) - 1 - i)"
    using i p by (simp add: and_top_bit)
  have l: "p - length (drop i (take p (key_bits key))) = i" using i p by simp
  show ?case
    using i p l
    by (cases "child t (bit key (LENGTH('a) - 1 - i)) node")
      (auto simp: put_walk.simps [of t key "prefix_mask p" "top_bit i"] top_bit_and_mask c
        drop_take_key_bits IH)
qed

lemma put_extend_bits:
  assumes p: "1 \<le> p" "p \<le> LENGTH('a)" and "i \<le> p"
  shows "put_extend t (key :: 'a::len word) (prefix_mask p) (top_bit i) node =
     extend_bits t (drop i (take p (key_bits key))) node"
  using \<open>i \<le> p\<close>
proof (induction "p - i" arbitrary: i t node)
  case 0
  then have "i = p" by simp
  with p show ?case by (simp add: put_extend.simps [of t key "prefix_mask p" "top_bit p"] top_bit_and_mask)
next
  case (Suc d)
  then have i: "i < p" "d = p - Suc i" "Suc i \<le> p" by auto
  note IH = Suc.hyps(1) [OF i(2,3)]
  have c: "key AND top_bit i \<noteq> 0 \<longleftrightarrow> bit key (LENGTH('a) - 1 - i)"
    using i p by (simp add: and_top_bit)
  show ?case
    using i p
    by (simp add: put_extend.simps [of t key "prefix_mask p" "top_bit i"] top_bit_and_mask c
        drop_take_key_bits IH Let_def)
qed

section \<open>The arrays form a tree\<close>

text \<open>
  \<open>trie_path t path\<close>: the arrays have one entry per node, and \<open>path\<close> labels every node with the
  bit string that leads to it, so that children extend the label of their parent by one bit.
\<close>

definition kid :: "'a::len word trie \<Rightarrow> bool \<Rightarrow> nat \<Rightarrow> 'a word" where
  "kid t b n = (if b then t_right t else t_left t) ! n"

definition trie_limit :: "'a::len itself \<Rightarrow> nat" where
  "trie_limit _ = min (2 ^ LENGTH('a) - 1) (2 ^ 64)"

definition trie_path :: "'a::len word trie \<Rightarrow> (nat \<Rightarrow> bool list) \<Rightarrow> bool" where
  "trie_path t path \<longleftrightarrow>
     length (t_left t) = t_size t \<and> length (t_right t) = t_size t \<and> length (t_value t) = t_size t \<and>
     0 < t_size t \<and> t_size t \<le> trie_limit TYPE('a) \<and> path 0 = [] \<and>
     (\<forall>n < t_size t. length (path n) \<le> LENGTH('a)) \<and>
     (\<forall>n < t_size t. \<forall>b. kid t b n \<noteq> nullptr \<longrightarrow>
        (\<exists>m < t_size t. kid t b n = of_nat m \<and> path m = path n @ [b]))"

definition trie_inv :: "'a::len word trie \<Rightarrow> bool" where
  "trie_inv t \<longleftrightarrow> (\<exists>path. trie_path t path)"

lemma of_nat_node:
  assumes "m < trie_limit TYPE('a::len)"
  shows "unat (of_nat m :: 'a word) = m" "as_usize (of_nat m :: 'a word) = m"
    "(of_nat m :: 'a word) \<noteq> nullptr"
proof -
  from assms have m: "m < 2 ^ LENGTH('a) - 1" "m < 2 ^ 64" by (simp_all add: trie_limit_def)
  then show u: "unat (of_nat m :: 'a word) = m" by (simp add: unat_of_nat)
  with m show "as_usize (of_nat m :: 'a word) = m" by (simp add: as_usize_def)
  have "unat (nullptr :: 'a word) = 2 ^ LENGTH('a) - 1"
    by (simp add: nullptr_def unsigned_minus_1_eq_mask mask_eq_exp_minus_1)
  with u m show "(of_nat m :: 'a word) \<noteq> nullptr" by auto
qed

lemma trie_pathD:
  assumes "trie_path (t :: 'a::len word trie) path" and "n < t_size t"
  shows "n < trie_limit TYPE('a)" "child t b (of_nat n) = Ok (kid t b n)"
    "index_vec (t_value t) (as_usize (of_nat n :: 'a word)) = Ok (t_value t ! n)"
    "length (path n) \<le> LENGTH('a)"
    "kid t b n \<noteq> nullptr \<Longrightarrow> \<exists>m < t_size t. kid t b n = of_nat m \<and> path m = path n @ [b]"
proof -
  show n: "n < trie_limit TYPE('a)" using assms by (auto simp: trie_path_def)
  show "child t b (of_nat n) = Ok (kid t b n)"
    using assms by (simp add: child_def index_vec_def kid_def of_nat_node [OF n] trie_path_def)
  show "index_vec (t_value t) (as_usize (of_nat n :: 'a word)) = Ok (t_value t ! n)"
    using assms by (simp add: index_vec_def of_nat_node [OF n] trie_path_def)
  show "length (path n) \<le> LENGTH('a)"
    "kid t b n \<noteq> nullptr \<Longrightarrow> \<exists>m < t_size t. kid t b n = of_nat m \<and> path m = path n @ [b]"
    using assms by (auto simp: trie_path_def)
qed

text \<open>The node a bit string leads to, and the map a trie stands for.\<close>

fun follow :: "'a::len word trie \<Rightarrow> bool list \<Rightarrow> nat \<Rightarrow> nat option" where
  "follow t [] n = Some n"
| "follow t (b # bs) n = (if kid t b n = nullptr then None else follow t bs (unat (kid t b n)))"

definition abs_from :: "'a::len word trie \<Rightarrow> nat \<Rightarrow> bool list \<rightharpoonup> u32" where
  "abs_from t n p =
     (case follow t p n of
        None \<Rightarrow> None
      | Some m \<Rightarrow> if t_value t ! m = no_value then None else Some (t_value t ! m))"

definition trie_abs :: "'a::len word trie \<Rightarrow> bool list \<rightharpoonup> u32" where
  "trie_abs t = abs_from t 0"

lemma follow_append:
  "follow t (p @ q) n = (case follow t p n of None \<Rightarrow> None | Some m \<Rightarrow> follow t q m)"
  by (induction p arbitrary: n) auto

lemma follow_path:
  "trie_path t path \<Longrightarrow> n < t_size t \<Longrightarrow> follow t p n = Some m \<Longrightarrow>
     m < t_size t \<and> path m = path n @ p"
proof (induction p arbitrary: n)
  case Nil
  then show ?case by simp
next
  case (Cons b p)
  then have k: "kid t b n \<noteq> nullptr" by (auto split: if_splits)
  with trie_pathD(5) [OF Cons.prems(1,2)] obtain m' where
    m': "m' < t_size t" "kid t b n = of_nat m'" "path m' = path n @ [b]" by blast
  with Cons k trie_pathD(1) [OF Cons.prems(1) m'(1)] show ?case by (auto simp: of_nat_node)
qed

section \<open>Lookup\<close>

lemma lpm_empty: "lpm (\<lambda>p. None) ks = None"
  by (induction ks) auto

lemma abs_from_Cons:
  "abs_from t n (b # p) = (if kid t b n = nullptr then None else abs_from t (unat (kid t b n)) p)"
  by (simp add: abs_from_def)

lemma abs_from_Nil: "abs_from t n [] = (if t_value t ! n = no_value then None else Some (t_value t ! n))"
  by (simp add: abs_from_def)

lemma get_loop_lpm:
  assumes tp: "trie_path (t :: 'a::len word trie) path"
  shows "n < t_size t \<Longrightarrow> length (path n) = i \<Longrightarrow>
    get_loop t key (top_bit i) v (of_nat n) =
      Some (Ok (case lpm (abs_from t n) (drop i (key_bits key)) of Some x \<Rightarrow> x | None \<Rightarrow> v))"
proof (induction "LENGTH('a) - i" arbitrary: i n v)
  case 0
  have i: "i = LENGTH('a)" using 0 trie_pathD(4) [OF tp 0(2)] by auto
  have leaf: "kid t b n = nullptr" for b
  proof (rule ccontr)
    assume "kid t b n \<noteq> nullptr"
    with trie_pathD(5) [OF tp 0(2)] obtain m where "m < t_size t" "path m = path n @ [b]" by blast
    with trie_pathD(4) [OF tp, of m] 0 i show False by simp
  qed
  show ?case
    using trie_pathD [OF tp 0(2)] leaf i
    by (simp add: get_loop.simps [of t key "top_bit LENGTH('a)"] get_loop.simps [of _ _ _ _ nullptr]
        of_nat_node abs_from_Nil)
next
  case (Suc d)
  then have i: "i < LENGTH('a)" by simp
  define b where "b = bit key (LENGTH('a) - 1 - i)"
  have c: "key AND top_bit i \<noteq> 0 \<longleftrightarrow> b" using i by (simp add: and_top_bit b_def)
  have k: "drop i (key_bits key) = b # drop (Suc i) (key_bits key)"
    using i by (simp add: drop_key_bits b_def)
  have step: "get_loop t key (top_bit i) v (of_nat n) =
      get_loop t key (top_bit (Suc i)) (if t_value t ! n \<noteq> no_value then t_value t ! n else v)
        (kid t b n)" for v
    using trie_pathD [OF tp Suc.prems(1)] c
    by (simp add: get_loop.simps [of t key "top_bit i"] of_nat_node)
  show ?case
  proof (cases "kid t b n = nullptr")
    case True
    then show ?thesis
      by (simp add: step k get_loop.simps [of _ _ _ _ nullptr] abs_from_Cons lpm_empty abs_from_Nil)
  next
    case False
    with trie_pathD(5) [OF tp Suc.prems(1)] obtain m where
      m: "m < t_size t" "kid t b n = of_nat m" "path m = path n @ [b]" by blast
    have u: "unat (of_nat m :: 'a word) = m" using trie_pathD(1) [OF tp m(1)] by (simp add: of_nat_node)
    have "d = LENGTH('a) - Suc i" "length (path m) = Suc i" using Suc m by auto
    note IH = Suc.hyps(1) [OF this(1) m(1) this(2)]
    have "(\<lambda>p. abs_from t n (b # p)) = abs_from t m"
      using False m u by (simp add: abs_from_Cons fun_eq_iff)
    with m show ?thesis
      by (auto simp: step k IH abs_from_Nil split: option.splits)
  qed
qed

text \<open>
  A lookup that starts at a later bit reads the key as if it were shifted, zeros moving in from the
  right: once the mask is used up every further bit counts as zero.
\<close>

lemma and_top_bit_shift:
  "j < LENGTH('a) \<Longrightarrow> (key :: 'a::len word) AND top_bit (j + d) \<noteq> 0 \<longleftrightarrow> push_bit d key AND top_bit j \<noteq> 0"
  by (auto simp: and_top_bit bit_push_bit_iff)

lemma get_loop_shift:
  assumes tp: "trie_path (t :: 'a::len word trie) path"
  shows "n < t_size t \<Longrightarrow> length (path n) = j \<Longrightarrow>
    get_loop t key (top_bit (j + d)) v (of_nat n) = get_loop t (push_bit d key) (top_bit j) v (of_nat n)"
proof (induction "LENGTH('a) - j" arbitrary: j n v rule: less_induct)
  case less
  define v1 where "v1 = (if t_value t ! n \<noteq> no_value then t_value t ! n else v)"
  have step: "get_loop t k (top_bit i) v (of_nat n) =
      get_loop t k (top_bit (Suc i)) v1 (kid t (k AND top_bit i \<noteq> 0) n)" for k i
    using trie_pathD [OF tp less.prems(1)]
    by (simp add: get_loop.simps [of t k "top_bit i"] of_nat_node v1_def)
  have stop: "get_loop t k bt v1 nullptr = Some (Ok v1)" for k bt
    by (simp add: get_loop.simps [of _ _ _ _ nullptr])
  have len: "j \<le> LENGTH('a)" using trie_pathD(4) [OF tp less.prems(1)] less.prems(2) by simp
  show ?case
  proof (cases "\<exists>b. kid t b n \<noteq> nullptr")
    case False
    then show ?thesis by (simp add: step stop)
  next
    case True
    then obtain b0 m0 where "m0 < t_size t" "path m0 = path n @ [b0]"
      using trie_pathD(5) [OF tp less.prems(1)] by blast
    with trie_pathD(4) [OF tp, of m0] less.prems(2) have j: "j < LENGTH('a)" by simp
    define b where "b \<longleftrightarrow> push_bit d key AND top_bit j \<noteq> 0"
    have b': "key AND top_bit (j + d) \<noteq> 0 \<longleftrightarrow> b" using and_top_bit_shift [OF j] by (simp add: b_def)
    show ?thesis
    proof (cases "kid t b n = nullptr")
      case True
      then show ?thesis by (simp add: step b' stop flip: b_def)
    next
      case False
      with trie_pathD(5) [OF tp less.prems(1)] obtain m where
        m: "m < t_size t" "kid t b n = of_nat m" "path m = path n @ [b]" by blast
      have "LENGTH('a) - Suc j < LENGTH('a) - j" "length (path m) = Suc j" using j m less.prems(2) by auto
      from less.hyps [OF this(1) m(1) this(2), of v1] m(2) show ?thesis
        by (simp add: step b' flip: b_def)
    qed
  qed
qed

section \<open>Insertion\<close>

lemma walk_bits_follow:
  assumes tp: "trie_path (t :: 'a::len word trie) path"
  shows "n < t_size t \<Longrightarrow> nxt \<noteq> nullptr \<Longrightarrow>
    \<exists>rest m nxt' pre. walk_bits t bs (of_nat n) nxt = Ok (rest, of_nat m, nxt') \<and>
      bs = pre @ rest \<and> follow t pre n = Some m \<and> m < t_size t \<and>
      (nxt' = nullptr \<longleftrightarrow> rest \<noteq> []) \<and> (rest \<noteq> [] \<longrightarrow> kid t (hd rest) m = nullptr)"
proof (induction bs arbitrary: n nxt)
  case Nil
  then show ?case by (intro exI [of _ "[]"]) auto
next
  case (Cons b bs)
  show ?case
  proof (cases "kid t b n = nullptr")
    case True
    with Cons.prems show ?thesis
      by (intro exI [of _ "b # bs"] exI [of _ n] exI [of _ nullptr] exI [of _ "[]"])
        (simp add: trie_pathD(2) [OF tp])
  next
    case False
    with trie_pathD(5) [OF tp Cons.prems(1)] obtain k where
      k: "k < t_size t" "kid t b n = of_nat k" by blast
    have u: "unat (of_nat k :: 'a word) = k" using trie_pathD(1) [OF tp k(1)] by (simp add: of_nat_node)
    from Cons.IH [OF k(1), of "of_nat k"] False k obtain rest m nxt' pre where
      "walk_bits t bs (of_nat k) (of_nat k) = Ok (rest, of_nat m, nxt')" "bs = pre @ rest"
      "follow t pre k = Some m" "m < t_size t" "nxt' = nullptr \<longleftrightarrow> rest \<noteq> []"
      "rest \<noteq> [] \<longrightarrow> kid t (hd rest) m = nullptr"
      by auto
    with False k u Cons.prems show ?thesis
      by (intro exI [of _ rest] exI [of _ m] exI [of _ nxt'] exI [of _ "b # pre"])
        (simp add: trie_pathD(2) [OF tp])
  qed
qed

text \<open>One round of the second loop: append a node and link it below \<open>m\<close>.\<close>

definition add_node :: "'a::len word trie \<Rightarrow> bool \<Rightarrow> nat \<Rightarrow> 'a word trie" where
  "add_node t b m =
     (let t1 = push_node t;
          t2 = (if b then t1\<lparr>t_right := (t_right t1)[m := of_nat (t_size t)]\<rparr>
                else t1\<lparr>t_left := (t_left t1)[m := of_nat (t_size t)]\<rparr>)
      in t2\<lparr>t_size := t_size t + 1\<rparr>)"

lemma add_node_simps [simp]:
  "t_size (add_node t b m) = Suc (t_size t)" "t_value (add_node t b m) = t_value t @ [no_value]"
  by (simp_all add: add_node_def push_node_def Let_def)

lemma extend_bits_Cons:
  assumes "trie_path (t :: 'a::len word trie) path" "m < t_size t"
  shows "extend_bits t (b # bs) (of_nat m) = extend_bits (add_node t b m) bs (of_nat (t_size t))"
  using assms trie_pathD(1) [OF assms]
  by (auto simp: set_child_def set_vec_def of_nat_node add_node_def Let_def trie_path_def push_node_def)

lemma kid_add_node:
  assumes "trie_path t path" "m < t_size t" "n \<le> t_size t"
  shows "kid (add_node t b m) c n =
    (if n = m \<and> c = b then of_nat (t_size t) else if n = t_size t then nullptr else kid t c n)"
  using assms
  by (auto simp: kid_def add_node_def push_node_def Let_def trie_path_def nth_append nth_list_update)

lemma trie_path_add_node:
  assumes tp: "trie_path (t :: 'a::len word trie) path" and m: "m < t_size t"
    and lim: "t_size t < trie_limit TYPE('a)" and len: "length (path m) < LENGTH('a)"
  shows "trie_path (add_node t b m) (path(t_size t := path m @ [b]))" (is "trie_path ?t ?path")
proof -
  have "\<exists>k < Suc (t_size t). kid ?t c n = of_nat k \<and> ?path k = ?path n @ [c]"
    if n: "n < Suc (t_size t)" and k: "kid ?t c n \<noteq> nullptr" for n c
  proof -
    from k n have nt: "n < t_size t"
      using kid_add_node [OF tp m, of n b c] m by (auto split: if_splits)
    show ?thesis
    proof (cases "n = m \<and> c = b")
      case True
      then show ?thesis
        using kid_add_node [OF tp m, of n b c] nt by (intro exI [of _ "t_size t"]) simp
    next
      case False
      then have eq: "kid ?t c n = kid t c n" using kid_add_node [OF tp m, of n b c] nt by auto
      with trie_pathD(5) [OF tp nt, of c] k obtain x where
        "x < t_size t" "kid t c n = of_nat x" "path x = path n @ [c]" by auto
      then show ?thesis using eq nt by (intro exI [of _ x]) simp
    qed
  qed
  moreover have "length (t_left ?t) = Suc (t_size t)" "length (t_right ?t) = Suc (t_size t)"
    using tp by (auto simp: trie_path_def add_node_def push_node_def Let_def)
  ultimately show ?thesis
    using tp lim len m by (auto simp: trie_path_def less_Suc_eq)
qed

lemma abs_from_new_node:
  assumes "trie_path (t :: 'a::len word trie) path" "m < t_size t"
  shows "abs_from (add_node t b m) (t_size t) p = None"
proof (cases p)
  case Nil
  with assms show ?thesis by (simp add: abs_from_Nil nth_append trie_path_def)
next
  case (Cons c q)
  with assms show ?thesis using kid_add_node [OF assms, of "t_size t" b c] by (simp add: abs_from_Cons)
qed

lemma abs_from_add_node:
  assumes tp: "trie_path (t :: 'a::len word trie) path" and m: "m < t_size t"
    and lim: "t_size t < trie_limit TYPE('a)" and null: "kid t b m = nullptr"
  shows "n < t_size t \<Longrightarrow> abs_from (add_node t b m) n p = abs_from t n p"
proof (induction p arbitrary: n)
  case Nil
  with tp show ?case by (simp add: abs_from_Nil nth_append trie_path_def)
next
  case (Cons c p)
  show ?case
  proof (cases "n = m \<and> c = b")
    case True
    then show ?thesis
      using kid_add_node [OF tp m, of n b c] abs_from_new_node [OF tp m, of b p] lim null Cons.prems
      by (auto simp: abs_from_Cons of_nat_node)
  next
    case False
    then have eq: "kid (add_node t b m) c n = kid t c n"
      using kid_add_node [OF tp m, of n b c] Cons.prems by auto
    show ?thesis
    proof (cases "kid t c n = nullptr")
      case True
      with eq show ?thesis by (simp add: abs_from_Cons)
    next
      case ne: False
      with trie_pathD(5) [OF tp Cons.prems] obtain x where x: "x < t_size t" "kid t c n = of_nat x"
        by blast
      with Cons.IH [OF x(1)] eq ne trie_pathD(1) [OF tp x(1)] show ?thesis
        by (simp add: abs_from_Cons of_nat_node)
    qed
  qed
qed

lemma follow_add_node:
  assumes tp: "trie_path (t :: 'a::len word trie) path" and m: "m < t_size t"
    and null: "kid t b m = nullptr"
  shows "n < t_size t \<Longrightarrow> follow t p n = Some x \<Longrightarrow> follow (add_node t b m) p n = Some x"
proof (induction p arbitrary: n)
  case Nil
  then show ?case by simp
next
  case (Cons c p)
  then have k: "kid t c n \<noteq> nullptr" by (auto split: if_splits)
  with null have "kid (add_node t b m) c n = kid t c n"
    using kid_add_node [OF tp m, of n b c] Cons.prems by auto
  moreover from trie_pathD(5) [OF tp Cons.prems(1) k] obtain y where
    y: "y < t_size t" "kid t c n = of_nat y" by blast
  ultimately show ?case using Cons trie_pathD(1) [OF tp y(1)] by (auto simp: of_nat_node)
qed

lemma extend_bits_correct:
  assumes "trie_path (t :: 'a::len word trie) path" "m < t_size t" "follow t q 0 = Some m"
    and "length (q @ bs) \<le> LENGTH('a)" "t_size t + length bs \<le> trie_limit TYPE('a)"
    and "bs \<noteq> [] \<longrightarrow> kid t (hd bs) m = nullptr"
  shows "\<exists>t' path' m'. extend_bits t bs (of_nat m) = Ok (t', of_nat m') \<and> trie_path t' path' \<and>
    trie_abs t' = trie_abs t \<and> follow t' (q @ bs) 0 = Some m' \<and> m' < t_size t' \<and>
    t_size t' = t_size t + length bs"
  using assms
proof (induction bs arbitrary: t path m q)
  case Nil
  then show ?case by auto
next
  case (Cons b bs)
  let ?t = "add_node t b m"
  note tp = Cons.prems(1) and m = Cons.prems(2)
  have null: "kid t b m = nullptr" and lim: "t_size t < trie_limit TYPE('a)" using Cons.prems by auto
  have z: "0 < t_size t" "path 0 = []" using tp by (auto simp: trie_path_def)
  have "path m = q" using follow_path [OF tp z(1) Cons.prems(3)] z by simp
  with Cons.prems have tp': "trie_path ?t (path(t_size t := path m @ [b]))"
    by (intro trie_path_add_node [OF tp m lim]) simp
  have "follow ?t q 0 = Some m" using follow_add_node [OF tp m null z(1) Cons.prems(3)] .
  then have f: "follow ?t (q @ [b]) 0 = Some (t_size t)"
    using kid_add_node [OF tp m, of m b b] m lim by (simp add: follow_append of_nat_node)
  have "kid ?t c (t_size t) = nullptr" for c using kid_add_node [OF tp m, of "t_size t" b c] m by simp
  with Cons.IH [OF tp' _ f] Cons.prems obtain t' path' m' where
    "extend_bits ?t bs (of_nat (t_size t)) = Ok (t', of_nat m')" "trie_path t' path'"
    "trie_abs t' = trie_abs ?t" "follow t' (q @ b # bs) 0 = Some m'" "m' < t_size t'"
    "t_size t' = t_size t + Suc (length bs)"
    by auto
  moreover have "trie_abs ?t = trie_abs t"
    using abs_from_add_node [OF tp m lim null z(1)] by (simp add: trie_abs_def fun_eq_iff)
  ultimately show ?case
    using extend_bits_Cons [OF tp m, of b bs] by auto
qed

lemma kid_value_update [simp]: "kid (t\<lparr>t_value := vs\<rparr>) b n = kid t b n"
  by (simp add: kid_def)

lemma set_value_correct:
  assumes tp: "trie_path (t :: 'a::len word trie) path" and f: "follow t p 0 = Some m"
    and v: "v \<noteq> no_value"
  shows "\<exists>t'. set_value t (of_nat m) v = Ok t' \<and> trie_path t' path \<and>
    trie_abs t' = (trie_abs t)(p \<mapsto> v) \<and> t_size t' = t_size t"
proof -
  have z: "0 < t_size t" "path 0 = []" using tp by (auto simp: trie_path_def)
  have m: "m < t_size t" "path m = p" using follow_path [OF tp z(1) f] z by auto
  let ?t = "t\<lparr>t_value := (t_value t)[m := v]\<rparr>"
  have "set_value t (of_nat m) v = Ok ?t"
    using m trie_pathD(1) [OF tp m(1)] tp
    by (simp add: set_value_def set_vec_def of_nat_node trie_path_def)
  moreover have "trie_path ?t path" using tp by (simp add: trie_path_def)
  moreover have "trie_abs ?t = (trie_abs t)(p \<mapsto> v)"
  proof
    fix q
    have fq: "follow ?t q n = follow t q n" for n
      by (induction q arbitrary: n) auto
    show "trie_abs ?t q = ((trie_abs t)(p \<mapsto> v)) q"
    proof (cases "follow t q 0")
      case None
      with f show ?thesis by (auto simp: trie_abs_def abs_from_def fq)
    next
      case (Some x)
      with follow_path [OF tp z(1) Some] z have x: "x < t_size t" "path x = q" by auto
      show ?thesis
      proof (cases "x = m")
        case True
        with x m Some f v tp show ?thesis
          by (simp add: trie_abs_def abs_from_def fq trie_path_def)
      next
        case False
        with Some f have "q \<noteq> p" by auto
        with False Some show ?thesis by (simp add: trie_abs_def abs_from_def fq)
      qed
    qed
  qed
  ultimately show ?thesis by auto
qed

lemma trie_put_unfold:
  assumes p: "1 \<le> p" "p \<le> LENGTH('a)" "p \<le> 255"
  shows "trie_put checks t (key :: 'a::len word) (of_nat p) v =
     bind_res (walk_bits t (take p (key_bits key)) 0 0) (\<lambda>(rest, node, nxt).
       if nxt \<noteq> nullptr then set_value t node v
       else bind_res (put_extend t key (prefix_mask p) (top_bit (p - length rest)) node)
              (\<lambda>(t, node). set_value t node v))"
proof -
  have "LENGTH('a) - p < LENGTH('a)" using p by simp
  moreover have "push_bit (LENGTH('a) - 1) 1 = (top_bit 0 :: 'a word)" by (simp add: top_bit_def)
  ultimately show ?thesis
    using p put_walk_bits [OF p(1,2), of 0 t key 0 0]
    by (cases "walk_bits t (take p (key_bits key)) 0 0")
      (auto simp: trie_put_def usize_sub_def shl_def prefix_mask_def Let_def)
qed

lemma trie_put_correct:
  fixes t :: "'a::len word trie"
  assumes "trie_inv t" and p: "1 \<le> p" "p \<le> LENGTH('a)" "p \<le> 255" and v: "v \<noteq> no_value"
    and lim: "t_size t + LENGTH('a) \<le> trie_limit TYPE('a)"
  shows "\<exists>t'. trie_put checks t key (of_nat p) v = Ok t' \<and> trie_inv t' \<and>
    trie_abs t' = (trie_abs t)(take p (key_bits key) \<mapsto> v) \<and> t_size t' \<le> t_size t + LENGTH('a)"
proof -
  from assms(1) obtain path where tp: "trie_path t path" by (auto simp: trie_inv_def)
  then have z: "0 < t_size t" by (simp add: trie_path_def)
  let ?k = "take p (key_bits key)"
  have "(0 :: 'a word) \<noteq> nullptr" using of_nat_node(3) [of 0] trie_pathD(1) [OF tp z] by simp
  moreover have "(of_nat 0 :: 'a word) = 0" by simp
  ultimately obtain rest m nxt pre where w: "walk_bits t ?k 0 0 = Ok (rest, of_nat m, nxt)"
      "?k = pre @ rest" "follow t pre 0 = Some m" "m < t_size t" "nxt = nullptr \<longleftrightarrow> rest \<noteq> []"
      "rest \<noteq> [] \<longrightarrow> kid t (hd rest) m = nullptr"
    using walk_bits_follow [OF tp z, of 0 ?k] by metis
  have len: "length pre + length rest = p" using arg_cong [OF w(2), of length] p by simp
  show ?thesis
  proof (cases "rest = []")
    case True
    with w set_value_correct [OF tp w(3) v] show ?thesis
      by (auto simp: trie_put_unfold [OF p] trie_inv_def)
  next
    case False
    have "rest = drop (length pre) ?k" using w(2) by simp
    then have ext: "put_extend t key (prefix_mask p) (top_bit (p - length rest)) (of_nat m) =
        extend_bits t rest (of_nat m)"
      using put_extend_bits [OF p(1,2), of "length pre" t key "of_nat m"] len
      by (metis add_diff_cancel_right' le_add1)
    from extend_bits_correct [OF tp w(4,3), of rest] w(6) len p lim obtain t1 path1 m1 where
      t1: "extend_bits t rest (of_nat m) = Ok (t1, of_nat m1)" "trie_path t1 path1"
        "trie_abs t1 = trie_abs t" "follow t1 ?k 0 = Some m1" "t_size t1 = t_size t + length rest"
      by (auto simp: w(2))
    from set_value_correct [OF t1(2,4) v] False t1 w len p show ?thesis
      by (auto simp: trie_put_unfold [OF p] ext trie_inv_def)
  qed
qed

lemma trie_new_inv: "trie_inv (trie_new :: 'a::len word trie)" if "1 < LENGTH('a)"
proof -
  have "(2::nat) ^ 2 \<le> 2 ^ LENGTH('a)" using that by (intro power_increasing) auto
  then have "trie_path (trie_new :: 'a word trie) (\<lambda>n. [])"
    by (auto simp: trie_path_def trie_new_def trie_limit_def kid_def)
  then show ?thesis by (auto simp: trie_inv_def)
qed

lemma trie_new_abs: "trie_abs (trie_new :: 'a::len word trie) = Map.empty"
proof
  fix p show "trie_abs (trie_new :: 'a word trie) p = None"
    by (cases p) (auto simp: trie_abs_def abs_from_Cons abs_from_Nil trie_new_def kid_def)
qed

lemma trie_new_size: "t_size trie_new = 1"
  by (simp add: trie_new_def)

lemma no_value_abs: "abs_from t n p \<noteq> Some no_value"
  by (auto simp: abs_from_def split: option.splits)

lemma trie_get_lpm:
  assumes "trie_inv t" "32 \<le> LENGTH('a)"
  shows "trie_get t (key :: 'a::len word) =
    Some (Ok (lpm (trie_abs t) (key_bits (push_bit (LENGTH('a) - 32) key))))"
proof -
  let ?d = "LENGTH('a) - 32"
  let ?key = "push_bit ?d key"
  from assms(1) obtain path where tp: "trie_path t path" by (auto simp: trie_inv_def)
  then have root: "0 < t_size t" "length (path 0) = 0" by (auto simp: trie_path_def)
  have "(top_bit ?d :: 'a word) = push_bit (32 - 1) 1" using assms(2) by (simp add: top_bit_def)
  moreover have "get_loop t key (top_bit (0 + ?d)) no_value (of_nat 0) =
      Some (Ok (case lpm (trie_abs t) (key_bits ?key) of Some x \<Rightarrow> x | None \<Rightarrow> no_value))"
    unfolding get_loop_shift [OF tp root] using get_loop_lpm [OF tp root, of ?key no_value]
    by (simp add: trie_abs_def)
  moreover have "lpm (trie_abs t) (key_bits ?key) \<noteq> Some no_value"
    by (auto simp: trie_abs_def no_value_abs dest: lpm_Some)
  ultimately show ?thesis
    by (auto simp: trie_get_def split: option.splits)
qed

lemma trie_get_correct:
  "trie_inv t \<Longrightarrow> trie_get t (key :: u32) = Some (Ok (lpm (trie_abs t) (key_bits key)))"
  using trie_get_lpm [of t key] by simp

text \<open>The IPv4 trie is a longest-prefix-match table.\<close>

definition trie4_limit :: nat where
  "trie4_limit = 2 ^ 32 - 1"

lemma trie_limit_32: "trie_limit TYPE(32) = trie4_limit"
  by (simp add: trie_limit_def trie4_limit_def)

interpretation t4: prefix_table "trie_new :: u32 trie" "\<lambda>t k n v. trie_put checks t k (of_nat n) v"
  trie_get trie_inv trie_abs key_bits "\<lambda>v. v \<noteq> no_value" t_size 32 32 trie4_limit for checks
proof unfold_locales
  fix t :: "u32 trie" and n :: nat and v k
  assume "trie_inv t" "1 \<le> n" "n \<le> 32" "v \<noteq> no_value" "t_size t + 32 < trie4_limit"
  then show "\<exists>t'. trie_put checks t k (of_nat n) v = Ok t' \<and> trie_inv t' \<and>
      trie_abs t' = (trie_abs t)(take n (key_bits k) \<mapsto> v) \<and> t_size t' \<le> t_size t + 32"
    using trie_put_correct [of t n v checks k] by (simp add: trie_limit_32)
qed (simp_all add: trie_new_inv trie_new_abs trie_get_correct)

end
