(* ===== verification/Geoip.thy ===== *)
theory Geoip
  imports Ip_Trie_Proofs
begin

text \<open>
  \<open>GeoIPMatcher\<close> of \<open>src/config/ip_trie.rs\<close>: the IPv4 side is a longest-prefix-match table from
  networks to outbound names; the IPv6 side holds such a table too, but looks an address up as if its
  low 32 bits were its first.
\<close>

section \<open>Normalisation\<close>

lemma normalize_bits:
  assumes "1 \<le> n" "n \<le> 32"
  shows "\<exists>ip'. normalize checks ip (of_nat n) = Ok ip' \<and> take n (key_bits ip') = take n (key_bits ip)"
proof -
  let ?ip = "push_bit (32 - n) (drop_bit (32 - n) ip)"
  have u: "unat (of_nat n :: u8) = n" using assms by simp
  then have "unat (32 - of_nat n :: u8) = 32 - n" using assms by (simp add: unat_sub_if_size)
  then have "normalize checks ip (of_nat n) = Ok ?ip"
    using assms u by (simp add: normalize_def u8_sub_def shr_def shl_def)
  moreover have "take n (key_bits ?ip) = take n (key_bits ip)"
    using assms by (intro nth_equalityI) (auto simp: bit_simps)
  ultimately show ?thesis by blast
qed

section \<open>The matcher as a table\<close>

definition geo_inv :: "geoip_matcher \<Rightarrow> bool" where
  "geo_inv m \<longleftrightarrow> trie_inv (trie4 m) \<and> trie_inv (trie6 m) \<and>
     (\<forall>p c. trie_abs (trie4 m) p = Some c \<or> trie_abs (trie6 m) p = Some c \<longrightarrow>
        unat c < length (outbound m))"

definition geo_abs4 :: "geoip_matcher \<Rightarrow> bool list \<rightharpoonup> string" where
  "geo_abs4 m p = map_option (\<lambda>c. outbound m ! unat c) (trie_abs (trie4 m) p)"

definition geo_abs6 :: "geoip_matcher \<Rightarrow> bool list \<rightharpoonup> string" where
  "geo_abs6 m p = map_option (\<lambda>c. outbound m ! unat c) (trie_abs (trie6 m) p)"

definition geo_size :: "geoip_matcher \<Rightarrow> nat" where
  "geo_size m = t_size (trie4 m) + t_size (trie6 m) + length (outbound m)"

lemma position_Some: "position x xs = Some i \<Longrightarrow> i < length xs \<and> xs ! i = x"
  by (induction xs arbitrary: i) (auto split: if_splits)

lemma position_None: "position x xs = None \<longleftrightarrow> x \<notin> set xs"
  by (induction xs) auto

lemma get_outbound_pos_correct:
  assumes "get_outbound_pos m ob = (m', pos)"
  shows "trie4 m' = trie4 m" "trie6 m' = trie6 m" "pos < length (outbound m')"
    "outbound m' ! pos = ob" "\<exists>ext. outbound m' = outbound m @ ext"
    "length (outbound m') \<le> Suc (length (outbound m))"
  using assms
  by (auto simp: get_outbound_pos_def dest: position_Some split: option.splits)

lemma lpm_map_option: "lpm (\<lambda>p. map_option f (m p)) ks = map_option f (lpm m ks)"
  by (induction ks arbitrary: m) (auto split: option.splits)

lemma match4_lpm:
  assumes "geo_inv m"
  shows "match4 m ip = Some (Ok (case lpm (geo_abs4 m) (key_bits ip) of Some ob \<Rightarrow> ob | None \<Rightarrow> ''''))"
proof -
  have l: "lpm (geo_abs4 m) (key_bits ip) =
      map_option (\<lambda>c. outbound m ! unat c) (lpm (trie_abs (trie4 m)) (key_bits ip))"
    unfolding geo_abs4_def by (rule lpm_map_option)
  have "unat c < length (outbound m)" if "lpm (trie_abs (trie4 m)) (key_bits ip) = Some c" for c
    using lpm_Some [OF that] assms by (auto simp: geo_inv_def)
  with assms show ?thesis
    by (auto simp: match4_def trie_get_correct geo_inv_def l index_vec_def split: option.splits)
qed

text \<open>The IPv6 lookup starts at bit 31, so it reads the low 32 bits first and zeros after them.\<close>

lemma match6_lpm:
  assumes "geo_inv m"
  shows "match6 m ip =
    Some (Ok (case lpm (geo_abs6 m) (key_bits (push_bit 96 ip)) of Some ob \<Rightarrow> ob | None \<Rightarrow> ''''))"
proof -
  let ?ip = "push_bit 96 ip"
  have get: "trie_get (trie6 m) ip = Some (Ok (lpm (trie_abs (trie6 m)) (key_bits ?ip)))"
    using trie_get_lpm [of "trie6 m" ip] assms by (simp add: geo_inv_def)
  have l: "lpm (geo_abs6 m) (key_bits ?ip) =
      map_option (\<lambda>c. outbound m ! unat c) (lpm (trie_abs (trie6 m)) (key_bits ?ip))"
    unfolding geo_abs6_def by (rule lpm_map_option)
  have "unat c < length (outbound m)" if "lpm (trie_abs (trie6 m)) (key_bits ?ip) = Some c" for c
    using lpm_Some [OF that] assms by (auto simp: geo_inv_def)
  then show ?thesis by (auto simp: match6_def get l index_vec_def split: option.splits)
qed

lemma put_v4_correct:
  assumes "geo_inv m" "1 \<le> n" "n \<le> 32" "geo_size m + 33 < trie4_limit"
  shows "\<exists>m'. put_v4 checks m ip (of_nat n) ob = Ok m' \<and> geo_inv m' \<and>
    geo_abs4 m' = (geo_abs4 m)(take n (key_bits ip) \<mapsto> ob) \<and> geo_abs6 m' = geo_abs6 m \<and>
    geo_size m' \<le> geo_size m + 33"
proof -
  obtain m1 pos where g: "get_outbound_pos m ob = (m1, pos)" by fastforce
  note g1 = get_outbound_pos_correct [OF g]
  then obtain ext where ext: "outbound m1 = outbound m @ ext" by blast
  from normalize_bits [OF assms(2,3)] obtain ip' where
    ip': "normalize checks ip (of_nat n) = Ok ip'" "take n (key_bits ip') = take n (key_bits ip)"
    by blast
  have pos: "pos < trie4_limit" using g1 assms(4) by (simp add: geo_size_def)
  then have u: "unat (of_nat pos :: u32) = pos" "(of_nat pos :: u32) \<noteq> no_value"
    using of_nat_node [of pos, where 'a = 32] by (simp_all add: trie_limit_32 no_value_def nullptr_def)
  have "trie_inv (trie4 m)" using assms(1) by (simp add: geo_inv_def)
  from trie_put_correct [OF this assms(2), of "of_nat pos" checks ip'] assms g1 u obtain t where
    t: "trie_put checks (trie4 m) ip' (of_nat n) (of_nat pos) = Ok t" "trie_inv t"
      "trie_abs t = (trie_abs (trie4 m))(take n (key_bits ip) \<mapsto> of_nat pos)"
      "t_size t \<le> t_size (trie4 m) + 32"
    by (auto simp: trie_limit_32 geo_size_def ip'(2))
  let ?m = "m1\<lparr>trie4 := t\<rparr>"
  have "put_v4 checks m ip (of_nat n) ob = Ok ?m"
    using g g1 ip' t by (simp add: put_v4_def)
  moreover have inv: "unat c < length (outbound m)" if "trie_abs (trie4 m) p = Some c" for p c
    using assms(1) that by (auto simp: geo_inv_def)
  have inv6: "unat c < length (outbound m)" if "trie_abs (trie6 m) p = Some c" for p c
    using assms(1) that by (auto simp: geo_inv_def)
  then have "geo_inv ?m"
    using t(2) g1(2,3) u ext assms(1) inv by (fastforce simp: geo_inv_def t(3) split: if_splits)
  moreover have "geo_abs6 ?m = geo_abs6 m"
  proof
    fix p
    show "geo_abs6 ?m p = geo_abs6 m p"
      using inv6 [of p] ext g1(2) by (cases "trie_abs (trie6 m) p") (auto simp: geo_abs6_def nth_append)
  qed
  moreover have "geo_abs4 ?m = (geo_abs4 m)(take n (key_bits ip) \<mapsto> ob)"
  proof
    fix p
    show "geo_abs4 ?m p = ((geo_abs4 m)(take n (key_bits ip) \<mapsto> ob)) p"
      using g1(4) u inv [of p] ext
      by (cases "trie_abs (trie4 m) p") (auto simp: geo_abs4_def t(3) nth_append)
  qed
  moreover have "geo_size ?m \<le> geo_size m + 33" using t(4) g1(2,6) by (simp add: geo_size_def)
  ultimately show ?thesis by blast
qed

definition match4_opt :: "geoip_matcher \<Rightarrow> u32 \<Rightarrow> string option res option" where
  "match4_opt m ip = map_option (map_res (\<lambda>ob. if ob = '''' then None else Some ob)) (match4 m ip)"

lemma geoip_new_inv: "geo_inv geoip_new" "geo_abs4 geoip_new = Map.empty" "geo_size geoip_new = 2"
    "geo_abs6 geoip_new = Map.empty"
  by (auto simp: geo_inv_def geoip_new_def trie_new_inv trie_new_abs geo_abs4_def geo_abs6_def geo_size_def
      trie_new_size)

lemma normalize6_bits:
  assumes "1 \<le> n" "n \<le> 128"
  shows "\<exists>ip'. normalize6 checks ip (of_nat n) = Ok ip' \<and> take n (key_bits ip') = take n (key_bits ip)"
proof -
  let ?ip = "push_bit (128 - n) (drop_bit (128 - n) ip)"
  have u: "unat (of_nat n :: u8) = n" using assms by simp
  then have "unat (128 - of_nat n :: u8) = 128 - n" using assms by (simp add: unat_sub_if_size)
  then have "normalize6 checks ip (of_nat n) = Ok ?ip"
    using assms u by (simp add: normalize6_def u8_sub_def shr_def shl_def)
  moreover have "take n (key_bits ?ip) = take n (key_bits ip)"
    using assms by (intro nth_equalityI) (auto simp: bit_simps)
  ultimately show ?thesis by blast
qed

text \<open>An IPv6 rule is stored, and leaves the IPv4 side as it is.\<close>

lemma put_v6_correct:
  assumes "geo_inv m" "1 \<le> n" "n \<le> 128" "geo_size m + 129 < trie4_limit"
  shows "\<exists>m'. put_v6 checks m ip (of_nat n) ob = Ok m' \<and> geo_inv m' \<and>
    geo_abs4 m' = geo_abs4 m \<and> geo_abs6 m' = (geo_abs6 m)(take n (key_bits ip) \<mapsto> ob) \<and>
    geo_size m' \<le> geo_size m + 129"
proof -
  obtain m1 pos where g: "get_outbound_pos m ob = (m1, pos)" by fastforce
  note g1 = get_outbound_pos_correct [OF g]
  then obtain ext where ext: "outbound m1 = outbound m @ ext" by blast
  from normalize6_bits [OF assms(2,3)] obtain ip' where
    ip': "normalize6 checks ip (of_nat n) = Ok ip'" "take n (key_bits ip') = take n (key_bits ip)" by blast
  have pos: "pos < trie4_limit" using g1 assms(4) by (simp add: geo_size_def)
  then have u: "unat (of_nat pos :: u32) = pos" "(of_nat pos :: u32) \<noteq> no_value"
    using of_nat_node [of pos, where 'a = 32] by (simp_all add: trie_limit_32 no_value_def nullptr_def)
  have inv6: "trie_inv (trie6 m)" using assms(1) by (simp add: geo_inv_def)
  have "t_size (trie6 m) + 128 \<le> trie_limit TYPE(128)"
    using assms(4) by (simp add: geo_size_def trie_limit_def trie4_limit_def)
  with trie_put_correct [OF inv6 assms(2), of "of_nat pos" checks ip'] assms u obtain t where
    t: "trie_put checks (trie6 m) ip' (of_nat n) (of_nat pos) = Ok t" "trie_inv t"
      "trie_abs t = (trie_abs (trie6 m))(take n (key_bits ip) \<mapsto> of_nat pos)"
      "t_size t \<le> t_size (trie6 m) + 128"
    by (auto simp: ip'(2))
  let ?m = "m1\<lparr>trie6 := t\<rparr>"
  have "put_v6 checks m ip (of_nat n) ob = Ok ?m"
    using g g1 ip' t by (simp add: put_v6_def)
  moreover have inv: "unat c < length (outbound m)"
    if "trie_abs (trie4 m) p = Some c \<or> trie_abs (trie6 m) p = Some c" for p c
    using assms(1) that by (auto simp: geo_inv_def)
  have "geo_inv ?m"
    using t(2) g1(1,3) u ext assms(1) inv by (fastforce simp: geo_inv_def t(3) split: if_splits)
  moreover have "geo_abs4 ?m = geo_abs4 m"
  proof
    fix p
    show "geo_abs4 ?m p = geo_abs4 m p"
      using inv [of p] ext g1(1) by (cases "trie_abs (trie4 m) p") (auto simp: geo_abs4_def nth_append)
  qed
  moreover have "geo_abs6 ?m = (geo_abs6 m)(take n (key_bits ip) \<mapsto> ob)"
  proof
    fix p
    show "geo_abs6 ?m p = ((geo_abs6 m)(take n (key_bits ip) \<mapsto> ob)) p"
      using g1(4) u inv [of p] ext
      by (cases "trie_abs (trie6 m) p") (auto simp: geo_abs6_def t(3) nth_append)
  qed
  moreover have "geo_size ?m \<le> geo_size m + 129" using t(4) g1(1,6) by (simp add: geo_size_def)
  ultimately show ?thesis by blast
qed

text \<open>A lookup on either side ends and finds a name.\<close>

lemma match6_total: "geo_inv m \<Longrightarrow> \<exists>ob. match6 m ip = Some (Ok ob)"
  by (simp add: match6_lpm)

section \<open>The IPv6 side\<close>

text \<open>
  The start bit of \<open>get\<close> is bit 31 in both instances, so the 128-bit lookup never reads the upper
  96 bits of the address.
\<close>

lemma get_loop_low_bits_aux:
  "get_loop t k1 bt v node = Some r \<Longrightarrow>
     \<forall>k2. take_bit 32 bt = bt \<and> take_bit 32 k1 = take_bit 32 k2 \<longrightarrow> get_loop t k2 bt v node = Some r"
proof (induction rule: get_loop.raw_induct [rotated 1, consumes 1])
  case (1 f t k1 bt v node r)
  show ?case
  proof (intro allI impI, elim conjE)
    fix k2 assume b: "take_bit 32 bt = bt" and k: "take_bit 32 k1 = take_bit 32 k2"
    have mb: "x AND bt = take_bit 32 x AND bt" for x
      using take_bit_and [of 32 x bt] b by (simp add: bit_eq_iff bit_simps) blast
    have "k1 AND bt = k2 AND bt" by (subst (1 2) mb) (simp only: k)
    moreover have "take_bit 32 (drop_bit (Suc 0) bt) = drop_bit (Suc 0) bt"
    proof (rule bit_word_eqI)
      fix n
      have "bit bt (Suc n) \<longleftrightarrow> bit (take_bit 32 bt) (Suc n)" by (simp add: b)
      then show "bit (take_bit 32 (drop_bit (Suc 0) bt)) n \<longleftrightarrow> bit (drop_bit (Suc 0) bt) n"
        by (auto simp: bit_simps)
    qed
    ultimately show "get_loop t k2 bt v node = Some r"
      using 1 k by (subst get_loop.simps) (auto split: if_splits res.splits)
  qed
qed

lemma trie_get_low_bits:
  fixes k1 k2 :: u128
  assumes "take_bit 32 k1 = take_bit 32 k2"
  shows "trie_get t k1 = trie_get t k2"
proof -
  have b: "take_bit 32 (push_bit 31 1) = (push_bit 31 1 :: u128)"
    by (simp add: take_bit_push_bit)
  have imp: "get_loop t k' (push_bit 31 1) no_value 0 = Some r"
    if "get_loop t k (push_bit 31 1) no_value 0 = Some r" "take_bit 32 k = take_bit 32 k'"
    for k k' :: u128 and r
    using get_loop_low_bits_aux [OF that(1)] b that(2) by blast
  have "get_loop t k1 (push_bit 31 1) no_value 0 = Some r \<longleftrightarrow>
      get_loop t k2 (push_bit 31 1) no_value 0 = Some r" for r
    using imp [OF _ assms] imp [OF _ assms [symmetric]] by blast
  then have "get_loop t k1 (push_bit 31 1) no_value 0 = get_loop t k2 (push_bit 31 1) no_value 0"
    by (metis option.exhaust)
  then show ?thesis by (simp add: trie_get_def)
qed

lemma match6_low_bits: "take_bit 32 ip1 = take_bit 32 ip2 \<Longrightarrow> match6 m ip1 = match6 m ip2"
  by (simp add: match6_def trie_get_low_bits [of ip1 ip2])

section \<open>Prefix length 0\<close>

lemma trie_put_0_checked: "trie_put True t (key :: u32) 0 v = Panic"
  by (simp add: trie_put_def usize_sub_def shl_def)

lemma trie_put_0_unchecked: "trie_put False t (key :: u32) 0 v = trie_put False t key 32 v"
  by (simp add: trie_put_def usize_sub_def shl_def)

lemma put_v4_0_checked: "put_v4 True m ip 0 ob = Panic"
  by (simp add: put_v4_def normalize_def u8_sub_def shr_def split: prod.splits)

lemma put_v4_0_unchecked: "put_v4 False m ip 0 ob = put_v4 False m ip 32 ob"
  by (simp add: put_v4_def normalize_def u8_sub_def shr_def shl_def trie_put_0_unchecked
      split: prod.splits)

text \<open>The IPv4 matcher is a longest-prefix-match table from networks to outbounds.\<close>

interpretation g4: prefix_table geoip_new "\<lambda>m k n ob. put_v4 checks m k (of_nat n) ob"
  match4_opt "\<lambda>m. geo_inv m \<and> (\<forall>p. geo_abs4 m p \<noteq> Some '''')" geo_abs4 key_bits "\<lambda>ob. ob \<noteq> ''''"
  geo_size 32 33 trie4_limit for checks
proof unfold_locales
  fix m and ob :: string and k and n :: nat
  assume "geo_inv m \<and> (\<forall>p. geo_abs4 m p \<noteq> Some '''')" "1 \<le> n" "n \<le> 32" "ob \<noteq> ''''"
    "geo_size m + 33 < trie4_limit"
  with put_v4_correct [of m n checks k ob]
  show "\<exists>m'. put_v4 checks m k (of_nat n) ob = Ok m' \<and>
      (geo_inv m' \<and> (\<forall>p. geo_abs4 m' p \<noteq> Some '''')) \<and>
      geo_abs4 m' = (geo_abs4 m)(take n (key_bits k) \<mapsto> ob) \<and> geo_size m' \<le> geo_size m + 33"
    by auto
next
  fix m k
  assume "geo_inv m \<and> (\<forall>p. geo_abs4 m p \<noteq> Some '''')"
  then show "match4_opt m k = Some (Ok (lpm (geo_abs4 m) (key_bits k)))"
    using lpm_Some [of "geo_abs4 m" "key_bits k" "''''"]
    by (auto simp: match4_opt_def match4_lpm split: option.splits)
qed (simp_all add: geoip_new_inv)


text \<open>Lists of rules, on either side.\<close>

fun put_v4_all :: "bool \<Rightarrow> (u32 \<times> nat \<times> string) list \<Rightarrow> geoip_matcher \<Rightarrow> geoip_matcher res" where
  "put_v4_all checks [] m = Ok m"
| "put_v4_all checks ((ip, n, ob) # rs) m =
     bind_res (put_v4 checks m ip (of_nat n) ob) (put_v4_all checks rs)"

fun put_v6_all :: "bool \<Rightarrow> (u128 \<times> nat \<times> string) list \<Rightarrow> geoip_matcher \<Rightarrow> geoip_matcher res" where
  "put_v6_all checks [] m = Ok m"
| "put_v6_all checks ((ip, n, ob) # rs) m =
     bind_res (put_v6 checks m ip (of_nat n) ob) (put_v6_all checks rs)"

lemma put_v4_all_correct:
  assumes "geo_inv m" "\<forall>(ip, n, ob) \<in> set rs. 1 \<le> n \<and> n \<le> 32"
    and "geo_size m + 33 * length rs < trie4_limit"
  shows "\<exists>m'. put_v4_all checks rs m = Ok m' \<and> geo_inv m' \<and> geo_size m' \<le> geo_size m + 33 * length rs \<and>
    geo_abs4 m' = geo_abs4 m ++ rule_map (map (\<lambda>(ip, n, ob). (take n (key_bits ip), ob)) rs)"
  using assms
proof (induction rs arbitrary: m)
  case Nil
  then show ?case by simp
next
  case (Cons r rs)
  obtain ip n ob where r: "r = (ip, n, ob)" by (cases r)
  from put_v4_correct [of m n checks ip ob] Cons.prems obtain m1 where
    m1: "put_v4 checks m ip (of_nat n) ob = Ok m1" "geo_inv m1"
      "geo_abs4 m1 = (geo_abs4 m)(take n (key_bits ip) \<mapsto> ob)" "geo_size m1 \<le> geo_size m + 33"
    by (auto simp: r)
  from Cons.IH [OF m1(2)] Cons.prems m1(4) obtain m2 where
    "put_v4_all checks rs m1 = Ok m2" "geo_inv m2" "geo_size m2 \<le> geo_size m1 + 33 * length rs"
    "geo_abs4 m2 = geo_abs4 m1 ++ rule_map (map (\<lambda>(ip, n, ob). (take n (key_bits ip), ob)) rs)"
    by auto
  with m1 show ?case
    by (auto simp: r rule_map_def map_add_def fun_eq_iff split: option.splits)
qed

lemma put_v6_all_correct:
  assumes "geo_inv m" "\<forall>(ip, n, ob) \<in> set rs. 1 \<le> n \<and> n \<le> 128"
    and "geo_size m + 129 * length rs < trie4_limit"
  shows "\<exists>m'. put_v6_all checks rs m = Ok m' \<and> geo_inv m' \<and> geo_abs4 m' = geo_abs4 m \<and>
    geo_abs6 m' = geo_abs6 m ++ rule_map (map (\<lambda>(ip, n, ob). (take n (key_bits ip), ob)) rs)"
  using assms
proof (induction rs arbitrary: m)
  case Nil
  then show ?case by simp
next
  case (Cons r rs)
  obtain ip n ob where r: "r = (ip, n, ob)" by (cases r)
  from put_v6_correct [of m n checks ip ob] Cons.prems obtain m1 where
    m1: "put_v6 checks m ip (of_nat n) ob = Ok m1" "geo_inv m1" "geo_abs4 m1 = geo_abs4 m"
      "geo_abs6 m1 = (geo_abs6 m)(take n (key_bits ip) \<mapsto> ob)" "geo_size m1 \<le> geo_size m + 129"
    by (auto simp: r)
  from Cons.IH [OF m1(2)] Cons.prems m1(5) obtain m2 where
    "put_v6_all checks rs m1 = Ok m2" "geo_inv m2" "geo_abs4 m2 = geo_abs4 m1"
    "geo_abs6 m2 = geo_abs6 m1 ++ rule_map (map (\<lambda>(ip, n, ob). (take n (key_bits ip), ob)) rs)"
    by auto
  with m1 show ?case
    by (auto simp: r rule_map_def map_add_def fun_eq_iff split: option.splits)
qed

end
