(* ===== verification/Router.thy ===== *)
theory Router
  imports Insert_Order_Map Geoip
begin

text \<open>
  \<open>src/config/route.rs\<close>: the router builder and the router. The libraries it calls are parameters,
  collected in two records: the domain matchers, regular expressions, CIDR parser, hash-map order
  and case folding in \<open>router_lib\<close>, and the protobuf input stream in \<open>coded_input\<close>.
\<close>

section \<open>Libraries\<close>

datatype match_type = Full bool | Domain bool | SubStr bool

datatype ip_cidr = CidrV4 u32 u8 | CidrV6 u128 u8

record ('m, 'r) router_lib =
  mph_matcher_new :: 'm
  hybrid_matcher_new :: 'm
  reverse_insert :: "string \<Rightarrow> match_type \<Rightarrow> 'm \<Rightarrow> 'm"
  dm_build :: "'m \<Rightarrow> 'm"
  reverse_query :: "'m \<Rightarrow> string \<Rightarrow> bool"
  regex_set_build :: "string list \<Rightarrow> string + 'r"
  regex_is_match :: "'r \<Rightarrow> string \<Rightarrow> bool"
  is_ip_cidr :: "string \<Rightarrow> bool"
  ip_cidr_from_str :: "string \<Rightarrow> ip_cidr option"
  hash_order :: "(string \<times> 'r) list \<Rightarrow> (string \<times> 'r) list"
  to_uppercase :: "string \<Rightarrow> string"

datatype geosite_type = Plain | Regex | RootDomain | FullDomain

record geosite_domain =
  gd_type :: geosite_type
  gd_value :: string

record cidr_msg =
  cm_ip :: bytes
  cm_prefix :: u32

record ('s, 'w) coded_input =
  file_open :: "string \<Rightarrow> 's res"
  cis_eof :: "'s \<Rightarrow> bool res \<times> 's"
  read_raw_varint32 :: "'s \<Rightarrow> u32 res \<times> 's"
  read_raw_varint64 :: "'s \<Rightarrow> u64 res \<times> 's"
  read_string :: "'s \<Rightarrow> string res \<times> 's"
  read_domain :: "'s \<Rightarrow> geosite_domain res \<times> 's"
  merge_cidr :: "cidr_msg \<Rightarrow> 's \<Rightarrow> cidr_msg res \<times> 's"
  skip_field :: "'w \<Rightarrow> 's \<Rightarrow> unit res \<times> 's"
  wire_type_new :: "u32 \<Rightarrow> 'w option"

section \<open>The builder\<close>

record 'm router_builder =
  rb_domain_matchers :: "'m kmap"
  rb_ip_matcher :: geoip_matcher
  rb_regex_matchers :: "string list kmap"

definition router_builder_new :: "'m router_builder" where
  "router_builder_new =
     \<lparr>rb_domain_matchers = kmap_new, rb_ip_matcher = geoip_new, rb_regex_matchers = kmap_new\<rparr>"

definition add_regex_rules ::
  "string \<Rightarrow> string list \<Rightarrow> 'm router_builder \<Rightarrow> 'm router_builder res" where
  "add_regex_rules outbound_tag regex_rules b =
     bind_res (kmap_get (rb_regex_matchers b) outbound_tag) (\<lambda>e.
       case e of
         Some _ \<Rightarrow>
           map_res (\<lambda>m. b\<lparr>rb_regex_matchers := m\<rparr>)
             (kmap_get_mut (rb_regex_matchers b) outbound_tag (\<lambda>exprs. exprs @ regex_rules))
       | None \<Rightarrow>
           Ok (b\<lparr>rb_regex_matchers := kmap_insert outbound_tag regex_rules (rb_regex_matchers b)\<rparr>))"

fun add_cidr_rules ::
  "('m, 'r) router_lib \<Rightarrow> bool \<Rightarrow> string \<Rightarrow> string list \<Rightarrow> 'm router_builder \<Rightarrow> 'm router_builder res"
where
  "add_cidr_rules L checks outbound_tag [] b = Ok b"
| "add_cidr_rules L checks outbound_tag (rule # ip_rules) b =
     (if is_ip_cidr L rule then
        (case ip_cidr_from_str L rule of
           None \<Rightarrow> Panic
         | Some (CidrV4 pfx bits) \<Rightarrow>
             bind_res (put_v4 checks (rb_ip_matcher b) pfx bits outbound_tag) (\<lambda>m.
               add_cidr_rules L checks outbound_tag ip_rules (b\<lparr>rb_ip_matcher := m\<rparr>))
         | Some (CidrV6 pfx bits) \<Rightarrow>
             bind_res (put_v6 checks (rb_ip_matcher b) pfx bits outbound_tag) (\<lambda>m.
               add_cidr_rules L checks outbound_tag ip_rules (b\<lparr>rb_ip_matcher := m\<rparr>)))
      else add_cidr_rules L checks outbound_tag ip_rules b)"

definition add_domain_rules ::
  "('m, 'r) router_lib \<Rightarrow> string \<Rightarrow> string \<Rightarrow> match_type \<Rightarrow> bool \<Rightarrow> 'm router_builder \<Rightarrow>
   'm router_builder res" where
  "add_domain_rules L rule outbound_tag match_type use_mph b =
     bind_res (kmap_get (rb_domain_matchers b) outbound_tag) (\<lambda>e.
       case e of
         Some _ \<Rightarrow>
           map_res (\<lambda>m. b\<lparr>rb_domain_matchers := m\<rparr>)
             (kmap_get_mut (rb_domain_matchers b) outbound_tag (reverse_insert L rule match_type))
       | None \<Rightarrow>
           (let matcher = (if use_mph then mph_matcher_new L else hybrid_matcher_new L)
            in Ok (b\<lparr>rb_domain_matchers :=
                 kmap_insert outbound_tag (reverse_insert L rule match_type matcher)
                   (rb_domain_matchers b)\<rparr>)))"

section \<open>Reading geosite and geoip files\<close>

definition TAG_TYPE_BITS :: nat where "TAG_TYPE_BITS = 3"

definition TAG_TYPE_MASK :: u32 where "TAG_TYPE_MASK = push_bit TAG_TYPE_BITS 1 - 1"

definition to_field_num_and_wire_type :: "(u32 \<Rightarrow> 'w option) \<Rightarrow> u32 \<Rightarrow> (u32 \<times> 'w) res" where
  "to_field_num_and_wire_type wt value =
     (case wt (value AND TAG_TYPE_MASK) of
        None \<Rightarrow> Err (new_error (''unexpected wire type: '' @ show_dec (unat (value AND TAG_TYPE_MASK))))
      | Some wire_type \<Rightarrow>
          (let field_number = drop_bit TAG_TYPE_BITS value in
           if field_number = 0 then Err (new_error ''unexpected field number: 0'')
           else Ok (field_number, wire_type)))"

fun geosite_prepare ::
  "('m, 'r) router_lib \<Rightarrow> bool \<Rightarrow> (string \<times> string) list \<Rightarrow> 'm router_builder \<Rightarrow> 'm router_builder"
where
  "geosite_prepare L use_mph [] b = b"
| "geosite_prepare L use_mph (tag # tags) b =
     geosite_prepare L use_mph tags
       (if contains_key (rb_domain_matchers b) (snd tag) then b
        else b\<lparr>rb_domain_matchers :=
               kmap_insert (snd tag) (if use_mph then mph_matcher_new L else hybrid_matcher_new L)
                 (rb_domain_matchers b)\<rparr>)"

definition geosite_insert ::
  "('m, 'r) router_lib \<Rightarrow> geosite_domain \<Rightarrow> string \<Rightarrow> 'm router_builder \<Rightarrow> 'm router_builder res" where
  "geosite_insert L domain outbound_tag b =
     (if \<not> contains_key (rb_domain_matchers b) outbound_tag then Panic
      else let ins = (\<lambda>mt. map_res (\<lambda>m. b\<lparr>rb_domain_matchers := m\<rparr>)
                   (kmap_get_mut (rb_domain_matchers b) outbound_tag
                      (reverse_insert L (gd_value domain) mt)))
           in case gd_type domain of
                Plain \<Rightarrow> ins (SubStr True)
              | RootDomain \<Rightarrow> ins (Domain True)
              | FullDomain \<Rightarrow> ins (Full True)
              | Regex \<Rightarrow> add_regex_rules outbound_tag [gd_value domain] b)"

text \<open>One round of the inner loop of \<open>read_geosite_file\<close>: a field of the current group.\<close>

definition geosite_field ::
  "('m, 'r) router_lib \<Rightarrow> ('s, 'w) coded_input \<Rightarrow> (string \<times> string) list \<Rightarrow>
   'm router_builder \<times> string \<times> string option \<Rightarrow> 's \<Rightarrow>
   ('m router_builder \<times> string \<times> string option) res \<times> 's" where
  "geosite_field L C geosite_tags = (\<lambda>(b, site_group_tag, skip) is.
     bind_io (read_raw_varint32 C is) (\<lambda>v is.
     bind_io (to_field_num_and_wire_type (wire_type_new C) v, is) (\<lambda>(field_number, wire_type) is.
       if field_number = 1 then
         (if site_group_tag \<noteq> [] then
            bind_io (read_raw_varint64 C is) (\<lambda>_ is. (Ok (b, [], skip), is))
          else bind_io (read_string C is) (\<lambda>tag is. (Ok (b, tag, map_of geosite_tags tag), is)))
       else if field_number = 2 then
         (case skip of
            None \<Rightarrow> bind_io (skip_field C wire_type is) (\<lambda>_ is. (Ok (b, site_group_tag, skip), is))
          | Some outbound_tag \<Rightarrow>
              bind_io (read_domain C is) (\<lambda>domain is.
                (map_res (\<lambda>b. (b, site_group_tag, skip)) (geosite_insert L domain outbound_tag b), is)))
       else (Ok (b, site_group_tag, skip), is))))"

partial_function (option) geosite_inner ::
  "('m, 'r) router_lib \<Rightarrow> ('s, 'w) coded_input \<Rightarrow> (string \<times> string) list \<Rightarrow>
   'm router_builder \<times> string \<times> string option \<Rightarrow> 's \<Rightarrow>
   (('m router_builder \<times> string \<times> string option) res \<times> 's) option" where
  "geosite_inner L C geosite_tags st is =
     (case cis_eof C is of
        (Ok e, is) \<Rightarrow>
          if e then Some (Ok st, is)
          else (case geosite_field L C geosite_tags st is of
                  (Ok st, is) \<Rightarrow> geosite_inner L C geosite_tags st is
                | (Err e, is) \<Rightarrow> Some (Err e, is)
                | (Panic, is) \<Rightarrow> Some (Panic, is))
      | (_, is) \<Rightarrow> Some (Panic, is))"

partial_function (option) geosite_outer ::
  "('m, 'r) router_lib \<Rightarrow> ('s, 'w) coded_input \<Rightarrow> (string \<times> string) list \<Rightarrow>
   'm router_builder \<times> string \<times> string option \<Rightarrow> 's \<Rightarrow>
   (('m router_builder \<times> string \<times> string option) res \<times> 's) option" where
  "geosite_outer L C geosite_tags st is =
     (case cis_eof C is of
        (Ok e, is) \<Rightarrow>
          if e then Some (Ok st, is)
          else (case bind_io (read_raw_varint32 C is) (\<lambda>_ is. read_raw_varint64 C is) of
                  (Ok _, is) \<Rightarrow>
                    (case geosite_inner L C geosite_tags st is of
                       None \<Rightarrow> None
                     | Some (Ok st, is) \<Rightarrow> geosite_outer L C geosite_tags st is
                     | Some (Err e, is) \<Rightarrow> Some (Err e, is)
                     | Some (Panic, is) \<Rightarrow> Some (Panic, is))
                | (Err e, is) \<Rightarrow> Some (Err e, is)
                | (Panic, is) \<Rightarrow> Some (Panic, is))
      | (Err e, is) \<Rightarrow> Some (Err e, is)
      | (Panic, is) \<Rightarrow> Some (Panic, is))"

definition read_geosite_file ::
  "('m, 'r) router_lib \<Rightarrow> ('s, 'w) coded_input \<Rightarrow> string \<Rightarrow> (string \<times> string) list \<Rightarrow> bool \<Rightarrow>
   'm router_builder \<Rightarrow> 'm router_builder res option" where
  "read_geosite_file L C file_name geosite_tags use_mph b =
     (let b = geosite_prepare L use_mph geosite_tags b in
      case file_open C file_name of
        Ok is \<Rightarrow> map_option (\<lambda>(r, _). map_res fst r) (geosite_outer L C geosite_tags (b, [], None) is)
      | Err e \<Rightarrow> Some (Err (new_error (''open geosite file '' @ file_name @ '' failed: '' @ message e)))
      | Panic \<Rightarrow> Some Panic)"

definition geoip_field ::
  "('m, 'r) router_lib \<Rightarrow> ('s, 'w) coded_input \<Rightarrow> bool \<Rightarrow> string \<Rightarrow> string list \<Rightarrow>
   'm router_builder \<times> cidr_msg \<times> string \<times> bool \<Rightarrow> 's \<Rightarrow>
   ('m router_builder \<times> cidr_msg \<times> string \<times> bool) res \<times> 's" where
  "geoip_field L C checks outbound_tag geoip_tags = (\<lambda>(b, cidr, country_code, skip) is.
     bind_io (read_raw_varint32 C is) (\<lambda>v is.
     bind_io (to_field_num_and_wire_type (wire_type_new C) v, is) (\<lambda>(field_number, wire_type) is.
       if field_number = 1 then
         (if country_code \<noteq> [] then
            bind_io (read_raw_varint64 C is) (\<lambda>_ is. (Ok (b, cidr, [], skip), is))
          else bind_io (read_string C is) (\<lambda>s is.
                 let country_code = to_uppercase L s
                 in (Ok (b, cidr, country_code, country_code \<notin> set geoip_tags), is)))
       else if field_number = 2 then
         (if skip then
            bind_io (skip_field C wire_type is) (\<lambda>_ is. (Ok (b, cidr, country_code, skip), is))
          else bind_io (merge_cidr C cidr is) (\<lambda>cidr is.
            if length (cm_ip cidr) = 16 then
              (map_res (\<lambda>m. (b\<lparr>rb_ip_matcher := m\<rparr>, cidr\<lparr>cm_ip := []\<rparr>, country_code, skip))
                 (put_v6 checks (rb_ip_matcher b) (of_nat (of_be (cm_ip cidr))) (ucast (cm_prefix cidr))
                    outbound_tag), is)
            else if length (cm_ip cidr) = 4 then
              (map_res (\<lambda>m. (b\<lparr>rb_ip_matcher := m\<rparr>, cidr\<lparr>cm_ip := []\<rparr>, country_code, skip))
                 (put_v4 checks (rb_ip_matcher b) (of_nat (of_be (cm_ip cidr))) (ucast (cm_prefix cidr))
                    outbound_tag), is)
            else (Ok (b, cidr, country_code, skip), is)))
       else (Ok (b, cidr, country_code, skip), is))))"

partial_function (option) geoip_inner ::
  "('m, 'r) router_lib \<Rightarrow> ('s, 'w) coded_input \<Rightarrow> bool \<Rightarrow> string \<Rightarrow> string list \<Rightarrow>
   'm router_builder \<times> cidr_msg \<times> string \<times> bool \<Rightarrow> 's \<Rightarrow>
   (('m router_builder \<times> cidr_msg \<times> string \<times> bool) res \<times> 's) option" where
  "geoip_inner L C checks outbound_tag geoip_tags st is =
     (case cis_eof C is of
        (Ok e, is) \<Rightarrow>
          if e then Some (Ok st, is)
          else (case geoip_field L C checks outbound_tag geoip_tags st is of
                  (Ok st, is) \<Rightarrow> geoip_inner L C checks outbound_tag geoip_tags st is
                | (Err e, is) \<Rightarrow> Some (Err e, is)
                | (Panic, is) \<Rightarrow> Some (Panic, is))
      | (Err e, is) \<Rightarrow> Some (Err e, is)
      | (Panic, is) \<Rightarrow> Some (Panic, is))"

partial_function (option) geoip_outer ::
  "('m, 'r) router_lib \<Rightarrow> ('s, 'w) coded_input \<Rightarrow> bool \<Rightarrow> string \<Rightarrow> string list \<Rightarrow>
   'm router_builder \<times> cidr_msg \<times> string \<times> bool \<Rightarrow> 's \<Rightarrow>
   (('m router_builder \<times> cidr_msg \<times> string \<times> bool) res \<times> 's) option" where
  "geoip_outer L C checks outbound_tag geoip_tags st is =
     (case cis_eof C is of
        (Ok e, is) \<Rightarrow>
          if e then Some (Ok st, is)
          else (case bind_io (read_raw_varint32 C is) (\<lambda>_ is. read_raw_varint64 C is) of
                  (Ok _, is) \<Rightarrow>
                    (case geoip_inner L C checks outbound_tag geoip_tags st is of
                       None \<Rightarrow> None
                     | Some (Ok st, is) \<Rightarrow> geoip_outer L C checks outbound_tag geoip_tags st is
                     | Some (Err e, is) \<Rightarrow> Some (Err e, is)
                     | Some (Panic, is) \<Rightarrow> Some (Panic, is))
                | (Err e, is) \<Rightarrow> Some (Err e, is)
                | (Panic, is) \<Rightarrow> Some (Panic, is))
      | (Err e, is) \<Rightarrow> Some (Err e, is)
      | (Panic, is) \<Rightarrow> Some (Panic, is))"

definition read_geoip_file ::
  "('m, 'r) router_lib \<Rightarrow> ('s, 'w) coded_input \<Rightarrow> bool \<Rightarrow> string \<Rightarrow> string \<Rightarrow> string list \<Rightarrow>
   'm router_builder \<Rightarrow> 'm router_builder res option" where
  "read_geoip_file L C checks file_name outbound_tag geoip_tags b =
     (let geoip_tags = map (to_uppercase L) geoip_tags in
      case file_open C file_name of
        Ok is \<Rightarrow>
          map_option (\<lambda>(r, _). map_res fst r)
            (geoip_outer L C checks outbound_tag geoip_tags
               (b, \<lparr>cm_ip = [], cm_prefix = 0\<rparr>, [], False) is)
      | Err e \<Rightarrow> Some (Err (new_error (''open geoip file '' @ file_name @ '' failed: '' @ message e)))
      | Panic \<Rightarrow> Some Panic)"

section \<open>The router\<close>

record ('m, 'r) router =
  domain_matchers :: "(string \<times> 'm) list"
  ip_matcher :: geoip_matcher
  regex_matchers :: "(string \<times> 'r) list"
  default_outbound_tag :: string

fun build_regex_sets :: "('m, 'r) router_lib \<Rightarrow> (string \<times> string list) list \<Rightarrow> (string \<times> 'r) list res" where
  "build_regex_sets L [] = Ok []"
| "build_regex_sets L ((outbound_tag, rules) # rest) =
     (case regex_set_build L rules of
        Inl e \<Rightarrow> Err (new_error (''router builder build regex set failed:'' @ e))
      | Inr rule_set \<Rightarrow> map_res (\<lambda>sets. (outbound_tag, rule_set) # sets) (build_regex_sets L rest))"

definition router_builder_build ::
  "('m, 'r) router_lib \<Rightarrow> string \<Rightarrow> 'm router_builder \<Rightarrow> ('m, 'r) router res" where
  "router_builder_build L default_tag b =
     bind_res (build_regex_sets L (kmap_into_iter (rb_regex_matchers b))) (\<lambda>sets.
       Ok \<lparr>domain_matchers = kmap_into_iter (kmap_iter_mut (dm_build L) (rb_domain_matchers b)),
           ip_matcher = rb_ip_matcher b,
           regex_matchers = hash_order L sets,
           default_outbound_tag = default_tag\<rparr>)"

definition socket_addr_v4_to_u32 :: "ipv4_addr \<Rightarrow> u32" where
  "socket_addr_v4_to_u32 ip4 = of_nat (of_be (octets ip4))"

definition socket_addr_v6_to_u128 :: "ipv6_addr \<Rightarrow> u128" where
  "socket_addr_v6_to_u128 ip6 = of_nat (of_be (octets6 ip6))"

definition or_default :: "('m, 'r) router \<Rightarrow> string res option \<Rightarrow> string res option" where
  "or_default rt r = map_option (map_res (\<lambda>res. if res = '''' then default_outbound_tag rt else res)) r"

fun match_socket_addr :: "('m, 'r) router \<Rightarrow> socket_addr \<Rightarrow> string res option" where
  "match_socket_addr rt (SockV4 e port) = or_default rt (match4 (ip_matcher rt) (socket_addr_v4_to_u32 e))"
| "match_socket_addr rt (SockV6 e port f s) =
     or_default rt (match6 (ip_matcher rt) (socket_addr_v6_to_u128 e))"

fun match_domain ::
  "('m, 'r) router_lib \<Rightarrow> (string \<times> 'm) list \<Rightarrow> (string \<times> 'r) list \<Rightarrow> string \<Rightarrow> string \<Rightarrow> string" where
  "match_domain L ((tag, matcher) # ds) rs dflt domain_name =
     (if reverse_query L matcher domain_name then tag else match_domain L ds rs dflt domain_name)"
| "match_domain L [] ((tag, matcher) # rs) dflt domain_name =
     (if regex_is_match L matcher domain_name then tag else match_domain L [] rs dflt domain_name)"
| "match_domain L [] [] dflt domain_name = dflt"

fun match_addr :: "('m, 'r) router_lib \<Rightarrow> ('m, 'r) router \<Rightarrow> address \<Rightarrow> string res option" where
  "match_addr L rt (SocketAddress (SockV4 ip4 port)) =
     or_default rt (match4 (ip_matcher rt) (socket_addr_v4_to_u32 ip4))"
| "match_addr L rt (SocketAddress (SockV6 ip6 port f s)) =
     or_default rt (match6 (ip_matcher rt) (socket_addr_v6_to_u128 ip6))"
| "match_addr L rt (DomainNameAddress domain_name port) =
     Some (Ok (match_domain L (domain_matchers rt) (regex_matchers rt) (default_outbound_tag rt) domain_name))"

section \<open>Building the router from the configuration\<close>

record domain_routing_rules =
  dr_tag :: string
  full_rules :: "string list"
  domain_rules :: "string list"
  regex_rules :: "string list"
  substr_rules :: "string list"
  dr_use_mph :: bool

record ip_routing_rules =
  ir_tag :: string
  cidr_rules :: "string list"

record geosite_rules =
  gs_tag :: string
  gs_file_path :: string
  gs_rules :: "string list"
  gs_use_mph :: bool

record geoip_rules =
  gi_tag :: string
  gi_file_path :: string
  gi_rules :: "string list"

fun for_each :: "('a \<Rightarrow> 'b \<Rightarrow> 'b res) \<Rightarrow> 'a list \<Rightarrow> 'b \<Rightarrow> 'b res" where
  "for_each f [] b = Ok b"
| "for_each f (x # xs) b = bind_res (f x b) (for_each f xs)"

definition add_domain_routing_rules ::
  "('m, 'r) router_lib \<Rightarrow> domain_routing_rules \<Rightarrow> 'm router_builder \<Rightarrow> 'm router_builder res" where
  "add_domain_routing_rules L d b =
     bind_res (for_each (\<lambda>full. add_domain_rules L full (dr_tag d) (Full True) (dr_use_mph d)) (full_rules d) b)
       (\<lambda>b. bind_res (for_each (\<lambda>dom. add_domain_rules L dom (dr_tag d) (Domain True) (dr_use_mph d))
              (domain_rules d) b)
       (\<lambda>b. bind_res (for_each (\<lambda>sub. add_domain_rules L sub (dr_tag d) (SubStr True) (dr_use_mph d))
              (substr_rules d) b)
       (\<lambda>b. add_regex_rules (dr_tag d) (regex_rules d) b)))"

fun read_geosite_files ::
  "('m, 'r) router_lib \<Rightarrow> ('s, 'w) coded_input \<Rightarrow> geosite_rules list \<Rightarrow> 'm router_builder \<Rightarrow>
   'm router_builder res option" where
  "read_geosite_files L C [] b = Some (Ok b)"
| "read_geosite_files L C (g # gs) b =
     (case read_geosite_file L C (gs_file_path g)
             (map (\<lambda>rule. (to_uppercase L rule, gs_tag g)) (gs_rules g)) (gs_use_mph g) b of
        None \<Rightarrow> None
      | Some (Ok b) \<Rightarrow> read_geosite_files L C gs b
      | Some r \<Rightarrow> Some r)"

fun read_geoip_files ::
  "('m, 'r) router_lib \<Rightarrow> ('s, 'w) coded_input \<Rightarrow> bool \<Rightarrow> geoip_rules list \<Rightarrow> 'm router_builder \<Rightarrow>
   'm router_builder res option" where
  "read_geoip_files L C checks [] b = Some (Ok b)"
| "read_geoip_files L C checks (g # gs) b =
     (case read_geoip_file L C checks (gi_file_path g) (gi_tag g) (gi_rules g) b of
        None \<Rightarrow> None
      | Some (Ok b) \<Rightarrow> read_geoip_files L C checks gs b
      | Some r \<Rightarrow> Some r)"

definition build_router ::
  "('m, 'r) router_lib \<Rightarrow> ('s, 'w) coded_input \<Rightarrow> bool \<Rightarrow> domain_routing_rules list \<Rightarrow>
   ip_routing_rules list \<Rightarrow> geosite_rules list \<Rightarrow> geoip_rules list \<Rightarrow> string \<Rightarrow>
   ('m, 'r) router res option" where
  "build_router L C checks vec_domain_routing_rules vec_ip_routing_rules vec_geosite_rules
     vec_geoip_rules default_tag =
     (case bind_res (for_each (add_domain_routing_rules L) vec_domain_routing_rules router_builder_new)
             (for_each (\<lambda>c. add_cidr_rules L checks (ir_tag c) (cidr_rules c)) vec_ip_routing_rules) of
        Ok b \<Rightarrow>
          (case read_geosite_files L C vec_geosite_rules b of
             None \<Rightarrow> None
           | Some (Ok b) \<Rightarrow>
               (case read_geoip_files L C checks vec_geoip_rules b of
                  None \<Rightarrow> None
                | Some r \<Rightarrow> Some (bind_res r (router_builder_build L default_tag)))
           | Some (Err e) \<Rightarrow> Some (Err e)
           | Some Panic \<Rightarrow> Some Panic)
      | Err e \<Rightarrow> Some (Err e)
      | Panic \<Rightarrow> Some Panic)"

end
