(* ===== verification/Router_Proofs.thy ===== *)
theory Router_Proofs
  imports Router
begin

text \<open>
  What the router decides: for a domain name, the first tag in configuration order one of whose
  rules matches, then a tag with a matching regular expression, then the default; for an IPv4
  address, the tag of the longest matching network; for an IPv6 address, that of the longest network
  matching its low 32 bits followed by zeros.
\<close>

section \<open>The builder's maps\<close>

lemma kmap_get_map_of:
  assumes "kmap_inv m"
  shows "kmap_get m k = Ok (map_of (kdata m) k)"
proof (cases "korder m k")
  case None
  then have "k \<notin> fst ` set (kdata m)" using kmap_member [OF assms, of k] by (simp add: contains_key_def)
  then have "map_of (kdata m) k = None" by (simp add: map_of_eq_None_iff)
  with None show ?thesis by (simp add: kmap_get_def)
next
  case (Some i)
  with assms have i: "i < length (kdata m)" "fst (kdata m ! i) = k" "distinct (map fst (kdata m))"
    by (auto simp: kmap_inv_def)
  then have "(k, snd (kdata m ! i)) \<in> set (kdata m)" by (metis nth_mem prod.collapse)
  with i have "map_of (kdata m) k = Some (snd (kdata m ! i))" by simp
  with Some i show ?thesis by (simp add: kmap_get_def)
qed

definition builder_inv :: "'m router_builder \<Rightarrow> bool" where
  "builder_inv b \<longleftrightarrow> kmap_inv (rb_domain_matchers b) \<and> kmap_inv (rb_regex_matchers b)"

definition new_matcher :: "('m, 'r) router_lib \<Rightarrow> bool \<Rightarrow> 'm" where
  "new_matcher L use_mph = (if use_mph then mph_matcher_new L else hybrid_matcher_new L)"

lemma contains_key_map_of:
  "kmap_inv m \<Longrightarrow> contains_key m k \<longleftrightarrow> map_of (kdata m) k \<noteq> None"
  by (simp add: kmap_member map_of_eq_None_iff)

lemma add_domain_rules_upsert:
  assumes "kmap_inv (rb_domain_matchers b)"
  shows "add_domain_rules L rule tag mt use_mph b =
    map_res (\<lambda>m. b\<lparr>rb_domain_matchers := m\<rparr>)
      (km.upsert tag (new_matcher L use_mph) (reverse_insert L rule mt) (rb_domain_matchers b))"
  using assms
  by (auto simp: add_domain_rules_def kmap_get_map_of km.upsert_def contains_key_map_of
      new_matcher_def Let_def split: option.splits)

lemma add_regex_rules_upsert:
  assumes "kmap_inv (rb_regex_matchers b)"
  shows "add_regex_rules tag rules b =
    map_res (\<lambda>m. b\<lparr>rb_regex_matchers := m\<rparr>)
      (km.upsert tag [] (\<lambda>e. e @ rules) (rb_regex_matchers b))"
  using assms
  by (auto simp: add_regex_rules_def kmap_get_map_of km.upsert_def contains_key_map_of
      split: option.splits)

text \<open>The domain rules of a configuration in the order they are inserted.\<close>

type_synonym drule = "string \<times> string \<times> match_type \<times> bool"

definition drules_of :: "domain_routing_rules \<Rightarrow> drule list" where
  "drules_of d =
     map (\<lambda>r. (dr_tag d, r, Full True, dr_use_mph d)) (full_rules d) @
     map (\<lambda>r. (dr_tag d, r, Domain True, dr_use_mph d)) (domain_rules d) @
     map (\<lambda>r. (dr_tag d, r, SubStr True, dr_use_mph d)) (substr_rules d)"

definition drules :: "domain_routing_rules list \<Rightarrow> drule list" where
  "drules ds = concat (map drules_of ds)"

definition drule_upserts ::
  "('m, 'r) router_lib \<Rightarrow> drule list \<Rightarrow> (string \<times> 'm \<times> ('m \<Rightarrow> 'm)) list" where
  "drule_upserts L es = map (\<lambda>(tag, r, mt, mph). (tag, new_matcher L mph, reverse_insert L r mt)) es"

definition regex_upserts ::
  "domain_routing_rules list \<Rightarrow> (string \<times> string list \<times> (string list \<Rightarrow> string list)) list" where
  "regex_upserts ds = map (\<lambda>d. (dr_tag d, [], \<lambda>e. e @ regex_rules d)) ds"

definition with_maps :: "'m router_builder \<Rightarrow> 'm kmap \<Rightarrow> string list kmap \<Rightarrow> 'm router_builder" where
  "with_maps b dm rm = b\<lparr>rb_domain_matchers := dm, rb_regex_matchers := rm\<rparr>"

lemma for_each_append: "for_each f (xs @ ys) b = bind_res (for_each f xs b) (for_each f ys)"
proof (induction xs arbitrary: b)
  case (Cons x xs)
  then have "for_each f (xs @ ys) = (\<lambda>b. bind_res (for_each f xs b) (for_each f ys))" by (intro ext)
  then show ?case by (simp add: bind_res_assoc)
qed simp

lemma for_each_map: "for_each f (map g xs) b = for_each (\<lambda>x. f (g x)) xs b"
proof (induction xs arbitrary: b)
  case (Cons x xs)
  then have "for_each f (map g xs) = for_each (\<lambda>x. f (g x)) xs" by (intro ext)
  then show ?case by simp
qed simp

lemma for_each_domain_rules:
  "builder_inv b \<Longrightarrow>
     \<exists>dm. km.upserts (drule_upserts L es) (rb_domain_matchers b) = Ok dm \<and> kmap_inv dm \<and>
       for_each (\<lambda>(tag, r, mt, mph). add_domain_rules L r tag mt mph) es b =
         Ok (b\<lparr>rb_domain_matchers := dm\<rparr>)"
proof (induction es arbitrary: b)
  case Nil
  then show ?case by (simp add: drule_upserts_def builder_inv_def)
next
  case (Cons e es)
  obtain tag r mt mph where e: "e = (tag, r, mt, mph)" by (cases e)
  have inv: "kmap_inv (rb_domain_matchers b)" using Cons.prems by (simp add: builder_inv_def)
  from km.upsert_ok [OF inv, of tag "new_matcher L mph" "reverse_insert L r mt"] obtain m1 where
    m1: "km.upsert tag (new_matcher L mph) (reverse_insert L r mt) (rb_domain_matchers b) = Ok m1"
      "kmap_inv m1" by blast
  have "builder_inv (b\<lparr>rb_domain_matchers := m1\<rparr>)" using Cons.prems m1 by (simp add: builder_inv_def)
  from Cons.IH [OF this] m1 show ?case
    by (auto simp: e drule_upserts_def add_domain_rules_upsert [OF inv])
qed

lemma add_domain_routing_rules_flat:
  "add_domain_routing_rules L d b =
     bind_res (for_each (\<lambda>(tag, r, mt, mph). add_domain_rules L r tag mt mph) (drules_of d) b)
       (add_regex_rules (dr_tag d) (regex_rules d))"
  by (simp add: add_domain_routing_rules_def drules_of_def for_each_append for_each_map bind_res_assoc)

lemma for_each_domain_routing:
  "builder_inv b \<Longrightarrow>
     \<exists>dm rm. km.upserts (drule_upserts L (drules ds)) (rb_domain_matchers b) = Ok dm \<and> kmap_inv dm \<and>
       km.upserts (regex_upserts ds) (rb_regex_matchers b) = Ok rm \<and> kmap_inv rm \<and>
       for_each (add_domain_routing_rules L) ds b = Ok (with_maps b dm rm)"
proof (induction ds arbitrary: b)
  case Nil
  then show ?case
    by (simp add: drule_upserts_def drules_def regex_upserts_def builder_inv_def with_maps_def)
next
  case (Cons d ds)
  from for_each_domain_rules [OF Cons.prems, of L "drules_of d"] obtain dm1 where
    d1: "km.upserts (drule_upserts L (drules_of d)) (rb_domain_matchers b) = Ok dm1" "kmap_inv dm1"
      "for_each (\<lambda>(tag, r, mt, mph). add_domain_rules L r tag mt mph) (drules_of d) b =
        Ok (b\<lparr>rb_domain_matchers := dm1\<rparr>)" by blast
  have inv: "kmap_inv (rb_regex_matchers b)" using Cons.prems by (simp add: builder_inv_def)
  from km.upsert_ok [OF inv, of "dr_tag d" "[]" "\<lambda>e. e @ regex_rules d"] obtain rm1 where
    r1: "km.upsert (dr_tag d) [] (\<lambda>e. e @ regex_rules d) (rb_regex_matchers b) = Ok rm1" "kmap_inv rm1"
    by blast
  let ?b = "with_maps b dm1 rm1"
  have step: "add_domain_routing_rules L d b = Ok ?b"
    using d1 r1 inv by (simp add: add_domain_routing_rules_flat add_regex_rules_upsert with_maps_def)
  have "builder_inv ?b" using d1 r1 by (simp add: builder_inv_def with_maps_def)
  from Cons.IH [OF this] obtain dm rm where
    "km.upserts (drule_upserts L (drules ds)) dm1 = Ok dm" "kmap_inv dm"
    "km.upserts (regex_upserts ds) rm1 = Ok rm" "kmap_inv rm"
    "for_each (add_domain_routing_rules L) ds ?b = Ok (with_maps ?b dm rm)"
    by (auto simp: with_maps_def)
  with step d1 r1 show ?case
    by (auto simp: drules_def drule_upserts_def km.upserts_append regex_upserts_def with_maps_def)
qed

section \<open>Domain names\<close>

text \<open>
  What the router relies on: a built matcher answers whether one of the inserted rules matches
  (\<open>dm\<close>), a built regular-expression set whether one of its expressions does (\<open>rm\<close>), and
  collecting a hash map keeps its entries.
\<close>

definition matchers_ok ::
  "('m, 'r) router_lib \<Rightarrow> (string \<Rightarrow> match_type \<Rightarrow> string \<Rightarrow> bool) \<Rightarrow> (string \<Rightarrow> string \<Rightarrow> bool) \<Rightarrow> bool" where
  "matchers_ok L dm rm \<longleftrightarrow>
     (\<forall>mph rs s. reverse_query L (dm_build L (fold (\<lambda>(r, t). reverse_insert L r t) rs (new_matcher L mph))) s
        \<longleftrightarrow> (\<exists>(r, t) \<in> set rs. dm r t s)) \<and>
     (\<forall>es r s. regex_set_build L es = Inr r \<longrightarrow> (regex_is_match L r s \<longleftrightarrow> (\<exists>e \<in> set es. rm e s))) \<and>
     (\<forall>xs. set (hash_order L xs) = set xs)"

definition tag_matches ::
  "(string \<Rightarrow> match_type \<Rightarrow> string \<Rightarrow> bool) \<Rightarrow> drule list \<Rightarrow> string \<Rightarrow> string \<Rightarrow> bool" where
  "tag_matches dm es s tag \<longleftrightarrow> (\<exists>(tag', r, mt, mph) \<in> set es. tag' = tag \<and> dm r mt s)"

definition regex_tag_matches ::
  "(string \<Rightarrow> string \<Rightarrow> bool) \<Rightarrow> domain_routing_rules list \<Rightarrow> string \<Rightarrow> string \<Rightarrow> bool" where
  "regex_tag_matches rm ds s tag \<longleftrightarrow> (\<exists>d \<in> set ds. dr_tag d = tag \<and> (\<exists>e \<in> set (regex_rules d). rm e s))"

lemma match_domain_find:
  "match_domain L ds rs dflt s =
     (case find (\<lambda>(t, m). reverse_query L m s) ds of
        Some (t, m) \<Rightarrow> t
      | None \<Rightarrow> (case find (\<lambda>(t, r). regex_is_match L r s) rs of Some (t, r) \<Rightarrow> t | None \<Rightarrow> dflt))"
  by (induction L ds rs dflt s rule: match_domain.induct) auto

lemma find_assoc:
  "distinct (map fst xs) \<Longrightarrow>
     map_option fst (find (\<lambda>(t, m). Q m) xs) =
     find (\<lambda>t. case map_of xs t of Some m \<Rightarrow> Q m | None \<Rightarrow> False) (map fst xs)"
proof (induction xs)
  case (Cons x xs)
  obtain t m where x: "x = (t, m)" by (cases x)
  have "find (\<lambda>t'. case map_of (x # xs) t' of Some m \<Rightarrow> Q m | None \<Rightarrow> False) (map fst xs) =
      find (\<lambda>t'. case map_of xs t' of Some m \<Rightarrow> Q m | None \<Rightarrow> False) (map fst xs)"
    using Cons.prems x by (intro find_cong) auto
  with Cons x show ?case by auto
qed simp

lemma find_congI: "(\<And>x. x \<in> set xs \<Longrightarrow> P x \<longleftrightarrow> Q x) \<Longrightarrow> find P xs = find Q xs"
  by (rule find_cong) auto

lemma fold_drule_upserts:
  "fold (\<lambda>(k', w, f) x. if k' = tag then f x else x) (drule_upserts L es) v =
     fold (\<lambda>(r, t). reverse_insert L r t)
       (map (\<lambda>(tag, r, mt, mph). (r, mt)) (filter (\<lambda>e. fst e = tag) es)) v"
  by (induction es arbitrary: v) (auto simp: drule_upserts_def)

lemma drule_value:
  assumes ok: "matchers_ok L dm rm" and tag: "tag \<in> fst ` set es"
  shows "\<exists>m. value_after (drule_upserts L es) Map.empty tag = Some m \<and>
    (reverse_query L (dm_build L m) s \<longleftrightarrow> tag_matches dm es s tag)"
proof -
  have "tag \<in> fst ` set (drule_upserts L es)" using tag by (force simp: drule_upserts_def)
  from value_after_None [OF this, of Map.empty] obtain v f where
    v: "(tag, v, f) \<in> set (drule_upserts L es)"
      "value_after (drule_upserts L es) Map.empty tag =
        Some (fold (\<lambda>(k', w, f) x. if k' = tag then f x else x) (drule_upserts L es) v)"
    by auto
  from v(1) obtain mph where "v = new_matcher L mph" by (auto simp: drule_upserts_def)
  with ok v(2) have "value_after (drule_upserts L es) Map.empty tag =
      Some (fold (\<lambda>(r, t). reverse_insert L r t)
        (map (\<lambda>(tag, r, mt, mph). (r, mt)) (filter (\<lambda>e. fst e = tag) es)) (new_matcher L mph))"
    by (simp add: fold_drule_upserts)
  with ok show ?thesis
    by (force simp: matchers_ok_def tag_matches_def)
qed

lemma regex_value:
  assumes "tag \<in> dr_tag ` set ds"
  shows "\<exists>es. value_after (regex_upserts ds) Map.empty tag = Some es \<and>
    set es = {e. \<exists>d \<in> set ds. dr_tag d = tag \<and> e \<in> set (regex_rules d)}"
proof -
  have "tag \<in> fst ` set (regex_upserts ds)" using assms by (force simp: regex_upserts_def)
  from value_after_None [OF this, of Map.empty] obtain v f where
    v: "(tag, v, f) \<in> set (regex_upserts ds)"
      "value_after (regex_upserts ds) Map.empty tag =
        Some (fold (\<lambda>(k', w, f) x. if k' = tag then f x else x) (regex_upserts ds) v)"
    by auto
  have "set (fold (\<lambda>(k', w, f) x. if k' = tag then f x else x) (regex_upserts ds) v) =
      set v \<union> {e. \<exists>d \<in> set ds. dr_tag d = tag \<and> e \<in> set (regex_rules d)}" for v
    by (induction ds arbitrary: v) (auto simp: regex_upserts_def)
  moreover have "v = []" using v(1) by (auto simp: regex_upserts_def)
  ultimately show ?thesis using v(2) by auto
qed

lemma build_regex_sets_ok:
  assumes ok: "matchers_ok L dm rm"
    and valid: "\<And>t es. (t, es) \<in> set xs \<Longrightarrow> \<exists>r. regex_set_build L es = Inr r"
  shows "\<exists>sets. build_regex_sets L xs = Ok sets \<and> map fst sets = map fst xs \<and>
    (\<forall>t s. (\<exists>r. (t, r) \<in> set sets \<and> regex_is_match L r s) \<longleftrightarrow>
           (\<exists>es. (t, es) \<in> set xs \<and> (\<exists>e \<in> set es. rm e s)))"
  using valid
proof (induction xs)
  case (Cons x xs)
  obtain t es where x: "x = (t, es)" by (cases x)
  with Cons.prems obtain r where r: "regex_set_build L es = Inr r" by fastforce
  from ok r have m: "regex_is_match L r s \<longleftrightarrow> (\<exists>e \<in> set es. rm e s)" for s
    by (auto simp: matchers_ok_def)
  have "\<exists>sets. build_regex_sets L xs = Ok sets \<and> map fst sets = map fst xs \<and>
    (\<forall>t s. (\<exists>r. (t, r) \<in> set sets \<and> regex_is_match L r s) \<longleftrightarrow>
           (\<exists>es. (t, es) \<in> set xs \<and> (\<exists>e \<in> set es. rm e s)))"
    by (rule Cons.IH) (meson Cons.prems list.set_intros(2))
  then obtain sets where sets: "build_regex_sets L xs = Ok sets" "map fst sets = map fst xs" and
    ih: "\<forall>t s. (\<exists>r. (t, r) \<in> set sets \<and> regex_is_match L r s) \<longleftrightarrow>
       (\<exists>es. (t, es) \<in> set xs \<and> (\<exists>e \<in> set es. rm e s))" by blast
  have "(\<exists>r'. (t', r') \<in> set ((t, r) # sets) \<and> regex_is_match L r' s) \<longleftrightarrow>
      (\<exists>es'. (t', es') \<in> set ((t, es) # xs) \<and> (\<exists>e \<in> set es'. rm e s))" for t' s
  proof -
    have "(\<exists>r'. (t', r') \<in> set ((t, r) # sets) \<and> regex_is_match L r' s) \<longleftrightarrow>
        t' = t \<and> regex_is_match L r s \<or> (\<exists>r'. (t', r') \<in> set sets \<and> regex_is_match L r' s)" by auto
    also have "\<dots> \<longleftrightarrow> t' = t \<and> (\<exists>e \<in> set es. rm e s) \<or>
        (\<exists>es. (t', es) \<in> set xs \<and> (\<exists>e \<in> set es. rm e s))" by (simp only: ih m)
    also have "\<dots> \<longleftrightarrow> (\<exists>es'. (t', es') \<in> set ((t, es) # xs) \<and> (\<exists>e \<in> set es'. rm e s))" by auto
    finally show ?thesis .
  qed
  with x r sets show ?case by (intro exI [of _ "(t, r) # sets"]) simp
qed simp

text \<open>The decision for a domain name, stated on the configuration.\<close>

definition domain_route ::
  "(string \<Rightarrow> match_type \<Rightarrow> string \<Rightarrow> bool) \<Rightarrow> (string \<Rightarrow> string \<Rightarrow> bool) \<Rightarrow> domain_routing_rules list \<Rightarrow>
   string \<Rightarrow> string \<Rightarrow> string \<Rightarrow> bool" where
  "domain_route dm rm ds dflt s t \<longleftrightarrow>
     (case find (tag_matches dm (drules ds) s) (map fst (drules ds)) of
        Some tag \<Rightarrow> t = tag
      | None \<Rightarrow> if \<exists>tag. regex_tag_matches rm ds s tag then regex_tag_matches rm ds s t else t = dflt)"

lemma find_Some_mem: "find P xs = Some x \<Longrightarrow> x \<in> set xs \<and> P x"
  by (induction xs) (auto split: if_splits)

lemma find_regex:
  assumes "set xs = set sets"
  shows "case find (\<lambda>(t, r). Q r) xs of
      Some (t, r) \<Rightarrow> (t, r) \<in> set sets \<and> Q r
    | None \<Rightarrow> \<not> (\<exists>t r. (t, r) \<in> set sets \<and> Q r)"
proof (cases "find (\<lambda>(t, r). Q r) xs")
  case None
  then have "\<not> (\<exists>t r. (t, r) \<in> set sets \<and> Q r)" using assms by (auto simp: find_None_iff)
  with None show ?thesis by simp
next
  case (Some tr)
  then have "tr \<in> set xs" "(\<lambda>(t, r). Q r) tr" using find_Some_mem by metis+
  with assms Some show ?thesis by (auto split: prod.splits)
qed

lemma match_domain_route:
  assumes ok: "matchers_ok L dm rm"
    and D: "kmap_inv D" "map fst (kdata D) = new_keys [] (map fst (drules ds))"
      "km.value_of D = value_after (drule_upserts L (drules ds)) Map.empty"
    and R: "kmap_inv R" "map fst (kdata R) = new_keys [] (map dr_tag ds)"
      "km.value_of R = value_after (regex_upserts ds) Map.empty"
    and sets: "map fst sets = map fst (kdata R)"
      "\<And>t s. (\<exists>r. (t, r) \<in> set sets \<and> regex_is_match L r s) \<longleftrightarrow>
           (\<exists>es. (t, es) \<in> set (kdata R) \<and> (\<exists>e \<in> set es. rm e s))"
  shows "domain_route dm rm ds dflt s
    (match_domain L (kmap_into_iter (kmap_iter_mut (dm_build L) D)) (hash_order L sets) dflt s)"
proof -
  let ?d = "kmap_into_iter (kmap_iter_mut (dm_build L) D)"
  have d: "map fst ?d = new_keys [] (map fst (drules ds))"
    "map_of ?d t = map_option (dm_build L) (value_after (drule_upserts L (drules ds)) Map.empty t)" for t
    using D by (auto simp: kmap_into_iter_def kmap_iter_mut_def comp_def case_prod_unfold
        km.value_of_def map_of_map [unfolded case_prod_unfold] simp flip: D(3))
  have "distinct (map fst ?d)" using D(1) d(1) D(2) by (simp add: kmap_inv_def)
  from find_assoc [OF this, of "\<lambda>m. reverse_query L m s"]
  have fd: "map_option fst (find (\<lambda>(t, m). reverse_query L m s) ?d) =
      find (\<lambda>t. case map_of ?d t of Some m \<Rightarrow> reverse_query L m s | None \<Rightarrow> False) (map fst ?d)" .
  also have "\<dots> = find (tag_matches dm (drules ds) s) (map fst ?d)"
  proof (rule find_congI)
    fix t assume "t \<in> set (map fst ?d)"
    then have "t \<in> fst ` set (drules ds)" by (simp add: d(1) set_new_keys)
    from drule_value [OF ok this, of s] show "(case map_of ?d t of Some m \<Rightarrow> reverse_query L m s | None \<Rightarrow> False)
        \<longleftrightarrow> tag_matches dm (drules ds) s t" by (auto simp: d(2))
  qed
  also have "\<dots> = find (tag_matches dm (drules ds) s) (map fst (drules ds))"
    using find_new_keys [of "[]" "tag_matches dm (drules ds) s"] by (simp add: d(1))
  finally have fd: "map_option fst (find (\<lambda>(t, m). reverse_query L m s) ?d) =
    find (tag_matches dm (drules ds) s) (map fst (drules ds))" .
  have rt: "(\<exists>r. (t, r) \<in> set sets \<and> regex_is_match L r s) \<longleftrightarrow> regex_tag_matches rm ds s t" for t
  proof -
    have dis: "distinct (map fst (kdata R))" using R(1) by (simp add: kmap_inv_def)
    show ?thesis
    proof (cases "t \<in> dr_tag ` set ds")
      case True
      from regex_value [OF this] obtain es where es: "map_of (kdata R) t = Some es"
          "set es = {e. \<exists>d \<in> set ds. dr_tag d = t \<and> e \<in> set (regex_rules d)}"
        using R(3) by (auto simp: km.value_of_def kmap_into_iter_def fun_eq_iff)
      then have "(t, es') \<in> set (kdata R) \<longleftrightarrow> es' = es" for es'
        using dis by (metis map_of_SomeD map_of_is_SomeI option.inject)
      with es show ?thesis by (auto simp: sets(2) regex_tag_matches_def)
    next
      case False
      then have "t \<notin> set (map fst (kdata R))" using R(2) by (simp add: set_new_keys)
      with False show ?thesis by (force simp: sets(2) regex_tag_matches_def)
    qed
  qed
  show ?thesis
  proof (cases "find (\<lambda>(t, m). reverse_query L m s) ?d")
    case (Some tm)
    then show ?thesis by (cases tm) (simp add: domain_route_def match_domain_find flip: fd)
  next
    case None
    have "set (hash_order L sets) = set sets" using ok by (simp add: matchers_ok_def)
    from find_regex [OF this, of "\<lambda>r. regex_is_match L r s"] None fd rt show ?thesis
      by (auto simp: domain_route_def match_domain_find split: option.splits)
  qed
qed

section \<open>Networks\<close>

text \<open>The rules a list of CIDR strings stands for, and the form the parser promises.\<close>

definition cidrs :: "('m, 'r) router_lib \<Rightarrow> string list \<Rightarrow> ip_cidr list" where
  "cidrs L rules = map (\<lambda>r. the (ip_cidr_from_str L r)) (filter (is_ip_cidr L) rules)"

definition v4_entries :: "string \<Rightarrow> ip_cidr list \<Rightarrow> (bool list \<times> string) list" where
  "v4_entries tag cs =
     concat (map (\<lambda>c. case c of CidrV4 pfx n \<Rightarrow> [(take (unat n) (key_bits pfx), tag)] | _ \<Rightarrow> []) cs)"

definition v6_entries :: "string \<Rightarrow> ip_cidr list \<Rightarrow> (bool list \<times> string) list" where
  "v6_entries tag cs =
     concat (map (\<lambda>c. case c of CidrV6 pfx n \<Rightarrow> [(take (unat n) (key_bits pfx), tag)] | _ \<Rightarrow> []) cs)"

fun cidr_valid :: "ip_cidr \<Rightarrow> bool" where
  "cidr_valid (CidrV4 pfx n) = (1 \<le> unat n \<and> unat n \<le> 32)"
| "cidr_valid (CidrV6 pfx n) = (1 \<le> unat n \<and> unat n \<le> 128)"

definition cidr_rule_ok :: "('m, 'r) router_lib \<Rightarrow> string \<Rightarrow> bool" where
  "cidr_rule_ok L r \<longleftrightarrow> is_ip_cidr L r \<longrightarrow> (\<exists>c. ip_cidr_from_str L r = Some c \<and> cidr_valid c)"

lemma cidrs_Cons:
  "cidrs L (r # rules) = (if is_ip_cidr L r then [the (ip_cidr_from_str L r)] else []) @ cidrs L rules"
  by (simp add: cidrs_def)

lemma v4_entries_Cons:
  "v4_entries tag (CidrV4 pfx n # cs) = (take (unat n) (key_bits pfx), tag) # v4_entries tag cs"
  "v4_entries tag (CidrV6 pfx' n # cs) = v4_entries tag cs"
  by (simp_all add: v4_entries_def)

lemma v6_entries_Cons:
  "v6_entries tag (CidrV6 pfx' n # cs) = (take (unat n) (key_bits pfx'), tag) # v6_entries tag cs"
  "v6_entries tag (CidrV4 pfx n # cs) = v6_entries tag cs"
  by (simp_all add: v6_entries_def)

lemma rule_map_Cons: "rule_map ((p, v) # rs) = [p \<mapsto> v] ++ rule_map rs"
  by (simp add: rule_map_def)

lemma add_cidr_rules_correct:
  "geo_inv (rb_ip_matcher b) \<Longrightarrow> (\<And>r. r \<in> set rules \<Longrightarrow> cidr_rule_ok L r) \<Longrightarrow>
   geo_size (rb_ip_matcher b) + 129 * length rules < trie4_limit \<Longrightarrow>
     \<exists>m. add_cidr_rules L checks tag rules b = Ok (b\<lparr>rb_ip_matcher := m\<rparr>) \<and> geo_inv m \<and>
       geo_abs4 m = geo_abs4 (rb_ip_matcher b) ++ rule_map (v4_entries tag (cidrs L rules)) \<and>
       geo_abs6 m = geo_abs6 (rb_ip_matcher b) ++ rule_map (v6_entries tag (cidrs L rules)) \<and>
       geo_size m \<le> geo_size (rb_ip_matcher b) + 129 * length rules"
proof (induction rules arbitrary: b)
  case Nil
  then show ?case by (intro exI [of _ "rb_ip_matcher b"]) (simp add: cidrs_def v4_entries_def v6_entries_def)
next
  case (Cons r rules)
  have rest: "\<And>r. r \<in> set rules \<Longrightarrow> cidr_rule_ok L r" using Cons.prems by simp
  show ?case
  proof (cases "is_ip_cidr L r")
    case False
    with Cons.IH [OF Cons.prems(1) rest] Cons.prems(3) show ?thesis
      by (auto simp: cidrs_def intro: le_trans)
  next
    case True
    with Cons.prems(2) [of r] obtain c where c: "ip_cidr_from_str L r = Some c" "cidr_valid c"
      by (auto simp: cidr_rule_ok_def)
    show ?thesis
    proof (cases c)
      case (CidrV4 pfx n)
      have n: "1 \<le> unat n" "unat n \<le> 32" "of_nat (unat n) = n" using c CidrV4 by auto
      have sz: "geo_size (rb_ip_matcher b) + 33 < trie4_limit" using Cons.prems(3) by simp
      from put_v4_correct [OF Cons.prems(1) n(1,2) sz, of checks pfx tag] n obtain m1 where
        m1: "put_v4 checks (rb_ip_matcher b) pfx n tag = Ok m1" "geo_inv m1"
          "geo_abs4 m1 = (geo_abs4 (rb_ip_matcher b))(take (unat n) (key_bits pfx) \<mapsto> tag)"
          "geo_abs6 m1 = geo_abs6 (rb_ip_matcher b)"
          "geo_size m1 \<le> geo_size (rb_ip_matcher b) + 33" by auto
      have "\<exists>m. add_cidr_rules L checks tag rules (b\<lparr>rb_ip_matcher := m1\<rparr>) =
            Ok (b\<lparr>rb_ip_matcher := m1, rb_ip_matcher := m\<rparr>) \<and> geo_inv m \<and>
          geo_abs4 m = geo_abs4 (rb_ip_matcher (b\<lparr>rb_ip_matcher := m1\<rparr>)) ++
            rule_map (v4_entries tag (cidrs L rules)) \<and>
          geo_abs6 m = geo_abs6 (rb_ip_matcher (b\<lparr>rb_ip_matcher := m1\<rparr>)) ++
            rule_map (v6_entries tag (cidrs L rules)) \<and>
          geo_size m \<le> geo_size (rb_ip_matcher (b\<lparr>rb_ip_matcher := m1\<rparr>)) + 129 * length rules"
        by (rule Cons.IH) (use m1 rest Cons.prems(3) in auto)
      then obtain m where
        "add_cidr_rules L checks tag rules (b\<lparr>rb_ip_matcher := m1\<rparr>) = Ok (b\<lparr>rb_ip_matcher := m\<rparr>)"
        "geo_inv m" "geo_abs4 m = geo_abs4 m1 ++ rule_map (v4_entries tag (cidrs L rules))"
        "geo_abs6 m = geo_abs6 m1 ++ rule_map (v6_entries tag (cidrs L rules))"
        "geo_size m \<le> geo_size m1 + 129 * length rules" by auto
      with True c CidrV4 m1 show ?thesis
        by (intro exI [of _ m]) (simp add: cidrs_Cons v4_entries_Cons v6_entries_Cons rule_map_Cons)
    next
      case (CidrV6 pfx n)
      have n: "1 \<le> unat n" "unat n \<le> 128" "of_nat (unat n) = n" using c CidrV6 by auto
      have sz: "geo_size (rb_ip_matcher b) + 129 < trie4_limit" using Cons.prems(3) by simp
      from put_v6_correct [OF Cons.prems(1) n(1,2) sz, of checks pfx tag] n obtain m1 where
        m1: "put_v6 checks (rb_ip_matcher b) pfx n tag = Ok m1" "geo_inv m1"
          "geo_abs4 m1 = geo_abs4 (rb_ip_matcher b)"
          "geo_abs6 m1 = (geo_abs6 (rb_ip_matcher b))(take (unat n) (key_bits pfx) \<mapsto> tag)"
          "geo_size m1 \<le> geo_size (rb_ip_matcher b) + 129" by auto
      have "\<exists>m. add_cidr_rules L checks tag rules (b\<lparr>rb_ip_matcher := m1\<rparr>) =
            Ok (b\<lparr>rb_ip_matcher := m1, rb_ip_matcher := m\<rparr>) \<and> geo_inv m \<and>
          geo_abs4 m = geo_abs4 (rb_ip_matcher (b\<lparr>rb_ip_matcher := m1\<rparr>)) ++
            rule_map (v4_entries tag (cidrs L rules)) \<and>
          geo_abs6 m = geo_abs6 (rb_ip_matcher (b\<lparr>rb_ip_matcher := m1\<rparr>)) ++
            rule_map (v6_entries tag (cidrs L rules)) \<and>
          geo_size m \<le> geo_size (rb_ip_matcher (b\<lparr>rb_ip_matcher := m1\<rparr>)) + 129 * length rules"
        by (rule Cons.IH) (use m1 rest Cons.prems(3) in auto)
      then obtain m where
        "add_cidr_rules L checks tag rules (b\<lparr>rb_ip_matcher := m1\<rparr>) = Ok (b\<lparr>rb_ip_matcher := m\<rparr>)"
        "geo_inv m" "geo_abs4 m = geo_abs4 m1 ++ rule_map (v4_entries tag (cidrs L rules))"
        "geo_abs6 m = geo_abs6 m1 ++ rule_map (v6_entries tag (cidrs L rules))"
        "geo_size m \<le> geo_size m1 + 129 * length rules" by auto
      with True c CidrV6 m1 show ?thesis
        by (intro exI [of _ m]) (simp add: cidrs_Cons v4_entries_Cons v6_entries_Cons rule_map_Cons)
    qed
  qed
qed

definition v4_table :: "('m, 'r) router_lib \<Rightarrow> ip_routing_rules list \<Rightarrow> (bool list \<times> string) list" where
  "v4_table L irs = concat (map (\<lambda>c. v4_entries (ir_tag c) (cidrs L (cidr_rules c))) irs)"

definition v6_table :: "('m, 'r) router_lib \<Rightarrow> ip_routing_rules list \<Rightarrow> (bool list \<times> string) list" where
  "v6_table L irs = concat (map (\<lambda>c. v6_entries (ir_tag c) (cidrs L (cidr_rules c))) irs)"

definition n_cidr_rules :: "ip_routing_rules list \<Rightarrow> nat" where
  "n_cidr_rules irs = sum_list (map (\<lambda>c. length (cidr_rules c)) irs)"

lemma rule_map_append: "rule_map (xs @ ys) = rule_map xs ++ rule_map ys"
  by (simp add: rule_map_def)

lemma for_each_cidr_correct:
  "geo_inv (rb_ip_matcher b) \<Longrightarrow>
   (\<And>c r. c \<in> set irs \<Longrightarrow> r \<in> set (cidr_rules c) \<Longrightarrow> cidr_rule_ok L r) \<Longrightarrow>
   geo_size (rb_ip_matcher b) + 129 * n_cidr_rules irs < trie4_limit \<Longrightarrow>
     \<exists>m. for_each (\<lambda>c. add_cidr_rules L checks (ir_tag c) (cidr_rules c)) irs b =
           Ok (b\<lparr>rb_ip_matcher := m\<rparr>) \<and> geo_inv m \<and>
       geo_abs4 m = geo_abs4 (rb_ip_matcher b) ++ rule_map (v4_table L irs) \<and>
       geo_abs6 m = geo_abs6 (rb_ip_matcher b) ++ rule_map (v6_table L irs)"
proof (induction irs arbitrary: b)
  case Nil
  then show ?case by (intro exI [of _ "rb_ip_matcher b"]) (simp add: v4_table_def v6_table_def)
next
  case (Cons c irs)
  have r1: "\<And>r. r \<in> set (cidr_rules c) \<Longrightarrow> cidr_rule_ok L r"
    and rest: "\<And>c r. c \<in> set irs \<Longrightarrow> r \<in> set (cidr_rules c) \<Longrightarrow> cidr_rule_ok L r"
    using Cons.prems(2) by auto
  have sz: "geo_size (rb_ip_matcher b) + 129 * length (cidr_rules c) < trie4_limit"
    using Cons.prems(3) by (simp add: n_cidr_rules_def)
  from add_cidr_rules_correct [OF Cons.prems(1) r1 sz, of checks "ir_tag c"] obtain m1 where
    m1: "add_cidr_rules L checks (ir_tag c) (cidr_rules c) b = Ok (b\<lparr>rb_ip_matcher := m1\<rparr>)" "geo_inv m1"
      "geo_abs4 m1 = geo_abs4 (rb_ip_matcher b) ++ rule_map (v4_entries (ir_tag c) (cidrs L (cidr_rules c)))"
      "geo_abs6 m1 = geo_abs6 (rb_ip_matcher b) ++ rule_map (v6_entries (ir_tag c) (cidrs L (cidr_rules c)))"
      "geo_size m1 \<le> geo_size (rb_ip_matcher b) + 129 * length (cidr_rules c)" by auto
  have "\<exists>m. for_each (\<lambda>c. add_cidr_rules L checks (ir_tag c) (cidr_rules c)) irs
        (b\<lparr>rb_ip_matcher := m1\<rparr>) = Ok (b\<lparr>rb_ip_matcher := m1, rb_ip_matcher := m\<rparr>) \<and> geo_inv m \<and>
       geo_abs4 m = geo_abs4 (rb_ip_matcher (b\<lparr>rb_ip_matcher := m1\<rparr>)) ++ rule_map (v4_table L irs) \<and>
       geo_abs6 m = geo_abs6 (rb_ip_matcher (b\<lparr>rb_ip_matcher := m1\<rparr>)) ++ rule_map (v6_table L irs)"
    by (rule Cons.IH) (use m1 rest Cons.prems(3) in \<open>auto simp: n_cidr_rules_def\<close>)
  then obtain m where
    "for_each (\<lambda>c. add_cidr_rules L checks (ir_tag c) (cidr_rules c)) irs (b\<lparr>rb_ip_matcher := m1\<rparr>) =
       Ok (b\<lparr>rb_ip_matcher := m\<rparr>)" "geo_inv m"
    "geo_abs4 m = geo_abs4 m1 ++ rule_map (v4_table L irs)"
    "geo_abs6 m = geo_abs6 m1 ++ rule_map (v6_table L irs)"
    by auto
  with m1 show ?case by (auto simp: v4_table_def v6_table_def rule_map_append)
qed

section \<open>The whole router\<close>

definition regexes_valid :: "('m, 'r) router_lib \<Rightarrow> domain_routing_rules list \<Rightarrow> bool" where
  "regexes_valid L ds \<longleftrightarrow>
     (\<forall>es. set es \<subseteq> (\<Union>d \<in> set ds. set (regex_rules d)) \<longrightarrow> (\<exists>r. regex_set_build L es = Inr r))"

text \<open>A configuration whose rules the router can hold, without geosite and geoip files.\<close>

definition routing_ok ::
  "('m, 'r) router_lib \<Rightarrow> domain_routing_rules list \<Rightarrow> ip_routing_rules list \<Rightarrow> bool" where
  "routing_ok L ds irs \<longleftrightarrow> regexes_valid L ds \<and>
     (\<forall>c \<in> set irs. \<forall>r \<in> set (cidr_rules c). cidr_rule_ok L r) \<and>
     2 + 129 * n_cidr_rules irs < trie4_limit"

lemma build_router_correct:
  assumes ok: "matchers_ok L dm rm" and r: "routing_ok L ds irs"
  shows "\<exists>rt. build_router L C checks ds irs [] [] dflt = Some (Ok rt) \<and>
    geo_inv (ip_matcher rt) \<and> geo_abs4 (ip_matcher rt) = rule_map (v4_table L irs) \<and>
    geo_abs6 (ip_matcher rt) = rule_map (v6_table L irs) \<and> default_outbound_tag rt = dflt \<and>
    (\<forall>s. domain_route dm rm ds dflt s
       (match_domain L (domain_matchers rt) (regex_matchers rt) dflt s))"
proof -
  let ?b0 = "router_builder_new :: 'a router_builder"
  have inv0: "builder_inv ?b0" "geo_inv (rb_ip_matcher ?b0)" "geo_size (rb_ip_matcher ?b0) = 2"
    "geo_abs4 (rb_ip_matcher ?b0) = Map.empty" "geo_abs6 (rb_ip_matcher ?b0) = Map.empty"
    by (simp_all add: builder_inv_def router_builder_new_def km.empty_invar geoip_new_inv)
  from for_each_domain_routing [OF inv0(1), of L ds] obtain D R where
    D: "km.upserts (drule_upserts L (drules ds)) kmap_new = Ok D" "kmap_inv D"
    and R: "km.upserts (regex_upserts ds) kmap_new = Ok R" "kmap_inv R"
    and f: "for_each (add_domain_routing_rules L) ds ?b0 = Ok (with_maps ?b0 D R)"
    by (auto simp: router_builder_new_def)
  have e: "km.value_of kmap_new = Map.empty" "kdata kmap_new = []"
    by (simp_all add: km.value_of_def kmap_into_iter_def kmap_new_def fun_eq_iff)
  from km.upserts_ok [OF km.empty_invar, of "drule_upserts L (drules ds)"] D
  have D': "map fst (kdata D) = new_keys [] (map fst (drules ds))"
    "km.value_of D = value_after (drule_upserts L (drules ds)) Map.empty"
    by (auto simp: e kmap_into_iter_def drule_upserts_def comp_def case_prod_unfold)
  from km.upserts_ok [OF km.empty_invar, of "regex_upserts ds"] R
  have R': "map fst (kdata R) = new_keys [] (map dr_tag ds)"
    "km.value_of R = value_after (regex_upserts ds) Map.empty"
    by (auto simp: e kmap_into_iter_def regex_upserts_def comp_def)
  let ?b1 = "with_maps ?b0 D R"
  have ipm: "rb_ip_matcher ?b1 = rb_ip_matcher ?b0" by (simp add: with_maps_def)
  have "\<exists>m. for_each (\<lambda>c. add_cidr_rules L checks (ir_tag c) (cidr_rules c)) irs ?b1 =
           Ok (?b1\<lparr>rb_ip_matcher := m\<rparr>) \<and> geo_inv m \<and>
       geo_abs4 m = geo_abs4 (rb_ip_matcher ?b1) ++ rule_map (v4_table L irs) \<and>
       geo_abs6 m = geo_abs6 (rb_ip_matcher ?b1) ++ rule_map (v6_table L irs)"
    by (rule for_each_cidr_correct) (use r inv0 in \<open>auto simp: ipm routing_ok_def\<close>)
  then obtain m where m: "for_each (\<lambda>c. add_cidr_rules L checks (ir_tag c) (cidr_rules c)) irs ?b1 =
           Ok (?b1\<lparr>rb_ip_matcher := m\<rparr>)" "geo_inv m" "geo_abs4 m = rule_map (v4_table L irs)"
      "geo_abs6 m = rule_map (v6_table L irs)"
    by (auto simp: ipm inv0)
  have valid: "\<exists>x. regex_set_build L es = Inr x" if "(t, es) \<in> set (kmap_into_iter R)" for t es
  proof -
    have dis: "distinct (map fst (kdata R))" using R(2) by (simp add: kmap_inv_def)
    with that have mo: "map_of (kdata R) t = Some es" by (simp add: kmap_into_iter_def)
    have "t \<in> set (map fst (kdata R))" using that by (force simp: kmap_into_iter_def)
    then have "t \<in> dr_tag ` set ds" using R'(1) by (simp add: set_new_keys)
    from regex_value [OF this] mo R'(2)
    have "set es = {e. \<exists>d \<in> set ds. dr_tag d = t \<and> e \<in> set (regex_rules d)}"
      by (auto simp: km.value_of_def kmap_into_iter_def fun_eq_iff)
    then have "set es \<subseteq> (\<Union>d \<in> set ds. set (regex_rules d))" by auto
    then show ?thesis using r by (simp add: routing_ok_def regexes_valid_def)
  qed
  have "\<exists>sets. build_regex_sets L (kmap_into_iter R) = Ok sets \<and>
      map fst sets = map fst (kmap_into_iter R) \<and>
      (\<forall>t s. (\<exists>r. (t, r) \<in> set sets \<and> regex_is_match L r s) \<longleftrightarrow>
           (\<exists>es. (t, es) \<in> set (kmap_into_iter R) \<and> (\<exists>e \<in> set es. rm e s)))"
    by (rule build_regex_sets_ok [OF ok]) (rule valid)
  then obtain sets where
    sets: "build_regex_sets L (kmap_into_iter R) = Ok sets" "map fst sets = map fst (kdata R)"
      "\<And>t s. (\<exists>r. (t, r) \<in> set sets \<and> regex_is_match L r s) \<longleftrightarrow>
           (\<exists>es. (t, es) \<in> set (kdata R) \<and> (\<exists>e \<in> set es. rm e s))"
    by (auto simp: kmap_into_iter_def)
  let ?rt = "\<lparr>domain_matchers = kmap_into_iter (kmap_iter_mut (dm_build L) D), ip_matcher = m,
     regex_matchers = hash_order L sets, default_outbound_tag = dflt\<rparr>"
  have "build_router L C checks ds irs [] [] dflt = Some (Ok ?rt)"
    using f m(1) sets(1) by (simp add: build_router_def router_builder_build_def with_maps_def)
  with m(2-4) match_domain_route [OF ok D(2) D' R(2) R' sets(2,3)] show ?thesis
    by (intro exI [of _ ?rt]) simp
qed

section \<open>The tag of an address\<close>

text \<open>
  What the rules say of an address, in terms of the tables of networks and of the domain rules: the
  specification the lookups are compared with. An empty tag in a rule stands for the default.
\<close>

definition network_tag :: "string \<Rightarrow> (bool list \<times> string) list \<Rightarrow> bool list \<Rightarrow> string" where
  "network_tag dflt table key =
     (case lpm (rule_map table) key of Some ob \<Rightarrow> if ob = '''' then dflt else ob | None \<Rightarrow> dflt)"

fun rules_route :: "('m, 'r) router_lib \<Rightarrow> (string \<Rightarrow> match_type \<Rightarrow> string \<Rightarrow> bool) \<Rightarrow>
  (string \<Rightarrow> string \<Rightarrow> bool) \<Rightarrow> domain_routing_rules list \<Rightarrow> ip_routing_rules list \<Rightarrow> string \<Rightarrow> address \<Rightarrow>
  string \<Rightarrow> bool" where
  "rules_route L dm rm ds irs dflt (SocketAddress (SockV4 ip port)) tag =
     (tag = network_tag dflt (v4_table L irs) (key_bits (socket_addr_v4_to_u32 ip)))"
| "rules_route L dm rm ds irs dflt (SocketAddress (SockV6 ip port f s)) tag =
     (tag = network_tag dflt (v6_table L irs) (key_bits (push_bit 96 (socket_addr_v6_to_u128 ip))))"
| "rules_route L dm rm ds irs dflt (DomainNameAddress name port) tag = domain_route dm rm ds dflt name tag"

lemma match_addr_rules:
  assumes "matchers_ok L dm rm" "routing_ok L ds irs"
    and "build_router L C checks ds irs [] [] dflt = Some (Ok rt)"
  shows "\<exists>tag. match_addr L rt a = Some (Ok tag) \<and> rules_route L dm rm ds irs dflt a tag"
proof -
  from build_router_correct [OF assms(1,2), of C checks dflt] assms(3) have rt: "geo_inv (ip_matcher rt)"
    "geo_abs4 (ip_matcher rt) = rule_map (v4_table L irs)" "geo_abs6 (ip_matcher rt) = rule_map (v6_table L irs)"
    "default_outbound_tag rt = dflt"
    "\<forall>s. domain_route dm rm ds dflt s (match_domain L (domain_matchers rt) (regex_matchers rt) dflt s)"
    by auto
  show ?thesis
    by (cases "(L, rt, a)" rule: match_addr.cases)
      (auto simp: match4_lpm match6_lpm rt or_default_def network_tag_def split: option.splits)
qed

lemma match_socket_addr_eq: "match_socket_addr rt a = match_addr L rt (SocketAddress a)"
  by (cases a) auto

end
