(* ===== verification/Config.thy ===== *)
theory Config
  imports Chain Router_Proofs
begin

text \<open>
  \<open>Config\<close> of \<open>src/config/mod.rs\<close>: the tables of configured hops, the resolution of the
  outbound chains (\<open>build_inner_map\<close>) and the construction of the server (\<open>build_server\<close>).
\<close>

section \<open>The configuration\<close>

record outbounds =
  ob_chain :: "string list"
  ob_tag :: string

record inbounds =
  ib_addr :: address
  ib_enable_udp :: bool
  ib_tag :: string

record dokodemo_door =
  dk_tproxy :: bool
  dk_addr :: address
  dk_target_addr :: "address option"

record config =
  cf_enable_api_server :: bool
  cf_relay_buffer_size :: nat
  cf_api_server_addr :: address
  cf_backlog :: u32
  cf_ss :: "shadowsocks_config list"
  cf_tls :: "tls_config list"
  cf_vmess :: "vmess_config list"
  cf_ws :: "websocket_config list"
  cf_trojan :: "trojan_config list"
  cf_direct :: "string list"
  cf_blackhole :: "string list"
  cf_simpleobfs :: "simple_obfs_config list"
  cf_dokodemo :: "dokodemo_door list"
  cf_domain_routing_rules :: "domain_routing_rules list"
  cf_ip_routing_rules :: "ip_routing_rules list"
  cf_h2 :: "http2_config list"
  cf_grpc :: "grpc_config list"
  cf_geosite_rules :: "geosite_rules list"
  cf_geoip_rules :: "geoip_rules list"
  cf_default_outbound :: string
  cf_outbounds :: "outbounds list"
  cf_inbounds :: "inbounds list"

fun config_vec :: "config \<Rightarrow> protocol_type \<Rightarrow> proto_config list" where
  "config_vec cf SS = map ShadowsocksConfig (cf_ss cf)"
| "config_vec cf Tls = map TlsConfig (cf_tls cf)"
| "config_vec cf Vmess = map VmessConfig (cf_vmess cf)"
| "config_vec cf WS = map WebsocketConfig (cf_ws cf)"
| "config_vec cf Trojan = map TrojanConfig (cf_trojan cf)"
| "config_vec cf Direct = map DirectConfig (cf_direct cf)"
| "config_vec cf H2 = map Http2Config (cf_h2 cf)"
| "config_vec cf Grpc = map GrpcConfig (cf_grpc cf)"
| "config_vec cf Blackhole = map BlackHoleConfig (cf_blackhole cf)"
| "config_vec cf SimpleObfs = map SimpleObfsConfig (cf_simpleobfs cf)"

definition config_index :: "config \<Rightarrow> protocol_type \<times> nat \<Rightarrow> proto_config res" where
  "config_index cf pi = index_vec (config_vec cf (fst pi)) (snd pi)"

section \<open>Tags\<close>

type_synonym config_map = "string \<rightharpoonup> protocol_type \<times> nat"

fun insert_config_map_from :: "nat \<Rightarrow> proto_config list \<Rightarrow> config_map \<Rightarrow> config_map" where
  "insert_config_map_from idx [] m = m"
| "insert_config_map_from idx (s # ss) m =
     insert_config_map_from (Suc idx) ss (m(config_tag s \<mapsto> (get_protocol_type s, idx)))"

definition insert_config_map :: "proto_config list \<Rightarrow> config_map \<Rightarrow> config_map" where
  "insert_config_map ss m = insert_config_map_from 0 ss m"

definition build_config_map :: "config \<Rightarrow> config_map" where
  "build_config_map cf =
     fold (\<lambda>p m. insert_config_map (config_vec cf p) m)
       [SS, Tls, Vmess, WS, Trojan, Direct, H2, Grpc, Blackhole, SimpleObfs] Map.empty"

section \<open>Chains\<close>

fun collect_addrs ::
  "config \<Rightarrow> config_map \<Rightarrow> string \<Rightarrow> string list \<Rightarrow> chain \<Rightarrow> address list \<Rightarrow> (chain \<times> address list) res"
where
  "collect_addrs cf m out_tag [] builder addrs = Ok (builder, addrs)"
| "collect_addrs cf m out_tag (tag # tags) builder addrs =
     (case m tag of
        Some pi \<Rightarrow>
          bind_res (config_index cf pi) (\<lambda>c.
            case config_addr c of
              Some tmp_addr \<Rightarrow>
                if remote_addr_is_none builder
                then collect_addrs cf m out_tag tags (push_remote_addr tmp_addr builder) addrs
                else collect_addrs cf m out_tag tags builder (addrs @ [tmp_addr])
            | None \<Rightarrow> collect_addrs cf m out_tag tags builder addrs)
      | None \<Rightarrow> Err (new_error (''config parse failed, can't find chain tag `'' @ tag @
                  ''` in outbound `'' @ out_tag @ ''`'')))"

fun push_hops ::
  "tls_env \<Rightarrow> config \<Rightarrow> config_map \<Rightarrow> string list \<Rightarrow> address list \<Rightarrow> chain \<Rightarrow> chain res" where
  "push_hops E cf m [] addr_iter builder = Ok builder"
| "push_hops E cf m (t # ts) addr_iter builder =
     (case m t of
        Some pi \<Rightarrow>
          (if fst pi \<in> {Trojan, SS, Vmess} then
             (case addr_iter of
                [] \<Rightarrow> bind_res (config_index cf pi) (\<lambda>c.
                        push_hops E cf m ts [] (push_last_builder c builder))
              | next_addr # rest \<Rightarrow>
                  bind_res (config_index cf pi) (\<lambda>c.
                  bind_res (to_chainable_stream_builder E c (Some next_addr)) (\<lambda>b.
                    push_hops E cf m ts rest (push_builder b builder))))
           else
             bind_res (config_index cf pi) (\<lambda>c.
             bind_res (to_chainable_stream_builder E c None) (\<lambda>b.
               push_hops E cf m ts addr_iter (push_builder b builder))))
      | None \<Rightarrow> push_hops E cf m ts addr_iter builder)"

definition build_chain :: "tls_env \<Rightarrow> config \<Rightarrow> config_map \<Rightarrow> outbounds \<Rightarrow> chain res" where
  "build_chain E cf m out =
     bind_res (collect_addrs cf m (ob_tag out) (ob_chain out) chain_new []) (\<lambda>(builder, addrs).
     bind_res (push_hops E cf m (ob_chain out) addrs builder) build_inner_markers)"

fun build_chains ::
  "tls_env \<Rightarrow> config \<Rightarrow> config_map \<Rightarrow> outbounds list \<Rightarrow> (string \<rightharpoonup> chain) \<Rightarrow> (string \<rightharpoonup> chain) res" where
  "build_chains E cf m [] inner_map = Ok inner_map"
| "build_chains E cf m (out # outs) inner_map =
     bind_res (build_chain E cf m out) (\<lambda>builder.
       build_chains E cf m outs (inner_map(ob_tag out \<mapsto> builder)))"

definition build_inner_map :: "tls_env \<Rightarrow> config \<Rightarrow> (string \<rightharpoonup> chain) res" where
  "build_inner_map E cf = build_chains E cf (build_config_map cf) (cf_outbounds cf) Map.empty"

section \<open>The server\<close>

record ('m, 'r) config_server =
  sv_backlog :: u32
  sv_relay_buffer_size :: nat
  sv_inbounds :: "inbounds list"
  sv_dokodemo :: "dokodemo_door list"
  sv_router :: "('m, 'r) router"
  sv_inner_map :: "string \<rightharpoonup> chain"
  sv_enable_api_server :: bool
  sv_api_server_addr :: address

definition config_server_new ::
  "u32 \<Rightarrow> nat \<Rightarrow> inbounds list \<Rightarrow> dokodemo_door list \<Rightarrow> ('m, 'r) router \<Rightarrow> (string \<rightharpoonup> chain) \<Rightarrow> bool \<Rightarrow>
   address \<Rightarrow> ('m, 'r) config_server" where
  "config_server_new backlog relay_buffer_size inbs dokodemo rt inner_map enable_api api_addr =
     \<lparr>sv_backlog = backlog, sv_relay_buffer_size = relay_buffer_size, sv_inbounds = inbs,
      sv_dokodemo = dokodemo, sv_router = rt, sv_inner_map = inner_map,
      sv_enable_api_server = enable_api, sv_api_server_addr = api_addr\<rparr>"

definition build_server ::
  "tls_env \<Rightarrow> ('m, 'r) router_lib \<Rightarrow> ('s, 'w) coded_input \<Rightarrow> bool \<Rightarrow> config \<Rightarrow> ('m, 'r) config_server res option" where
  "build_server E L C checks cf =
     (let default_outbound =
            (if cf_default_outbound cf = [] \<and> cf_outbounds cf \<noteq> [] then ob_tag (hd (cf_outbounds cf))
             else cf_default_outbound cf)
      in case build_inner_map E cf of
           Ok inner_map \<Rightarrow>
             if inner_map default_outbound = None
             then Some (Err (new_error
               ''missing default outbound tag or default outbound tag is not in outbounds''))
             else map_option
               (map_res (\<lambda>rt. config_server_new (cf_backlog cf) (cf_relay_buffer_size cf)
                  (cf_inbounds cf) (cf_dokodemo cf) rt inner_map (cf_enable_api_server cf)
                  (cf_api_server_addr cf)))
               (build_router L C checks (cf_domain_routing_rules cf) (cf_ip_routing_rules cf)
                  (cf_geosite_rules cf) (cf_geoip_rules cf) default_outbound)
         | Err e \<Rightarrow> Some (Err e)
         | Panic \<Rightarrow> Some Panic)"

section \<open>Tag resolution\<close>

text \<open>Every entry of the tag table points at a configured hop of that tag.\<close>

definition map_sound :: "config \<Rightarrow> config_map \<Rightarrow> bool" where
  "map_sound cf m \<longleftrightarrow> (\<forall>tag pi. m tag = Some pi \<longrightarrow>
     (\<exists>c. config_index cf pi = Ok c \<and> config_tag c = tag \<and> get_protocol_type c = fst pi))"

lemma config_vec_type: "c \<in> set (config_vec cf p) \<Longrightarrow> get_protocol_type c = p"
  by (cases p) auto

lemma insert_config_map_from_sound:
  "map_sound cf m \<Longrightarrow> config_vec cf p = pre @ ss \<Longrightarrow>
     map_sound cf (insert_config_map_from (length pre) ss m)"
proof (induction ss arbitrary: pre m)
  case (Cons s ss)
  have "s \<in> set (config_vec cf p)" using Cons.prems by simp
  then have s: "get_protocol_type s = p" by (rule config_vec_type)
  have "config_index cf (p, length pre) = Ok s"
    using Cons.prems by (simp add: config_index_def index_vec_def)
  with s have "map_sound cf (m(config_tag s \<mapsto> (get_protocol_type s, length pre)))"
    using Cons.prems(1) by (auto simp: map_sound_def)
  from Cons.IH [OF this, of "pre @ [s]"] Cons.prems show ?case by (simp del: fun_upd_apply)
qed simp

lemma build_config_map_sound: "map_sound cf (build_config_map cf)"
proof -
  have one: "map_sound cf m \<Longrightarrow> map_sound cf (insert_config_map (config_vec cf p) m)" for m p
    using insert_config_map_from_sound [of cf m p "[]" "config_vec cf p"]
    by (simp add: insert_config_map_def)
  have "map_sound cf m \<Longrightarrow> map_sound cf (fold (\<lambda>p m. insert_config_map (config_vec cf p) m) ps m)" for ps m
    by (induction ps arbitrary: m) (simp_all add: one del: config_vec.simps)
  moreover have "map_sound cf Map.empty" by (simp add: map_sound_def)
  ultimately show ?thesis unfolding build_config_map_def by blast
qed

lemma insert_config_map_dom: "dom (insert_config_map ss m) = dom m \<union> config_tag ` set ss"
proof -
  have "dom (insert_config_map_from n ss m) = dom m \<union> config_tag ` set ss" for n
  proof (induction ss arbitrary: n m)
    case (Cons s ss)
    show ?case unfolding insert_config_map_from.simps by (subst Cons.IH) auto
  qed simp
  then show ?thesis by (simp add: insert_config_map_def)
qed

lemma build_config_map_dom:
  "tag \<in> dom (build_config_map cf) \<longleftrightarrow> (\<exists>p. \<exists>c \<in> set (config_vec cf p). config_tag c = tag)"
proof -
  have "dom (fold (\<lambda>p m. insert_config_map (config_vec cf p) m) ps m) =
      dom m \<union> (\<Union>p \<in> set ps. config_tag ` set (config_vec cf p))" for ps m
    by (induction ps arbitrary: m) (auto simp: insert_config_map_dom simp del: config_vec.simps)
  from this [of _ Map.empty] have "dom (build_config_map cf) =
      (\<Union>p \<in> set [SS, Tls, Vmess, WS, Trojan, Direct, H2, Grpc, Blackhole, SimpleObfs].
        config_tag ` set (config_vec cf p))"
    unfolding build_config_map_def by (simp only: dom_empty Un_empty_left)
  moreover have "p \<in> set [SS, Tls, Vmess, WS, Trojan, Direct, H2, Grpc, Blackhole, SimpleObfs]" for p
    by (cases p) simp_all
  then have "set [SS, Tls, Vmess, WS, Trojan, Direct, H2, Grpc, Blackhole, SimpleObfs] = UNIV" by blast
  ultimately have d: "dom (build_config_map cf) = (\<Union>p. config_tag ` set (config_vec cf p))"
    by (simp only:)
  show ?thesis unfolding d by (auto simp del: config_vec.simps)
qed

section \<open>The shape of a chain\<close>

text \<open>
  The address a stream must reach next: that of the next hop that has one, or the destination. The
  hops of a chain whose certificates load, each told where the next one is.
\<close>

fun first_addr :: "proto_config list \<Rightarrow> address \<Rightarrow> address" where
  "first_addr [] dst = dst"
| "first_addr (c # cs) dst = (case config_addr c of Some a \<Rightarrow> a | None \<Rightarrow> first_addr cs dst)"

definition hop_of :: "tls_env \<Rightarrow> proto_config \<Rightarrow> address \<Rightarrow> stream_builder" where
  "hop_of E c a = (case to_chainable_stream_builder E c (Some a) of Ok b \<Rightarrow> b | _ \<Rightarrow> DirectStreamBuilder)"

fun tunnel :: "tls_env \<Rightarrow> proto_config list \<Rightarrow> address \<Rightarrow> stream_builder list" where
  "tunnel E [] dst = []"
| "tunnel E (c # cs) dst = hop_of E c (first_addr cs dst) # tunnel E cs dst"

definition addrs_of :: "proto_config list \<Rightarrow> address list" where
  "addrs_of cs = List.map_filter config_addr cs"

lemma addrs_of_simps [simp]:
  "addrs_of [] = []"
  "addrs_of (c # cs) = (case config_addr c of Some a \<Rightarrow> [a] | None \<Rightarrow> []) @ addrs_of cs"
  by (simp_all add: addrs_of_def map_filter_simps split: option.splits)

lemma addrs_of_Nil_iff: "addrs_of cs = [] \<longleftrightarrow> (\<forall>c \<in> set cs. config_addr c = None)"
  by (induction cs) (auto split: option.splits)

definition chain_loads :: "tls_env \<Rightarrow> proto_config list \<Rightarrow> bool" where
  "chain_loads E cs \<longleftrightarrow> (\<forall>c \<in> set cs. hop_loads E c)"

lemma chain_loads_simps [simp]:
  "chain_loads E []" "chain_loads E (c # cs) \<longleftrightarrow> hop_loads E c \<and> chain_loads E cs"
  by (simp_all add: chain_loads_def)

lemma to_chainable_hop_of:
  "hop_loads E c \<Longrightarrow> to_chainable_stream_builder E c (Some a) = Ok (hop_of E c a)"
  using to_chainable_Ok [of c "Some a" E] by (auto simp: hop_of_def)

lemma to_chainable_addressed:
  "config_addr c \<noteq> None \<Longrightarrow> to_chainable_stream_builder E' c (Some a) = Ok (hop_of E c a)"
  using to_chainable_hop_of [OF config_addr_loads] to_chainable_env [of c E' "Some a" E] by simp

lemma to_chainable_None:
  "config_addr c = None \<Longrightarrow> hop_loads E c \<Longrightarrow> to_chainable_stream_builder E c None = Ok (hop_of E c a)"
proof (cases c)
  case (TlsConfig t)
  assume "hop_loads E c"
  from to_chainable_hop_of [OF this, of a] TlsConfig show ?thesis by simp
qed (auto simp: hop_of_def)

lemma first_addr_addrs: "first_addr cs dst = (case addrs_of cs of a # as \<Rightarrow> a | [] \<Rightarrow> dst)"
  by (induction cs) (auto split: option.splits)

text \<open>A chain is resolved when its tags name configured hops.\<close>

definition resolves :: "config \<Rightarrow> config_map \<Rightarrow> string list \<Rightarrow> proto_config list \<Rightarrow> bool" where
  "resolves cf m ts cs \<longleftrightarrow>
     list_all2 (\<lambda>t c. \<exists>pi. m t = Some pi \<and> config_index cf pi = Ok c \<and> get_protocol_type c = fst pi) ts cs"

lemma collect_addrs_resolved:
  "resolves cf m ts cs \<Longrightarrow>
     collect_addrs cf m out ts b as =
       (if remote_addr b = None
        then case addrs_of cs of [] \<Rightarrow> Ok (b, as) | a # as' \<Rightarrow> Ok (b\<lparr>remote_addr := Some a\<rparr>, as @ as')
        else Ok (b, as @ addrs_of cs))"
proof (induction ts arbitrary: cs b as)
  case Nil
  then show ?case by (simp add: resolves_def)
next
  case (Cons t ts)
  then obtain c cs' pi where c: "cs = c # cs'" "m t = Some pi" "config_index cf pi = Ok c"
      "resolves cf m ts cs'"
    by (auto simp: resolves_def list_all2_Cons1)
  with Cons.IH [OF c(4)] show ?case
    by (auto simp: remote_addr_is_none_def push_remote_addr_def split: option.splits)
qed

lemma push_hops_plain:
  "resolves cf m ts cs \<Longrightarrow> addrs_of cs = [] \<Longrightarrow> chain_loads E cs \<Longrightarrow>
     push_hops E cf m ts as b = Ok (b\<lparr>ch_builders := ch_builders b @ tunnel E cs dst\<rparr>)"
proof (induction ts arbitrary: cs b)
  case Nil
  then show ?case by (simp add: resolves_def)
next
  case (Cons t ts)
  then obtain c cs' pi where c: "cs = c # cs'" "m t = Some pi" "config_index cf pi = Ok c"
      "get_protocol_type c = fst pi" "resolves cf m ts cs'"
    by (auto simp: resolves_def list_all2_Cons1)
  with Cons.prems have na: "config_addr c = None" "addrs_of cs' = []" "hop_loads E c" "chain_loads E cs'"
    by (auto split: option.splits)
  then have "fst pi \<notin> {Trojan, SS, Vmess}" using config_addr_protocol [of c] c(4) by simp
  with c na Cons.IH [OF c(5) na(2,4)] show ?case
    by (simp add: to_chainable_None [OF na(1,3), of "first_addr cs' dst"] push_builder_def)
qed

lemma tunnel_nonempty [simp]: "tunnel E cs dst = [] \<longleftrightarrow> cs = []"
  by (cases cs) auto

lemma push_hops_addressed:
  "resolves cf m ts cs \<Longrightarrow> cs \<noteq> [] \<Longrightarrow> config_addr (last cs) \<noteq> None \<Longrightarrow> chain_loads E cs \<Longrightarrow>
     push_hops E cf m ts (tl (addrs_of cs)) b =
       Ok (b\<lparr>ch_builders := ch_builders b @ butlast (tunnel E cs dst), last_builder := Some (last cs)\<rparr>)"
proof (induction ts arbitrary: cs b)
  case Nil
  then show ?case by (simp add: resolves_def)
next
  case (Cons t ts)
  then obtain c cs' pi where c: "cs = c # cs'" "m t = Some pi" "config_index cf pi = Ok c"
      "get_protocol_type c = fst pi" "resolves cf m ts cs'"
    by (auto simp: resolves_def list_all2_Cons1)
  show ?case
  proof (cases "cs' = []")
    case True
    with c have "ts = []" by (simp add: resolves_def)
    moreover have "fst pi \<in> {Trojan, SS, Vmess}"
      using config_addr_protocol [of c] c Cons.prems(3) True by simp
    ultimately show ?thesis
      using c True Cons.prems(3) by (auto simp: push_last_builder_def)
  next
    case False
    with Cons.prems c have la: "config_addr (last cs') \<noteq> None" and ld: "hop_loads E c" "chain_loads E cs'"
      by simp_all
    note IH = Cons.IH [OF c(5) False la ld(2)]
    have "addrs_of cs' \<noteq> []" using la False by (auto simp: addrs_of_Nil_iff)
    then obtain a as where as: "addrs_of cs' = a # as" by (cases "addrs_of cs'") auto
    then have fa: "first_addr cs' dst = a" by (simp add: first_addr_addrs)
    show ?thesis
    proof (cases "config_addr c")
      case None
      then have "fst pi \<notin> {Trojan, SS, Vmess}" using config_addr_protocol [of c] c(4) by simp
      with c None IH False as show ?thesis
        by (simp add: to_chainable_None [OF None ld(1), of "first_addr cs' dst"] push_builder_def)
    next
      case (Some x)
      then have "fst pi \<in> {Trojan, SS, Vmess}" using config_addr_protocol [of c] c(4) by simp
      with c Some IH False as fa show ?thesis
        by (auto simp: to_chainable_hop_of [OF ld(1)] push_builder_def)
    qed
  qed
qed

definition well_formed_chain :: "proto_config list \<Rightarrow> bool" where
  "well_formed_chain cs \<longleftrightarrow> cs \<noteq> [] \<and> (addrs_of cs = [] \<or> config_addr (last cs) \<noteq> None)"

text \<open>When the certificates of a hop do not load, the construction of the chain panics.\<close>

lemma push_hops_Panic:
  "resolves cf m ts cs \<Longrightarrow> \<not> chain_loads E cs \<Longrightarrow> push_hops E cf m ts as b = Panic"
proof (induction ts arbitrary: cs as b)
  case Nil
  then show ?case by (simp add: resolves_def)
next
  case (Cons t ts)
  then obtain c cs' pi where c: "cs = c # cs'" "m t = Some pi" "config_index cf pi = Ok c"
      "get_protocol_type c = fst pi" "resolves cf m ts cs'"
    by (auto simp: resolves_def list_all2_Cons1)
  show ?case
  proof (cases "hop_loads E c")
    case True
    with Cons.prems(2) c(1) have "\<not> chain_loads E cs'" by simp
    note IH = Cons.IH [OF c(5) this]
    show ?thesis
    proof (cases "fst pi \<in> {Trojan, SS, Vmess}")
      case addressed: True
      with c IH show ?thesis by (cases as) (auto simp: to_chainable_hop_of [OF True])
    next
      case False
      with config_addr_protocol [of c] c(4) have "config_addr c = None" by auto
      from to_chainable_None [OF this True, of undefined] False c IH show ?thesis by simp
    qed
  next
    case False
    with config_addr_loads [of c E] have na: "config_addr c = None" by blast
    then have "fst pi \<notin> {Trojan, SS, Vmess}" using config_addr_protocol [of c] c(4) by simp
    with c False show ?thesis by (simp add: to_chainable_Panic)
  qed
qed

lemma hop_of_type: "hop_loads E c \<Longrightarrow> builder_protocol_type (hop_of E c a) = get_protocol_type c"
  using to_chainable_type [OF to_chainable_hop_of] .

lemma tunnel_types [simp]:
  "chain_loads E cs \<Longrightarrow> map builder_protocol_type (tunnel E cs dst) = map get_protocol_type cs"
  by (induction cs) (auto simp: hop_of_type)

lemma length_tunnel [simp]: "length (tunnel E cs dst) = length cs"
  by (induction cs) auto

lemma tunnel_snoc: "cs \<noteq> [] \<Longrightarrow> tunnel E cs dst = butlast (tunnel E cs dst) @ [hop_of E (last cs) dst]"
  by (induction cs) (auto simp: butlast_append)

lemma butlast_tunnel_types:
  "cs \<noteq> [] \<Longrightarrow> chain_loads E cs \<Longrightarrow>
     map builder_protocol_type (butlast (tunnel E cs dst)) = map get_protocol_type (butlast cs)"
  by (simp add: map_butlast)

lemma position_of_Some:
  "position_of P xs = Some i \<Longrightarrow> i < length xs \<and> P (xs ! i) \<and> (\<forall>j < i. \<not> P (xs ! j))"
proof (induction xs arbitrary: i)
  case (Cons x xs)
  show ?case
  proof (cases "P x")
    case False
    with Cons.prems obtain k where "position_of P xs = Some k" "i = Suc k" by auto
    with Cons.IH False show ?thesis by (auto simp: less_Suc_eq_0_disj)
  qed (use Cons.prems in auto)
qed simp

text \<open>The chain of an outbound: where it connects, its hops, its markers.\<close>

definition chain_of :: "tls_env \<Rightarrow> proto_config list \<Rightarrow> chain \<Rightarrow> bool" where
  "chain_of E cs ch \<longleftrightarrow> chain_loads E cs \<and>
     remote_addr ch = (case addrs_of cs of [] \<Rightarrow> None | a # as \<Rightarrow> Some a) \<and>
     (\<forall>dst. ch_builders ch = (if addrs_of cs = [] then tunnel E cs dst else butlast (tunnel E cs dst))) \<and>
     last_builder ch = (if addrs_of cs = [] then None else Some (last cs)) \<and>
     (is_black_hole ch \<longleftrightarrow> (\<exists>c \<in> set cs. get_protocol_type c = Blackhole)) \<and>
     build_udp_marker ch = build_udp_marker_impl [] (rev (map get_protocol_type cs))"

lemma build_inner_markers_Ok:
  assumes "iter_collect (protocol_iter_new (ch_builders c) (last_builder c)) = tys"
    and "\<And>i. position_of is_uot tys = Some i \<Longrightarrow> i \<le> length (ch_builders c)"
  shows "\<exists>u. build_inner_markers c = Ok (c\<lparr>is_black_hole := list_ex (\<lambda>x. x = Blackhole) tys,
     build_udp_marker := build_udp_marker_impl (build_udp_marker c) tys, last_udp_addr := u\<rparr>)"
proof (cases "position_of is_uot tys")
  case None
  with assms(1) show ?thesis by (auto simp: build_inner_markers_def Let_def)
next
  case (Some i)
  with assms show ?thesis
    by (cases "i = 0") (auto simp: build_inner_markers_def Let_def intro: exI [of _ "last_udp_addr c"])
qed

lemma build_chain_correct:
  assumes r: "resolves cf m (ob_chain out) cs" and wf: "well_formed_chain cs" and ld: "chain_loads E cs"
  shows "\<exists>ch. build_chain E cf m out = Ok ch \<and> chain_of E cs ch"
proof -
  let ?b1 = "chain_new\<lparr>remote_addr := (case addrs_of cs of [] \<Rightarrow> None | a # as \<Rightarrow> Some a)\<rparr>"
  have ca: "collect_addrs cf m (ob_tag out) (ob_chain out) chain_new [] = Ok (?b1, tl (addrs_of cs))"
    using collect_addrs_resolved [OF r, of "ob_tag out" chain_new "[]"]
    by (auto simp: chain_new_def split: list.splits)
  let ?l = "if addrs_of cs = [] then None else Some (last cs)"
  let ?bs = "\<lambda>dst. if addrs_of cs = [] then tunnel E cs dst else butlast (tunnel E cs dst)"
  let ?b2 = "\<lambda>dst. ?b1\<lparr>ch_builders := ?bs dst, last_builder := ?l\<rparr>"
  have ph: "push_hops E cf m (ob_chain out) (tl (addrs_of cs)) ?b1 = Ok (?b2 dst)" for dst
  proof (cases "addrs_of cs = []")
    case True
    from push_hops_plain [OF r True ld, of "[]" ?b1 dst] True show ?thesis by (simp add: chain_new_def)
  next
    case False
    with wf have "cs \<noteq> []" "config_addr (last cs) \<noteq> None" by (auto simp: well_formed_chain_def)
    from push_hops_addressed [OF r this ld, of ?b1 dst] False show ?thesis by (simp add: chain_new_def)
  qed
  have eq: "?bs d = ?bs d'" for d d'
  proof -
    have "?b2 d = ?b2 d'" using ph [of d] ph [of d'] by (simp only: res.inject)
    then have "ch_builders (?b2 d) = ch_builders (?b2 d')" by (rule arg_cong)
    then show ?thesis by simp
  qed
  have tys: "iter_collect (protocol_iter_new (?bs d) ?l) = rev (map get_protocol_type cs)" for d
  proof (cases "addrs_of cs = []")
    case True
    then show ?thesis using ld by (simp add: iter_collect_new)
  next
    case False
    then have "cs \<noteq> []" by auto
    then have "map get_protocol_type cs =
        map get_protocol_type (butlast cs) @ [get_protocol_type (last cs)]"
      by (metis append_butlast_last_id list.simps(8,9) map_append)
    with False \<open>cs \<noteq> []\<close> show ?thesis by (simp add: iter_collect_new butlast_tunnel_types [OF _ ld])
  qed
  let ?c = "?b2 undefined"
  have len: "i \<le> length (ch_builders ?c)"
    if "position_of is_uot (rev (map get_protocol_type cs)) = Some i" for i
  proof -
    have "i < length cs" using position_of_Some [OF that] by simp
    then have "i \<le> length cs - 1" by linarith
    with \<open>i < length cs\<close> show ?thesis by simp
  qed
  have "\<exists>u. build_inner_markers ?c = Ok (?c\<lparr>is_black_hole := list_ex (\<lambda>x. x = Blackhole) (rev (map get_protocol_type cs)),
              build_udp_marker := build_udp_marker_impl [] (rev (map get_protocol_type cs)),
              last_udp_addr := u\<rparr>)"
    using build_inner_markers_Ok [of ?c "rev (map get_protocol_type cs)"] tys [of undefined] len
    by (simp add: chain_new_def)
  then obtain ch u where ch: "build_inner_markers ?c = Ok ch"
      "ch = ?c\<lparr>is_black_hole := list_ex (\<lambda>x. x = Blackhole) (rev (map get_protocol_type cs)),
              build_udp_marker := build_udp_marker_impl [] (rev (map get_protocol_type cs)),
              last_udp_addr := u\<rparr>" by blast
  have "build_chain E cf m out = Ok ch"
    using ca ph [of undefined] ch(1) by (simp add: build_chain_def)
  moreover have "chain_of E cs ch"
  proof -
    have f: "remote_addr ch = remote_addr ?c" "ch_builders ch = ch_builders ?c"
      "last_builder ch = last_builder ?c"
      "is_black_hole ch = list_ex (\<lambda>x. x = Blackhole) (rev (map get_protocol_type cs))"
      "build_udp_marker ch = build_udp_marker_impl [] (rev (map get_protocol_type cs))"
      by (simp_all only: ch(2)) simp_all
    have "ch_builders ?c = ?bs undefined" by simp
    from trans [OF trans [OF f(2) this] eq] have "ch_builders ch = ?bs dst" for dst .
    moreover have "is_black_hole ch \<longleftrightarrow> (\<exists>c \<in> set cs. get_protocol_type c = Blackhole)"
      using f(4) unfolding list_ex_iff by (metis (mono_tags, lifting) imageE image_eqI list.set_map set_rev)
    ultimately show ?thesis using f ld by (simp add: chain_of_def)
  qed
  ultimately show ?thesis by blast
qed

lemma build_chain_Panic:
  assumes r: "resolves cf m (ob_chain out) cs" and ld: "\<not> chain_loads E cs"
  shows "build_chain E cf m out = Panic"
proof -
  from collect_addrs_resolved [OF r, of "ob_tag out" chain_new "[]"] obtain b as where
    "collect_addrs cf m (ob_tag out) (ob_chain out) chain_new [] = Ok (b, as)"
    by (auto split: list.splits if_splits)
  with push_hops_Panic [OF r ld] show ?thesis by (simp add: build_chain_def)
qed

section \<open>What a chain does\<close>

lemma run_hops_append: "run_hops f (xs @ ys) io = bind_res (run_hops f xs io) (run_hops f ys)"
proof (induction xs arbitrary: io)
  case (Cons x xs)
  then have "run_hops f (xs @ ys) = (\<lambda>io. bind_res (run_hops f xs io) (run_hops f ys))" by (intro ext)
  then show ?case by (simp add: bind_res_assoc)
qed simp

lemma bind_res_Ok [simp]: "bind_res m Ok = m"
  by (cases m) auto

lemma run_hops_Nil [simp]: "run_hops f [] = Ok"
  by (rule ext) simp

lemma run_hops_single [simp]: "run_hops f [b] = f b"
  by (rule ext) simp

text \<open>A chain connects to its first server and tells every hop where the next one is.\<close>

lemma build_tcp_tunnel:
  assumes ch: "chain_of E cs ch" and wf: "well_formed_chain cs"
  shows "build_tcp N ch dst =
    (if \<exists>c \<in> set cs. get_protocol_type c = Blackhole then Err (new_error ''block connection'')
     else bind_res (connect_tcp N (first_addr cs dst)) (run_hops (hop_tcp N) (tunnel E cs dst)))"
proof -
  have fa: "first_addr cs dst = (case remote_addr ch of Some r \<Rightarrow> r | None \<Rightarrow> dst)"
    using ch by (auto simp: chain_of_def first_addr_addrs split: list.splits)
  have run: "bind_res (run_hops (hop_tcp N) (ch_builders ch) io) (\<lambda>io.
      case last_builder ch of
        Some b \<Rightarrow> bind_res (to_chainable_stream_builder (net_tls N) b (Some dst)) (\<lambda>b. hop_tcp N b io)
      | None \<Rightarrow> Ok io) = run_hops (hop_tcp N) (tunnel E cs dst) io" for io
  proof (cases "addrs_of cs = []")
    case True
    with ch have "ch_builders ch = tunnel E cs dst" "last_builder ch = None"
      by (auto simp: chain_of_def)
    then show ?thesis by simp
  next
    case False
    with ch have c: "ch_builders ch = butlast (tunnel E cs dst)" "last_builder ch = Some (last cs)"
      by (auto simp: chain_of_def)
    have la: "config_addr (last cs) \<noteq> None" using wf False by (simp add: well_formed_chain_def)
    have t: "tunnel E cs dst = butlast (tunnel E cs dst) @ [hop_of E (last cs) dst]"
      using wf by (intro tunnel_snoc) (simp add: well_formed_chain_def)
    show ?thesis
      by (subst t) (simp add: c run_hops_append to_chainable_addressed [OF la, of _ _ E])
  qed
  have b: "is_black_hole ch \<longleftrightarrow> (\<exists>c \<in> set cs. get_protocol_type c = Blackhole)"
    using ch by (simp add: chain_of_def)
  show ?thesis by (simp only: build_tcp_def b run fa)
qed

lemma chain_of_markers:
  assumes "chain_of E cs ch" and "i < length cs"
  shows "build_udp_marker ch ! i \<longleftrightarrow>
    (\<exists>j. i < j \<and> j < length cs \<and> is_uot (get_protocol_type (cs ! j)))"
proof -
  have "build_udp_marker ch ! i \<longleftrightarrow>
      (\<exists>j. i < j \<and> j < length cs \<and> is_uot (map get_protocol_type cs ! j))"
    using assms build_udp_marker_impl_nth [of i "map get_protocol_type cs"]
    by (simp add: chain_of_def)
  then show ?thesis by (metis nth_map)
qed

section \<open>All outbounds\<close>

definition outbound_ok :: "config \<Rightarrow> outbounds \<Rightarrow> proto_config list \<Rightarrow> bool" where
  "outbound_ok cf out cs \<longleftrightarrow>
     resolves cf (build_config_map cf) (ob_chain out) cs \<and> well_formed_chain cs"

lemma resolves_unique: "resolves cf m ts cs \<Longrightarrow> resolves cf m ts cs' \<Longrightarrow> cs = cs'"
proof (induction ts arbitrary: cs cs')
  case (Cons t ts)
  then show ?case by (fastforce simp: resolves_def list_all2_Cons1)
qed (simp add: resolves_def)

lemma outbound_ok_unique: "outbound_ok cf out cs \<Longrightarrow> outbound_ok cf out cs' \<Longrightarrow> cs = cs'"
  by (auto simp: outbound_ok_def intro: resolves_unique)

text \<open>The certificates of all the hops the outbounds name load.\<close>

definition outbounds_load :: "tls_env \<Rightarrow> config \<Rightarrow> outbounds list \<Rightarrow> bool" where
  "outbounds_load E cf outs \<longleftrightarrow> (\<forall>out \<in> set outs. \<forall>cs. outbound_ok cf out cs \<longrightarrow> chain_loads E cs)"

lemma build_chains_correct:
  "(\<And>out. out \<in> set outs \<Longrightarrow> \<exists>cs. outbound_ok cf out cs) \<Longrightarrow> outbounds_load E cf outs \<Longrightarrow>
     \<exists>M. build_chains E cf (build_config_map cf) outs M0 = Ok M \<and>
       dom M = dom M0 \<union> ob_tag ` set outs \<and>
       (\<forall>tag ch. M tag = Some ch \<longrightarrow> M0 tag = Some ch \<or>
          (\<exists>out \<in> set outs. \<exists>cs. ob_tag out = tag \<and> outbound_ok cf out cs \<and> chain_of E cs ch))"
proof (induction outs arbitrary: M0)
  case Nil
  then show ?case by auto
next
  case (Cons out outs)
  from Cons.prems(1) [of out] obtain cs where cs: "outbound_ok cf out cs" by auto
  with Cons.prems(2) have ld: "chain_loads E cs" "outbounds_load E cf outs"
    by (simp_all add: outbounds_load_def)
  from cs obtain ch where ch: "build_chain E cf (build_config_map cf) out = Ok ch" "chain_of E cs ch"
    using build_chain_correct [of cf "build_config_map cf" out cs E] ld by (auto simp: outbound_ok_def)
  have "\<exists>M. build_chains E cf (build_config_map cf) outs (M0(ob_tag out \<mapsto> ch)) = Ok M \<and>
       dom M = dom (M0(ob_tag out \<mapsto> ch)) \<union> ob_tag ` set outs \<and>
       (\<forall>tag c. M tag = Some c \<longrightarrow> (M0(ob_tag out \<mapsto> ch)) tag = Some c \<or>
          (\<exists>out \<in> set outs. \<exists>cs. ob_tag out = tag \<and> outbound_ok cf out cs \<and> chain_of E cs c))"
    by (rule Cons.IH) (use Cons.prems(1) ld in auto)
  then obtain M where M: "build_chains E cf (build_config_map cf) outs (M0(ob_tag out \<mapsto> ch)) = Ok M"
      "dom M = dom (M0(ob_tag out \<mapsto> ch)) \<union> ob_tag ` set outs"
      "\<And>tag c. M tag = Some c \<Longrightarrow> (M0(ob_tag out \<mapsto> ch)) tag = Some c \<or>
          (\<exists>out \<in> set outs. \<exists>cs. ob_tag out = tag \<and> outbound_ok cf out cs \<and> chain_of E cs c)"
    by blast
  have "M0 tag = Some c \<or> (\<exists>o' \<in> set (out # outs). \<exists>cs. ob_tag o' = tag \<and> outbound_ok cf o' cs \<and>
      chain_of E cs c)" if "M tag = Some c" for tag c
    using M(3) [OF that] cs ch(2) by (auto split: if_splits)
  with M(1,2) ch(1) show ?case by (intro exI [of _ M]) simp
qed

lemma build_chains_Panic:
  "(\<And>out. out \<in> set outs \<Longrightarrow> \<exists>cs. outbound_ok cf out cs) \<Longrightarrow> \<not> outbounds_load E cf outs \<Longrightarrow>
     build_chains E cf (build_config_map cf) outs M0 = Panic"
proof (induction outs arbitrary: M0)
  case Nil
  then show ?case by (simp add: outbounds_load_def)
next
  case (Cons out outs)
  from Cons.prems(1) [of out] obtain cs where cs: "outbound_ok cf out cs" by auto
  then have r: "resolves cf (build_config_map cf) (ob_chain out) cs" "well_formed_chain cs"
    by (simp_all add: outbound_ok_def)
  show ?case
  proof (cases "chain_loads E cs")
    case False
    with build_chain_Panic [OF r(1)] show ?thesis by simp
  next
    case True
    from build_chain_correct [OF r this] obtain ch where
      ch: "build_chain E cf (build_config_map cf) out = Ok ch" by blast
    from True cs have "\<forall>cs. outbound_ok cf out cs \<longrightarrow> chain_loads E cs" using outbound_ok_unique by blast
    with Cons.prems(2) have "\<not> outbounds_load E cf outs" by (auto simp: outbounds_load_def)
    from Cons.IH [OF _ this] Cons.prems(1) ch show ?thesis by simp
  qed
qed

text \<open>A tag that names no hop is reported, whatever the rest of the chain.\<close>

lemma collect_addrs_unknown:
  "resolves cf m pre cs \<Longrightarrow> m tag = None \<Longrightarrow>
     collect_addrs cf m out (pre @ tag # post) b as =
       Err (new_error (''config parse failed, can't find chain tag `'' @ tag @ ''` in outbound `'' @ out @ ''`''))"
proof (induction pre arbitrary: cs b as)
  case Nil
  then show ?case by auto
next
  case (Cons t ts)
  then obtain c cs' pi where c: "m t = Some pi" "config_index cf pi = Ok c" "resolves cf m ts cs'"
    by (auto simp: resolves_def list_all2_Cons1)
  with Cons.IH [OF c(3) Cons.prems(2)] show ?case by (auto split: option.splits)
qed

end
