(* ===== verification/Address_Text.thy ===== *)
theory Address_Text
  imports Address
begin

text \<open>
  The textual form of addresses: \<open>FromStr\<close>, \<open>Display\<close> and the conversions of
  \<open>src/proxy/address.rs\<close>. The standard library's parser and printer of socket addresses are
  parameters; its parser of 16 bit numbers is written out.
\<close>

definition is_digit :: "char \<Rightarrow> bool" where
  "is_digit c \<longleftrightarrow> 48 \<le> (of_char c :: nat) \<and> (of_char c :: nat) \<le> 57"

definition digit_value :: "char \<Rightarrow> nat" where "digit_value c = of_char c - 48"

definition digits_value :: "string \<Rightarrow> nat" where
  "digits_value ds = foldl (\<lambda>n c. 10 * n + digit_value c) 0 ds"

text \<open>\<open>parse::<u16>\<close>: an optional plus sign, then digits, at least one, in range.\<close>

definition parse_u16 :: "string \<Rightarrow> u16 option" where
  "parse_u16 s =
     (let ds = (case s of c # r \<Rightarrow> if c = CHR ''+'' then r else s | [] \<Rightarrow> [])
      in if ds \<noteq> [] \<and> list_all is_digit ds \<and> digits_value ds < 65536
         then Some (of_nat (digits_value ds)) else None)"

text \<open>\<open>str::split(':')\<close>: the pieces between the colons, at least one.\<close>

fun split_colon :: "string \<Rightarrow> string list" where
  "split_colon [] = [[]]"
| "split_colon (c # cs) =
     (if c = CHR '':'' then [] # split_colon cs
      else case split_colon cs of p # ps \<Rightarrow> (c # p) # ps | [] \<Rightarrow> [[c]])"

datatype address_error = AddressError string

definition address_error_io :: "address_error \<Rightarrow> io_error" where
  "address_error_io e = (case e of AddressError m \<Rightarrow> IoError Other (''address error: '' @ m))"

definition address_from_str ::
  "(string \<Rightarrow> socket_addr option) \<Rightarrow> string \<Rightarrow> address_error + address" where
  "address_from_str parse_socket_addr s =
     (case parse_socket_addr s of
        Some addr \<Rightarrow> Inr (SocketAddress addr)
      | None \<Rightarrow>
          (case split_colon s of
             dn # port # _ \<Rightarrow>
               (case parse_u16 port of
                  Some port \<Rightarrow> Inr (DomainNameAddress dn port)
                | None \<Rightarrow> Inl (AddressError s))
           | [dn] \<Rightarrow> Inr (DomainNameAddress dn 80)
           | [] \<Rightarrow> Inl (AddressError s)))"

definition address_display :: "(socket_addr \<Rightarrow> string) \<Rightarrow> address \<Rightarrow> string" where
  "address_display show_socket_addr a =
     (case a of
        SocketAddress addr \<Rightarrow> show_socket_addr addr
      | DomainNameAddress addr port \<Rightarrow> addr @ '':'' @ show_dec (unat port))"

definition address_of_sock :: "socket_addr \<Rightarrow> address" where
  "address_of_sock s = SocketAddress s"

definition address_of_pair :: "string \<times> u16 \<Rightarrow> address" where
  "address_of_pair p = (case p of (dn, port) \<Rightarrow> DomainNameAddress dn port)"

text \<open>Resolution: a socket address is itself, a name goes to the resolver, a parameter.\<close>

definition to_socket_addrs ::
  "(string \<Rightarrow> u16 \<Rightarrow> socket_addr list res) \<Rightarrow> address \<Rightarrow> socket_addr list res" where
  "to_socket_addrs resolve a =
     (case a of
        SocketAddress addr \<Rightarrow> Ok [addr]
      | DomainNameAddress addr port \<Rightarrow> resolve addr port)"

text \<open>What follows the first at sign.\<close>

fun after_at :: "string \<Rightarrow> string option" where
  "after_at [] = None"
| "after_at (c # cs) = (if c = CHR ''@'' then Some cs else after_at cs)"

section \<open>Printing and parsing\<close>

lemma split_colon_not_Nil [simp]: "split_colon s \<noteq> []"
  by (induction s) (auto split: list.splits)

lemma split_colon_piece:
  "CHR '':'' \<notin> set p \<Longrightarrow> split_colon (p @ CHR '':'' # s) = p # split_colon s"
  by (induction p) auto

lemma split_colon_whole: "CHR '':'' \<notin> set p \<Longrightarrow> split_colon p = [p]"
  by (induction p) auto

lemma show_dec_char: "n < 10 \<Longrightarrow> is_digit (char_of (48 + n)) \<and> digit_value (char_of (48 + n)) = n"
  by (simp add: is_digit_def digit_value_def)

lemma digits_value_snoc: "digits_value (ds @ [c]) = 10 * digits_value ds + digit_value c"
  by (simp add: digits_value_def)

lemma show_dec_digits:
  "show_dec n \<noteq> [] \<and> list_all is_digit (show_dec n) \<and> digits_value (show_dec n) = n"
proof (induction n rule: show_dec.induct)
  case (1 n)
  have d: "is_digit (char_of (48 + n mod 10)) \<and> digit_value (char_of (48 + n mod 10)) = n mod 10"
    by (rule show_dec_char) simp
  show ?case
  proof (cases "n < 10")
    case True
    with d show ?thesis by (simp add: show_dec.simps [of n] digits_value_def)
  next
    case False
    with 1 d show ?thesis by (simp add: show_dec.simps [of n] digits_value_snoc)
  qed
qed

lemma is_digit_not_sign: "is_digit c \<Longrightarrow> c \<noteq> CHR ''+'' \<and> c \<noteq> CHR '':''"
  by (auto simp: is_digit_def)

lemma parse_u16_show: "parse_u16 (show_dec (unat (p :: u16))) = Some p"
proof -
  note d = show_dec_digits [of "unat p"]
  obtain c cs where c: "show_dec (unat p) = c # cs" using d by (cases "show_dec (unat p)") auto
  then have "c \<noteq> CHR ''+''" using d is_digit_not_sign by simp
  moreover have "unat p < 65536" using unsigned_less [of p, where 'a = nat] by simp
  ultimately show ?thesis using c d by (simp add: parse_u16_def)
qed

lemma show_dec_no_colon: "CHR '':'' \<notin> set (show_dec n)"
  using show_dec_digits [of n] is_digit_not_sign by (auto simp: list_all_iff)

lemma address_from_str_display:
  assumes "CHR '':'' \<notin> set dn" "parse_socket_addr (dn @ '':'' @ show_dec (unat port)) = None"
  shows "address_from_str parse_socket_addr (address_display show_socket_addr (DomainNameAddress dn port)) =
    Inr (DomainNameAddress dn port)"
  using assms split_colon_piece [OF assms(1)] split_colon_whole [OF show_dec_no_colon]
  by (simp add: address_from_str_def address_display_def parse_u16_show)

end
