(* ===== verification/Config_Deserialize.thy ===== *)
theory Config_Deserialize
  imports Config_Types Address_Text
begin

text \<open>
  \<open>src/config/deserialize.rs\<close>: the field parsers of the configuration. A parser is modelled on the
  string it gets from \<open>serde\<close>; its errors carry the message of \<open>Error::custom\<close>. The \<open>http\<close> crate's
  URI parser and builder are parameters.
\<close>

section \<open>Enumerations and defaults\<close>

definition from_str_to_cipher_kind :: "string \<Rightarrow> string + cipher_kind" where
  "from_str_to_cipher_kind method =
     (if method = ''none'' \<or> method = ''plain'' then Inr CK_None
      else if method = ''aes-128-gcm'' then Inr Aes128Gcm
      else if method = ''aes-256-gcm'' then Inr Aes256Gcm
      else if method = ''chacha20-ietf-poly1305'' \<or> method = ''chacha20-poly1305''
      then Inr ChaCha20Poly1305
      else Inl ''wrong ss encryption method'')"

text \<open>\<open>has_aes\<close> says whether the target is \<open>x86_64\<close> or \<open>aarch64\<close>.\<close>

definition from_str_to_security_num :: "bool \<Rightarrow> string \<Rightarrow> string + u8" where
  "from_str_to_security_num has_aes security =
     (if security = ''aes-128-gcm'' then Inr 0x03
      else if security = ''chacha20-poly1305'' then Inr 0x04
      else if security = ''none'' \<or> security = ''zero''
      then Inl (''not support vmess security type:'' @ security)
      else if security = ''auto'' then Inr (if has_aes then 0x03 else 0x04)
      else Inl (''unknown vmess security type '' @ security))"

definition from_str_to_grpc_path :: "string \<Rightarrow> string" where
  "from_str_to_grpc_path service_name = ''/'' @ service_name @ ''/Tun''"

definition default_grpc_path :: string where "default_grpc_path = ''/GunService/Tun''"
definition default_relay_buffer_size :: nat where "default_relay_buffer_size = 20"
definition default_backlog :: u32 where "default_backlog = 4096"
definition default_true :: bool where "default_true = True"
definition default_http2_method :: string where "default_http2_method = ''PUT''"

section \<open>Server names\<close>

definition char_in :: "nat \<Rightarrow> nat \<Rightarrow> u8 \<Rightarrow> bool" where
  "char_in lo hi b \<longleftrightarrow> lo \<le> unat b \<and> unat b \<le> hi"

definition MAX_LABEL_LENGTH :: nat where "MAX_LABEL_LENGTH = 63"

text \<open>The scan of \<open>is_valid_dns_id\<close> over the bytes of the name, one byte at a time.\<close>

fun dns_scan :: "bytes \<Rightarrow> nat \<Rightarrow> bool \<Rightarrow> bool \<Rightarrow> bool" where
  "dns_scan [] label_length label_is_all_numeric label_ends_with_hyphen = False"
| "dns_scan (b # input) label_length label_is_all_numeric label_ends_with_hyphen =
     (let continue = (\<lambda>len num hyph.
            if input = [] then \<not> hyph \<and> \<not> num else dns_scan input len num hyph)
      in if unat b = 45 then
           (if label_length = 0 then False
            else if label_length + 1 > MAX_LABEL_LENGTH then False
            else continue (label_length + 1) False True)
         else if char_in 48 57 b then
           (if label_length + 1 > MAX_LABEL_LENGTH then False
            else continue (label_length + 1) (if label_length = 0 then True else label_is_all_numeric)
                   False)
         else if char_in 97 122 b \<or> char_in 65 90 b \<or> unat b = 95 then
           (if label_length + 1 > MAX_LABEL_LENGTH then False
            else continue (label_length + 1) False False)
         else if unat b = 46 then
           (if label_length = 0 then False
            else if label_ends_with_hyphen then False
            else continue 0 label_is_all_numeric label_ends_with_hyphen)
         else False)"

definition is_valid_dns_id :: "bytes \<Rightarrow> bool" where
  "is_valid_dns_id hostname = (if length hostname > 253 then False else dns_scan hostname 0 False False)"

definition from_str_to_sni :: "string \<Rightarrow> string + string" where
  "from_str_to_sni sni =
     (if is_valid_dns_id (as_bytes sni) then Inr sni else Inl ''Not a valid sni string'')"

text \<open>The specification: labels separated by dots, with at most one dot at the end.\<close>

definition digit :: "u8 \<Rightarrow> bool" where
  "digit b \<longleftrightarrow> char_in 48 57 b"

definition letter :: "u8 \<Rightarrow> bool" where
  "letter b \<longleftrightarrow> char_in 97 122 b \<or> char_in 65 90 b \<or> unat b = 95"

definition hyphen :: "u8 \<Rightarrow> bool" where
  "hyphen b \<longleftrightarrow> unat b = 45"

definition dns_label :: "bytes \<Rightarrow> bool" where
  "dns_label l \<longleftrightarrow> l \<noteq> [] \<and> length l \<le> 63 \<and> (\<forall>b \<in> set l. digit b \<or> letter b \<or> hyphen b) \<and>
     \<not> hyphen (hd l) \<and> \<not> hyphen (last l)"

fun split_dots :: "bytes \<Rightarrow> bytes list" where
  "split_dots [] = [[]]"
| "split_dots (b # bs) =
     (if unat b = 46 then [] # split_dots bs
      else case split_dots bs of l # ls \<Rightarrow> (b # l) # ls | [] \<Rightarrow> [[b]])"

definition strip_root :: "bytes list \<Rightarrow> bytes list" where
  "strip_root ls = (if ls \<noteq> [] \<and> last ls = [] then butlast ls else ls)"

definition dns_name :: "bytes \<Rightarrow> bool" where
  "dns_name s \<longleftrightarrow> length s \<le> 253 \<and>
     (let ls = strip_root (split_dots s)
      in ls \<noteq> [] \<and> (\<forall>l \<in> set ls. dns_label l) \<and> \<not> (\<forall>b \<in> set (last ls). digit b))"

text \<open>The scanner inside a label: what has been read of it, and what follows.\<close>

lemma split_dots_nonempty [simp]: "split_dots bs \<noteq> []"
  by (cases bs) (auto split: list.splits)

fun labels_ok :: "bytes \<Rightarrow> bytes list \<Rightarrow> bool" where
  "labels_ok prev [] \<longleftrightarrow> prev \<noteq> [] \<and> \<not> (\<forall>b \<in> set prev. digit b)"
| "labels_ok prev [l] \<longleftrightarrow>
     (if l = [] then prev \<noteq> [] \<and> \<not> (\<forall>b \<in> set prev. digit b)
      else dns_label l \<and> \<not> (\<forall>b \<in> set l. digit b))"
| "labels_ok prev (l # ls) \<longleftrightarrow> dns_label l \<and> labels_ok l ls"

lemma labels_ok_strip:
  "ls \<noteq> [] \<Longrightarrow> labels_ok [] ls \<longleftrightarrow>
     strip_root ls \<noteq> [] \<and> (\<forall>l \<in> set (strip_root ls). dns_label l) \<and>
     \<not> (\<forall>b \<in> set (last (strip_root ls)). digit b)"
proof -
  have gen: "labels_ok prev ls \<longleftrightarrow>
     (if strip_root ls = [] then prev \<noteq> [] \<and> \<not> (\<forall>b \<in> set prev. digit b)
      else (\<forall>l \<in> set (strip_root ls). dns_label l) \<and>
        \<not> (\<forall>b \<in> set (last (strip_root ls)). digit b))" if "ls \<noteq> []" for prev ls
    using that
  proof (induction prev ls rule: labels_ok.induct)
    case (3 prev l l' ls)
    then show ?case by (auto simp: strip_root_def)
  qed (auto simp: strip_root_def)
  assume "ls \<noteq> []"
  from gen [OF this, of "[]"] show ?thesis by auto
qed

definition scan_state :: "bytes \<Rightarrow> bytes \<Rightarrow> bool \<Rightarrow> bool \<Rightarrow> bool" where
  "scan_state prev p num hyph \<longleftrightarrow>
     length p \<le> 63 \<and> (\<forall>b \<in> set p. digit b \<or> letter b \<or> hyphen b) \<and> (p \<noteq> [] \<longrightarrow> \<not> hyphen (hd p)) \<and>
     num = (if p = [] then prev \<noteq> [] \<and> (\<forall>b \<in> set prev. digit b) else (\<forall>b \<in> set p. digit b)) \<and>
     hyph = (p \<noteq> [] \<and> hyphen (last p))"

lemma labels_ok_first: "l \<noteq> [] \<Longrightarrow> labels_ok prev (l # ls) \<Longrightarrow> dns_label l"
  by (cases ls) auto

lemma labels_ok_Cons: "ls \<noteq> [] \<Longrightarrow> labels_ok prev (l # ls) \<longleftrightarrow> dns_label l \<and> labels_ok l ls"
  by (cases ls) auto

lemma char_classes:
  "hyphen b \<Longrightarrow> \<not> digit b \<and> \<not> letter b \<and> unat b \<noteq> 46"
  "digit b \<Longrightarrow> \<not> hyphen b \<and> unat b \<noteq> 46"
  "letter b \<Longrightarrow> \<not> hyphen b \<and> \<not> digit b \<and> unat b \<noteq> 46"
  by (auto simp: hyphen_def digit_def letter_def char_in_def)

lemma dns_scan_Cons:
  "dns_scan (b # input) n num hyph \<longleftrightarrow>
     (if hyphen b \<or> digit b \<or> letter b then
        n + 1 \<le> 63 \<and> (hyphen b \<longrightarrow> n \<noteq> 0) \<and>
        (let num' = (digit b \<and> (n = 0 \<or> num)) in
         if input = [] then \<not> hyphen b \<and> \<not> num' else dns_scan input (n + 1) num' (hyphen b))
      else unat b = 46 \<and> n \<noteq> 0 \<and> \<not> hyph \<and>
        (if input = [] then \<not> num else dns_scan input 0 num hyph))"
  by (auto simp: Let_def hyphen_def digit_def letter_def char_in_def MAX_LABEL_LENGTH_def)

declare dns_scan.simps(2) [simp del]

lemma dns_scan_labels:
  "input \<noteq> [] \<Longrightarrow> scan_state prev p num hyph \<Longrightarrow>
     dns_scan input (length p) num hyph \<longleftrightarrow>
       labels_ok prev ((p @ hd (split_dots input)) # tl (split_dots input))"
proof (induction input arbitrary: prev p num hyph)
  case Nil
  then show ?case by simp
next
  case (Cons b input)
  show ?case
  proof (cases "hyphen b \<or> digit b \<or> letter b")
    case True
    then have nd: "unat b \<noteq> 46" using char_classes by blast
    obtain l ls where sp: "split_dots input = l # ls" by (cases "split_dots input") auto
    have sp': "split_dots (b # input) = (b # l) # ls" using nd sp by simp
    let ?p = "p @ [b]"
    show ?thesis
    proof (cases "length p + 1 \<le> 63 \<and> (hyphen b \<longrightarrow> p \<noteq> [])")
      case False
      then have "\<not> dns_label (p @ b # l)" by (auto simp: dns_label_def)
      then have "\<not> labels_ok prev ((p @ b # l) # ls)" using labels_ok_first [of "p @ b # l"] by blast
      with False True sp' show ?thesis by (auto simp: dns_scan_Cons simp del: split_dots.simps)
    next
      case ok: True
      have st: "scan_state prev ?p (digit b \<and> (p = [] \<or> num)) (hyphen b)"
        using Cons.prems(2) ok True by (auto simp: scan_state_def hd_append)
      show ?thesis
      proof (cases "input = []")
        case False
        from Cons.IH [OF False st] sp sp' ok True False show ?thesis
          by (simp add: dns_scan_Cons Let_def del: split_dots.simps)
      next
        case empty: True
        then have "l = []" "ls = []" using sp by auto
        moreover have "dns_label ?p \<longleftrightarrow> \<not> hyphen b"
          using Cons.prems(2) ok True by (auto simp: scan_state_def dns_label_def hd_append)
        moreover have "(\<forall>x \<in> set ?p. digit x) \<longleftrightarrow> digit b \<and> (p = [] \<or> num)"
          using Cons.prems(2) by (auto simp: scan_state_def)
        ultimately show ?thesis
          using sp' ok True empty by (auto simp: dns_scan_Cons Let_def simp del: split_dots.simps)
      qed
    qed
  next
    case False
    show ?thesis
    proof (cases "unat b = 46")
      case False
      obtain l ls where sp: "split_dots input = l # ls" by (cases "split_dots input") auto
      have "\<not> dns_label (p @ b # l)"
        using \<open>\<not> (hyphen b \<or> digit b \<or> letter b)\<close> by (auto simp: dns_label_def)
      then have "\<not> labels_ok prev ((p @ b # l) # ls)" using labels_ok_first [of "p @ b # l"] by blast
      with False sp \<open>\<not> (hyphen b \<or> digit b \<or> letter b)\<close> show ?thesis by (simp add: dns_scan_Cons)
    next
      case True
      then have sp: "split_dots (b # input) = [] # split_dots input" by simp
      have lab: "dns_label p \<longleftrightarrow> p \<noteq> [] \<and> \<not> hyph"
        using Cons.prems(2) by (auto simp: scan_state_def dns_label_def)
      have num: "p \<noteq> [] \<Longrightarrow> num \<longleftrightarrow> (\<forall>x \<in> set p. digit x)"
        using Cons.prems(2) by (simp add: scan_state_def)
      show ?thesis
      proof (cases "input = []")
        case empty: True
        with True False lab num sp show ?thesis by (auto simp: dns_scan_Cons)
      next
        case ne: False
        have "scan_state p [] num hyph" if "p \<noteq> []" "\<not> hyph"
          using that num by (auto simp: scan_state_def)
        with Cons.IH [OF ne, of p "[]" num hyph]
        have "p \<noteq> [] \<Longrightarrow> \<not> hyph \<Longrightarrow> dns_scan input 0 num hyph \<longleftrightarrow> labels_ok p (split_dots input)"
          by simp
        with True False lab sp ne show ?thesis
          by (auto simp: dns_scan_Cons labels_ok_Cons simp del: split_dots.simps)
      qed
    qed
  qed
qed

lemma is_valid_dns_id_iff: "is_valid_dns_id s \<longleftrightarrow> dns_name s"
proof (cases "s = []")
  case True
  then show ?thesis by (simp add: is_valid_dns_id_def dns_name_def strip_root_def)
next
  case False
  have "scan_state [] [] False False" by (simp add: scan_state_def)
  from dns_scan_labels [OF False this]
  have "dns_scan s 0 False False \<longleftrightarrow> labels_ok [] (split_dots s)" by simp
  then show ?thesis
    by (simp add: is_valid_dns_id_def dns_name_def labels_ok_strip Let_def)
qed

section \<open>Early data in a WebSocket URI\<close>

text \<open>\<open>str::parse::<usize>\<close>: decimal digits with an optional plus sign, checked against the width.\<close>

definition is_digit_char :: "char \<Rightarrow> bool" where
  "is_digit_char c \<longleftrightarrow> 48 \<le> (of_char c :: nat) \<and> (of_char c :: nat) \<le> 57"

fun parse_digits :: "nat \<Rightarrow> string \<Rightarrow> string + nat" where
  "parse_digits acc [] = Inr acc"
| "parse_digits acc (c # cs) =
     (if \<not> is_digit_char c then Inl ''invalid digit found in string''
      else let n = acc * 10 + (of_char c - 48)
           in if n < 2 ^ 64 then parse_digits n cs else Inl ''number too large to fit in target type'')"

definition parse_usize :: "string \<Rightarrow> string + nat" where
  "parse_usize s =
     (case s of
        [] \<Rightarrow> Inl ''cannot parse integer from empty string''
      | c # r \<Rightarrow> if c = CHR ''+'' \<and> r \<noteq> [] then parse_digits 0 r else parse_digits 0 s)"

record 'u uri_lib =
  uri_parse :: "string \<Rightarrow> string + 'u"
  uri_query :: "'u \<Rightarrow> string option"
  uri_path :: "'u \<Rightarrow> string"
  uri_with_path_and_query :: "'u \<Rightarrow> string \<Rightarrow> string + 'u"

record 'u early_data =
  e_uri :: 'u
  e_header_name :: string
  e_max :: nat

text \<open>
  The scan for the key \<open>ed\<close> over the characters of the query: where the pair starts and ends, and
  its value. \<open>checks\<close> says whether a negative index is caught by an overflow check.
\<close>

record ed_scan =
  tmp_key :: string
  tmp_value :: string
  read_key :: bool
  found_ed :: bool
  start_idx :: nat
  end_idx :: nat

definition usize_sub3 :: "bool \<Rightarrow> nat \<Rightarrow> nat \<Rightarrow> nat \<Rightarrow> nat res" where
  "usize_sub3 checks a b c =
     (if b + c + 1 \<le> a then Ok (a - b - c - 1)
      else if checks then Panic else Ok (2 ^ 64 + a - b - c - 1))"

fun scan_query :: "bool \<Rightarrow> nat \<Rightarrow> string \<Rightarrow> ed_scan \<Rightarrow> ed_scan res" where
  "scan_query checks idx [] s = Ok s"
| "scan_query checks idx (c # cs) s =
     (if c = CHR ''='' then scan_query checks (Suc idx) cs (s\<lparr>read_key := False\<rparr>)
      else if c = CHR ''&'' then
        (if tmp_key s = ''ed'' then
           map_res (\<lambda>st. s\<lparr>read_key := True, found_ed := True, end_idx := idx, start_idx := st\<rparr>)
             (usize_sub3 checks idx (length (tmp_value s)) (length (tmp_key s)))
         else scan_query checks (Suc idx) cs (s\<lparr>read_key := True, tmp_key := [], tmp_value := []\<rparr>))
      else if read_key s then scan_query checks (Suc idx) cs (s\<lparr>tmp_key := tmp_key s @ [c]\<rparr>)
      else scan_query checks (Suc idx) cs (s\<lparr>tmp_value := tmp_value s @ [c]\<rparr>))"

definition cut_range :: "nat \<Rightarrow> nat \<Rightarrow> string \<Rightarrow> string" where
  "cut_range i j s = map snd (filter (\<lambda>(k, c). \<not> (i \<le> k \<and> k < j)) (enumerate 0 s))"

definition early_data_uri_new :: "'u uri_lib \<Rightarrow> bool \<Rightarrow> string \<Rightarrow> 'u early_data res" where
  "early_data_uri_new U checks uri =
     (case uri_parse U uri of
        Inl e \<Rightarrow> Err (new_error e)
      | Inr ws_uri \<Rightarrow>
          (let plain = Ok \<lparr>e_uri = ws_uri, e_header_name = [], e_max = 0\<rparr> in
           case uri_query U ws_uri of
             None \<Rightarrow> plain
           | Some query \<Rightarrow>
               bind_res (scan_query checks 0 query
                   \<lparr>tmp_key = [], tmp_value = [], read_key = True, found_ed = False,
                    start_idx = 0, end_idx = length query\<rparr>) (\<lambda>s.
               bind_res (if tmp_key s = ''ed'' \<and> \<not> found_ed s
                   then map_res (\<lambda>st. s\<lparr>found_ed := True, start_idx := st\<rparr>)
                     (usize_sub3 checks (end_idx s) (length (tmp_value s)) (length (tmp_key s)))
                   else Ok s) (\<lambda>s.
                 if \<not> found_ed s then plain
                 else case parse_usize (tmp_value s) of
                        Inl e \<Rightarrow> Err (new_error e)
                      | Inr max_early_data \<Rightarrow>
                          if max_early_data = 0
                          then Err (new_error ''read from query max early data is zero.'')
                          else (case uri_with_path_and_query U ws_uri
                                       (uri_path U ws_uri @ ''?'' @
                                        cut_range (start_idx s) (end_idx s) query) of
                                  Inl e \<Rightarrow> Err (new_error e)
                                | Inr uri \<Rightarrow>
                                    Ok \<lparr>e_uri = uri, e_header_name = ''Sec-WebSocket-Protocol'',
                                       e_max = max_early_data\<rparr>)))))"

text \<open>A query of key-value pairs, split at the pair whose key is \<open>ed\<close>.\<close>

definition plain_text :: "string \<Rightarrow> bool" where
  "plain_text s \<longleftrightarrow> CHR ''='' \<notin> set s \<and> CHR ''&'' \<notin> set s"

definition pairs_before :: "(string \<times> string) list \<Rightarrow> string" where
  "pairs_before ps = concat (map (\<lambda>(k, v). k @ ''='' @ v @ ''&'') ps)"

definition pairs_after :: "(string \<times> string) list \<Rightarrow> string" where
  "pairs_after ps = concat (map (\<lambda>(k, v). ''&'' @ k @ ''='' @ v) ps)"

definition plain_pairs :: "(string \<times> string) list \<Rightarrow> bool" where
  "plain_pairs ps \<longleftrightarrow> (\<forall>(k, v) \<in> set ps. plain_text k \<and> plain_text v \<and> k \<noteq> ''ed'')"

lemma scan_query_key:
  "plain_text k \<Longrightarrow> read_key s \<Longrightarrow>
     scan_query checks idx (k @ cs) s = scan_query checks (idx + length k) cs (s\<lparr>tmp_key := tmp_key s @ k\<rparr>)"
  by (induction k arbitrary: idx s) (auto simp: plain_text_def)

lemma scan_query_value:
  "plain_text v \<Longrightarrow> \<not> read_key s \<Longrightarrow>
     scan_query checks idx (v @ cs) s =
       scan_query checks (idx + length v) cs (s\<lparr>tmp_value := tmp_value s @ v\<rparr>)"
  by (induction v arbitrary: idx s) (auto simp: plain_text_def)

lemma scan_query_pair:
  assumes "plain_text k" "plain_text v" "read_key s" "tmp_key s = []" "tmp_value s = []"
  shows "scan_query checks idx (k @ ''='' @ v @ cs) s =
     scan_query checks (idx + length k + 1 + length v) cs
       (s\<lparr>tmp_key := k, tmp_value := v, read_key := False\<rparr>)"
proof -
  have "scan_query checks idx (k @ ''='' @ v @ cs) s =
      scan_query checks (idx + length k) (''='' @ v @ cs) (s\<lparr>tmp_key := k\<rparr>)"
    using scan_query_key [OF assms(1,3)] assms(4) by simp
  also have "\<dots> = scan_query checks (Suc (idx + length k)) (v @ cs) (s\<lparr>tmp_key := k, read_key := False\<rparr>)"
    by simp
  also have "\<dots> = scan_query checks (idx + length k + 1 + length v) cs
       (s\<lparr>tmp_key := k, tmp_value := v, read_key := False\<rparr>)"
    using scan_query_value [OF assms(2), of "s\<lparr>tmp_key := k, read_key := False\<rparr>"] assms(5)
    by (cases s) simp
  finally show ?thesis .
qed

lemma scan_query_before:
  "plain_pairs ps \<Longrightarrow> read_key s \<Longrightarrow> tmp_key s = [] \<Longrightarrow> tmp_value s = [] \<Longrightarrow>
     scan_query checks idx (pairs_before ps @ cs) s = scan_query checks (idx + length (pairs_before ps)) cs s"
proof (induction ps arbitrary: idx)
  case Nil
  then show ?case by (simp add: pairs_before_def)
next
  case (Cons p ps)
  obtain k v where p: "p = (k, v)" by (cases p)
  with Cons.prems(1) have kv: "plain_text k" "plain_text v" "k \<noteq> ''ed''" "plain_pairs ps"
    by (auto simp: plain_pairs_def)
  have s: "s\<lparr>tmp_key := k, tmp_value := v, read_key := False, read_key := True, tmp_key := [],
      tmp_value := []\<rparr> = s" using Cons.prems by simp
  have pb: "pairs_before (p # ps) @ cs = k @ ''='' @ v @ ''&'' @ pairs_before ps @ cs"
    by (simp add: pairs_before_def p)
  have "scan_query checks idx (pairs_before (p # ps) @ cs) s =
      scan_query checks (idx + length k + 1 + length v) (''&'' @ pairs_before ps @ cs)
        (s\<lparr>tmp_key := k, tmp_value := v, read_key := False\<rparr>)"
    unfolding pb by (rule scan_query_pair [OF kv(1,2) Cons.prems(2-4)])
  also have "\<dots> = scan_query checks (Suc (idx + length k + 1 + length v)) (pairs_before ps @ cs) s"
    using kv(3) s by simp
  also have "\<dots> = scan_query checks (Suc (idx + length k + 1 + length v) + length (pairs_before ps)) cs s"
    by (rule Cons.IH [OF kv(4) Cons.prems(2-4)])
  also have "Suc (idx + length k + 1 + length v) + length (pairs_before ps) =
      idx + length (pairs_before (p # ps))"
    by (simp add: pairs_before_def p)
  finally show ?case .
qed

lemma cut_range_middle: "cut_range (length a) (length a + length b) (a @ b @ c) = a @ c"
proof -
  have e: "filter (\<lambda>(k, c). \<not> (i \<le> k \<and> k < j)) (enumerate n xs) = enumerate n xs"
    if "j \<le> n \<or> n + length xs \<le> i" for i j n and xs :: string
    using that by (auto simp: filter_id_conv in_set_enumerate_eq)
  have m: "filter (\<lambda>(k, c). \<not> (i \<le> k \<and> k < j)) (enumerate n xs) = []"
    if "i \<le> n" "n + length xs \<le> j" for i j n and xs :: string
    using that by (auto simp: filter_empty_conv in_set_enumerate_eq)
  let ?P = "\<lambda>(k, c). \<not> (length a \<le> k \<and> k < length a + length b)"
  have "filter ?P (enumerate 0 a) = enumerate 0 a" by (rule e) simp
  moreover have "filter ?P (enumerate (length a) b) = []" by (rule m) simp_all
  moreover have "filter ?P (enumerate (length a + length b) c) = enumerate (length a + length b) c"
    by (rule e) simp
  moreover have "enumerate 0 (a @ b @ c) =
      enumerate 0 a @ enumerate (length a) b @ enumerate (length a + length b) c"
    by (simp add: enumerate_append_eq)
  ultimately show ?thesis
    unfolding cut_range_def by (simp only: filter_append map_append) simp
qed

lemma early_data_uri_new_ed:
  assumes parse: "uri_parse U uri = Inr u"
    and query: "uri_query U u = Some (pairs_before pre @ ''ed='' @ v @ pairs_after post)"
    and plain: "plain_pairs pre" "plain_text v"
    and n: "parse_usize v = Inr n" "0 < n"
    and build: "uri_with_path_and_query U u
      (uri_path U u @ ''?'' @ pairs_before pre @ pairs_after post) = Inr u'"
  shows "early_data_uri_new U checks uri =
    Ok \<lparr>e_uri = u', e_header_name = ''Sec-WebSocket-Protocol'', e_max = n\<rparr>"
proof -
  let ?q = "pairs_before pre @ ''ed='' @ v @ pairs_after post"
  let ?s0 = "\<lparr>tmp_key = [], tmp_value = [], read_key = True, found_ed = False, start_idx = 0,
     end_idx = length ?q\<rparr>"
  let ?i = "length (pairs_before pre)"
  let ?j = "?i + length (''ed='' @ v)"
  have ed: "plain_text ''ed''" by (simp add: plain_text_def)
  have "scan_query checks 0 ?q ?s0 = scan_query checks ?i (''ed'' @ ''='' @ v @ pairs_after post) ?s0"
    using scan_query_before [OF plain(1), of ?s0 checks 0 "''ed='' @ v @ pairs_after post"] by simp
  also have "\<dots> = scan_query checks ?j (pairs_after post)
      (?s0\<lparr>tmp_key := ''ed'', tmp_value := v, read_key := False\<rparr>)"
    using scan_query_pair [OF ed plain(2), of ?s0 checks ?i "pairs_after post"] by simp
  finally have scan: "scan_query checks 0 ?q ?s0 = scan_query checks ?j (pairs_after post)
      (?s0\<lparr>tmp_key := ''ed'', tmp_value := v, read_key := False\<rparr>)" .
  have sub: "usize_sub3 checks ?j (length v) (length ''ed'') = Ok ?i"
    by (simp add: usize_sub3_def)
  have cut: "cut_range ?i ?j ?q = pairs_before pre @ pairs_after post"
    using cut_range_middle [of "pairs_before pre" "''ed='' @ v" "pairs_after post"] by simp
  show ?thesis
  proof (cases "pairs_after post")
    case Nil
    then have "end_idx ?s0 = ?j" by simp
    with scan sub cut parse query n build Nil show ?thesis
      by (simp add: early_data_uri_new_def Let_def)
  next
    case (Cons c cs)
    then have c: "c = CHR ''&''" by (cases post) (auto simp: pairs_after_def)
    with scan sub cut parse query n build Cons show ?thesis
      by (simp add: early_data_uri_new_def Let_def)
  qed
qed

section \<open>Addresses, URIs and the files of the rules\<close>

definition from_str_to_address :: "(string \<Rightarrow> socket_addr option) \<Rightarrow> string \<Rightarrow> string + address" where
  "from_str_to_address parse_socket_addr addr =
     (case address_from_str parse_socket_addr addr of
        Inl (AddressError m) \<Rightarrow> Inl m
      | Inr a \<Rightarrow> Inr a)"

definition from_str_to_option_address ::
  "(string \<Rightarrow> socket_addr option) \<Rightarrow> string \<Rightarrow> string + address option" where
  "from_str_to_option_address parse_socket_addr addr =
     map_sum id Some (from_str_to_address parse_socket_addr addr)"

definition from_str_to_ws_uri :: "'u uri_lib \<Rightarrow> bool \<Rightarrow> string \<Rightarrow> 'u early_data res" where
  "from_str_to_ws_uri U checks uri = early_data_uri_new U checks uri"

text \<open>
  The geosite and geoip files lie in the directory that the environment names, the first of two
  variables that is set, or else beside the executable. \<open>current_exe\<close> is its path by components,
  none when it is unknown.
\<close>

definition default_v2ray_asset_path ::
  "(string \<Rightarrow> string list option) \<Rightarrow> string list option \<Rightarrow> string \<Rightarrow> string list" where
  "default_v2ray_asset_path env_var current_exe file_name =
     (let prefix =
        (case env_var ''v2ray.location.asset'' of
           Some path \<Rightarrow> path
         | None \<Rightarrow>
             (case env_var ''V2RAY_LOCATION_ASSET'' of
                Some path \<Rightarrow> path
              | None \<Rightarrow> butlast (case current_exe of Some path \<Rightarrow> path | None \<Rightarrow> [])))
      in prefix @ [file_name])"

definition default_v2ray_geosite_path :: "(string \<Rightarrow> string list option) \<Rightarrow> string list option \<Rightarrow> string list" where
  "default_v2ray_geosite_path env_var current_exe = default_v2ray_asset_path env_var current_exe ''geosite.dat''"

definition default_v2ray_geoip_path :: "(string \<Rightarrow> string list option) \<Rightarrow> string list option \<Rightarrow> string list" where
  "default_v2ray_geoip_path env_var current_exe = default_v2ray_asset_path env_var current_exe ''geoip.dat''"

end
