(* ===== verification/Relay.thy ===== *)
theory Relay
  imports Async_Io
begin

text \<open>
  \<open>src/common/net/copy_with_capacity.rs\<close> and the relays of \<open>src/common/net/mod.rs\<close>: the copy
  future that moves bytes from a reader to a writer through a fixed buffer, its variant with shared
  atomic counters, and the bidirectional relay that runs one copy in each direction until the first
  of them ends. The byte counters are \<open>u64\<close> and wrap.
\<close>

section \<open>The copy future\<close>

record copy =
  c_reader :: reader
  c_read_done :: bool
  c_writer :: writer
  c_pos :: nat
  c_cap :: nat
  c_amt :: u64
  c_buf :: bytes

definition copy_with_capacity_and_counter :: "reader \<Rightarrow> writer \<Rightarrow> u64 \<Rightarrow> nat \<Rightarrow> copy" where
  "copy_with_capacity_and_counter reader writer counter buf_capacity =
     \<lparr>c_reader = reader, c_read_done = False, c_writer = writer, c_pos = 0, c_cap = 0,
      c_amt = counter, c_buf = replicate buf_capacity 0\<rparr>"

definition copy_fill :: "copy \<Rightarrow> unit poll \<times> copy" where
  "copy_fill c =
     (if c_pos c = c_cap c \<and> \<not> c_read_done c then
        (case poll_read (length (c_buf c)) (c_reader c) of
           (Ready (Ok bs), r) \<Rightarrow>
             (Ready (Ok ()),
              if length bs = 0 then c\<lparr>c_reader := r, c_read_done := True\<rparr>
              else c\<lparr>c_reader := r, c_buf := bs @ drop (length bs) (c_buf c),
                     c_pos := 0, c_cap := length bs\<rparr>)
         | (Ready (Err e), r) \<Rightarrow> (Ready (Err e), c\<lparr>c_reader := r\<rparr>)
         | (Ready Panic, r) \<Rightarrow> (Ready Panic, c\<lparr>c_reader := r\<rparr>)
         | (Pending, r) \<Rightarrow> (Pending, c\<lparr>c_reader := r\<rparr>))
      else (Ready (Ok ()), c))"

definition sub_slice :: "'a list \<Rightarrow> nat \<Rightarrow> nat \<Rightarrow> 'a list res" where
  "sub_slice xs i j = (if i \<le> j \<and> j \<le> length xs then Ok (take (j - i) (drop i xs)) else Panic)"

definition write_zero :: io_error where
  "write_zero = IoError WriteZero ''write zero byte into writer''"

function copy_drain :: "copy \<Rightarrow> unit poll \<times> copy" where
  "copy_drain c =
     (if c_pos c < c_cap c then
        (case sub_slice (c_buf c) (c_pos c) (c_cap c) of
           Ok out \<Rightarrow>
             (case poll_write out (c_writer c) of
                (Ready (Ok i), w) \<Rightarrow>
                  if i = 0 then (Ready (Err write_zero), c\<lparr>c_writer := w\<rparr>)
                  else copy_drain
                         (c\<lparr>c_writer := w, c_pos := c_pos c + i, c_amt := c_amt c + of_nat i\<rparr>)
              | (Ready (Err e), w) \<Rightarrow> (Ready (Err e), c\<lparr>c_writer := w\<rparr>)
              | (Ready Panic, w) \<Rightarrow> (Ready Panic, c\<lparr>c_writer := w\<rparr>)
              | (Pending, w) \<Rightarrow> (Pending, c\<lparr>c_writer := w\<rparr>))
         | _ \<Rightarrow> (Ready Panic, c))
      else (Ready (Ok ()), c))"
  by pat_completeness auto
termination
  by (relation "measure (\<lambda>c. c_cap c - c_pos c)") auto

declare copy_drain.simps [simp del]

definition copy_flush :: "copy \<Rightarrow> u64 poll \<times> copy" where
  "copy_flush c =
     (case poll_flush (c_writer c) of
        (Ready (Ok u), w) \<Rightarrow> (Ready (Ok (c_amt c)), c\<lparr>c_writer := w\<rparr>)
      | (Ready (Err e), w) \<Rightarrow> (Ready (Err e), c\<lparr>c_writer := w\<rparr>)
      | (Ready Panic, w) \<Rightarrow> (Ready Panic, c\<lparr>c_writer := w\<rparr>)
      | (Pending, w) \<Rightarrow> (Pending, c\<lparr>c_writer := w\<rparr>))"

text \<open>The loop of \<open>poll\<close>; a state with \<open>pos > cap\<close> would spin forever (\<open>None\<close>).\<close>

partial_function (option) copy_poll :: "copy \<Rightarrow> (u64 poll \<times> copy) option" where
  "copy_poll c =
     (case copy_fill c of
        (Ready (Ok u), c1) \<Rightarrow>
          (case copy_drain c1 of
             (Ready (Ok u), c2) \<Rightarrow>
               if c_pos c2 = c_cap c2 \<and> c_read_done c2 then Some (copy_flush c2)
               else copy_poll c2
           | (Ready (Err e), c2) \<Rightarrow> Some (Ready (Err e), c2)
           | (Ready Panic, c2) \<Rightarrow> Some (Ready Panic, c2)
           | (Pending, c2) \<Rightarrow> Some (Pending, c2))
      | (Ready (Err e), c1) \<Rightarrow> Some (Ready (Err e), c1)
      | (Ready Panic, c1) \<Rightarrow> Some (Ready Panic, c1)
      | (Pending, c1) \<Rightarrow> Some (Pending, c1))"

section \<open>The variant with atomic counters\<close>

record acopy =
  a_reader :: reader
  a_read_done :: bool
  a_writer :: writer
  a_pos :: nat
  a_cap :: nat
  amt_in :: u64
  amt_out :: u64
  a_buf :: bytes

definition copy_with_capacity_and_atomic_counter ::
  "reader \<Rightarrow> writer \<Rightarrow> u64 \<Rightarrow> u64 \<Rightarrow> nat \<Rightarrow> acopy" where
  "copy_with_capacity_and_atomic_counter reader writer counter_in counter_out buf_capacity =
     \<lparr>a_reader = reader, a_read_done = False, a_writer = writer, a_pos = 0, a_cap = 0,
      amt_in = counter_in, amt_out = counter_out, a_buf = replicate buf_capacity 0\<rparr>"

definition acopy_fill :: "acopy \<Rightarrow> unit poll \<times> acopy" where
  "acopy_fill c =
     (if a_pos c = a_cap c \<and> \<not> a_read_done c then
        (case poll_read (length (a_buf c)) (a_reader c) of
           (Ready (Ok bs), r) \<Rightarrow>
             (let n = length bs; c = c\<lparr>a_reader := r, amt_in := amt_in c + of_nat n\<rparr>
              in (Ready (Ok ()),
                  if n = 0 then c\<lparr>a_read_done := True\<rparr>
                  else c\<lparr>a_buf := bs @ drop n (a_buf c), a_pos := 0, a_cap := n\<rparr>))
         | (Ready (Err e), r) \<Rightarrow> (Ready (Err e), c\<lparr>a_reader := r\<rparr>)
         | (Ready Panic, r) \<Rightarrow> (Ready Panic, c\<lparr>a_reader := r\<rparr>)
         | (Pending, r) \<Rightarrow> (Pending, c\<lparr>a_reader := r\<rparr>))
      else (Ready (Ok ()), c))"

function acopy_drain :: "acopy \<Rightarrow> unit poll \<times> acopy" where
  "acopy_drain c =
     (if a_pos c < a_cap c then
        (case sub_slice (a_buf c) (a_pos c) (a_cap c) of
           Ok out \<Rightarrow>
             (case poll_write out (a_writer c) of
                (Ready (Ok i), w) \<Rightarrow>
                  if i = 0 then (Ready (Err write_zero), c\<lparr>a_writer := w\<rparr>)
                  else acopy_drain
                         (c\<lparr>a_writer := w, a_pos := a_pos c + i, amt_out := amt_out c + of_nat i\<rparr>)
              | (Ready (Err e), w) \<Rightarrow> (Ready (Err e), c\<lparr>a_writer := w\<rparr>)
              | (Ready Panic, w) \<Rightarrow> (Ready Panic, c\<lparr>a_writer := w\<rparr>)
              | (Pending, w) \<Rightarrow> (Pending, c\<lparr>a_writer := w\<rparr>))
         | _ \<Rightarrow> (Ready Panic, c))
      else (Ready (Ok ()), c))"
  by pat_completeness auto
termination
  by (relation "measure (\<lambda>c. a_cap c - a_pos c)") auto

declare acopy_drain.simps [simp del]

definition acopy_flush :: "acopy \<Rightarrow> unit poll \<times> acopy" where
  "acopy_flush c =
     (case poll_flush (a_writer c) of (p, w) \<Rightarrow> (p, c\<lparr>a_writer := w\<rparr>))"

partial_function (option) acopy_poll :: "acopy \<Rightarrow> (unit poll \<times> acopy) option" where
  "acopy_poll c =
     (case acopy_fill c of
        (Ready (Ok u), c1) \<Rightarrow>
          (case acopy_drain c1 of
             (Ready (Ok u), c2) \<Rightarrow>
               if a_pos c2 = a_cap c2 \<and> a_read_done c2 then Some (acopy_flush c2)
               else acopy_poll c2
           | (Ready (Err e), c2) \<Rightarrow> Some (Ready (Err e), c2)
           | (Ready Panic, c2) \<Rightarrow> Some (Ready Panic, c2)
           | (Pending, c2) \<Rightarrow> Some (Pending, c2))
      | (Ready (Err e), c1) \<Rightarrow> Some (Ready (Err e), c1)
      | (Ready Panic, c1) \<Rightarrow> Some (Ready Panic, c1)
      | (Pending, c1) \<Rightarrow> Some (Pending, c1))"

section \<open>Invariant and data integrity\<close>

definition copy_ok :: "copy \<Rightarrow> bool" where
  "copy_ok c \<longleftrightarrow> c_pos c \<le> c_cap c \<and> c_cap c \<le> length (c_buf c)"

definition in_flight :: "copy \<Rightarrow> bytes" where
  "in_flight c = take (c_cap c - c_pos c) (drop (c_pos c) (c_buf c))"

text \<open>What the writer has received, what the buffer holds, what the reader has still to deliver.\<close>

definition copy_total :: "copy \<Rightarrow> bytes" where
  "copy_total c = wr_sent (c_writer c) @ in_flight c @ rx_bytes (c_reader c)"

definition copy_sane :: "copy \<Rightarrow> copy \<Rightarrow> bool" where
  "copy_sane c c' \<longleftrightarrow>
     copy_ok c' \<and> copy_total c' = copy_total c \<and> length (c_buf c') = length (c_buf c) \<and>
     (\<exists>d. wr_sent (c_writer c') = wr_sent (c_writer c) @ d \<and> c_amt c' = c_amt c + of_nat (length d))"

lemma copy_sane_refl: "copy_ok c \<Longrightarrow> copy_sane c c"
  by (auto simp: copy_sane_def intro: exI [of _ "[]"])

lemma copy_sane_trans:
  assumes "copy_sane c c1" "copy_sane c1 c2"
  shows "copy_sane c c2"
proof -
  from assms obtain d1 d2 where
    "wr_sent (c_writer c1) = wr_sent (c_writer c) @ d1" "c_amt c1 = c_amt c + of_nat (length d1)"
    "wr_sent (c_writer c2) = wr_sent (c_writer c1) @ d2" "c_amt c2 = c_amt c1 + of_nat (length d2)"
    by (auto simp: copy_sane_def)
  then have "\<exists>d. wr_sent (c_writer c2) = wr_sent (c_writer c) @ d \<and>
      c_amt c2 = c_amt c + of_nat (length d)"
    by (intro exI [of _ "d1 @ d2"]) simp
  with assms show ?thesis unfolding copy_sane_def by simp
qed

lemma copy_fill_sane:
  assumes "copy_ok c" "copy_fill c = (p, c')"
  shows "copy_sane c c'"
proof -
  show ?thesis
  proof (cases "c_pos c = c_cap c \<and> \<not> c_read_done c")
    case False
    then have "copy_fill c = (Ready (Ok ()), c)" by (simp only: copy_fill_def if_False)
    then have "c' = c" using assms(2) by simp
    with assms(1) show ?thesis by (simp add: copy_sane_refl)
  next
    case True
    obtain q r where q: "poll_read (length (c_buf c)) (c_reader c) = (q, r)" by fastforce
    show ?thesis
    proof (cases "\<exists>bs. q = Ready (Ok bs)")
      case True
      then obtain bs where bs: "q = Ready (Ok bs)" by blast
      with q \<open>c_pos c = c_cap c \<and> \<not> c_read_done c\<close> assms
        poll_read_bytes [of _ _ bs r] poll_read_length [of _ _ bs r]
      show ?thesis
        by (cases "bs = []") (auto simp: copy_fill_def copy_sane_def copy_ok_def copy_total_def in_flight_def)
    next
      case False
      then have "c' = c\<lparr>c_reader := r\<rparr>" using assms(2) q \<open>c_pos c = c_cap c \<and> \<not> c_read_done c\<close>
        by (cases q; cases "case q of Ready x \<Rightarrow> x") (auto simp: copy_fill_def)
      with poll_read_other_bytes [OF q] False assms(1) show ?thesis
        by (simp add: copy_sane_def copy_ok_def copy_total_def in_flight_def)
    qed
  qed
qed

lemma in_flight_drop:
  "drop i (in_flight c) = in_flight (c\<lparr>c_writer := w, c_pos := c_pos c + i, c_amt := a\<rparr>)"
  by (simp add: in_flight_def drop_take add.commute)

lemma copy_drain_sane:
  "copy_ok c \<Longrightarrow> copy_drain c = (p, c') \<Longrightarrow>
     copy_sane c c' \<and> p \<noteq> Ready Panic \<and> c_read_done c' = c_read_done c \<and> c_reader c' = c_reader c \<and>
     (p = Ready (Ok ()) \<longrightarrow> c_pos c' = c_cap c')"
proof (induction c arbitrary: p c' rule: copy_drain.induct)
  case (1 c)
  show ?case
  proof (cases "c_pos c < c_cap c")
    case False
    with "1.prems" show ?thesis by (auto simp: copy_drain.simps [of c] copy_sane_refl copy_ok_def)
  next
    case True
    with "1.prems" have sl: "sub_slice (c_buf c) (c_pos c) (c_cap c) = Ok (in_flight c)"
      by (simp add: sub_slice_def copy_ok_def in_flight_def)
    obtain q w where q: "poll_write (in_flight c) (c_writer c) = (q, w)" by fastforce
    show ?thesis
    proof (cases "\<exists>i. q = Ready (Ok i) \<and> i \<noteq> 0")
      case True
      then obtain i where i: "q = Ready (Ok i)" "i \<noteq> 0" by blast
      let ?c = "c\<lparr>c_writer := w, c_pos := c_pos c + i, c_amt := c_amt c + of_nat i\<rparr>"
      have w: "i \<le> length (in_flight c)" "wr_sent w = wr_sent (c_writer c) @ take i (in_flight c)"
        using poll_write_Ok q i by auto
      have "in_flight c = take i (in_flight c) @ in_flight ?c"
        by (simp flip: in_flight_drop)
      moreover have ok: "copy_ok ?c" using w(1) "1.prems"(1) by (auto simp: copy_ok_def in_flight_def)
      ultimately have "copy_sane c ?c"
        using w by (auto simp: copy_sane_def copy_total_def)
      moreover have "copy_drain c = copy_drain ?c"
        using \<open>c_pos c < c_cap c\<close> sl q i by (simp add: copy_drain.simps [of c])
      moreover have "copy_drain ?c = (p, c') \<Longrightarrow> copy_sane ?c c' \<and> p \<noteq> Ready Panic \<and>
          c_read_done c' = c_read_done ?c \<and> c_reader c' = c_reader ?c \<and>
          (p = Ready (Ok ()) \<longrightarrow> c_pos c' = c_cap c')"
        using "1.IH" [OF \<open>c_pos c < c_cap c\<close> sl q [symmetric] i(1) refl i(2) ok] by blast
      ultimately show ?thesis
        using copy_sane_trans [of c ?c c'] "1.prems"(2) by simp
    next
      case False
      have "q \<noteq> Ready Panic" using q by (auto simp: poll_write_def Let_def split: list.splits write_event.splits)
      with False have c': "c' = c\<lparr>c_writer := w\<rparr>" "p \<noteq> Ready Panic" "p \<noteq> Ready (Ok ())"
        using "1.prems" True sl q
        by (cases q; cases "case q of Ready x \<Rightarrow> x"; auto simp: copy_drain.simps [of c])+
      have "wr_sent w = wr_sent (c_writer c)"
        using False poll_write_Ok [of "in_flight c" "c_writer c" 0 w] poll_write_other [OF q] q by fastforce
      with c' "1.prems"(1) show ?thesis
        by (simp add: copy_sane_def copy_ok_def copy_total_def in_flight_def)
    qed
  qed
qed

section \<open>The loop\<close>

text \<open>The outcome of a poll that ends early, and the rule by which facts pass through the loop.\<close>

fun early :: "unit poll \<Rightarrow> u64 poll" where
  "early (Ready (Ok u)) = Ready Panic"
| "early (Ready (Err e)) = Ready (Err e)"
| "early (Ready Panic) = Ready Panic"
| "early Pending = Pending"

lemma copy_poll_unfold:
  "copy_poll c =
     (case copy_fill c of (p, c1) \<Rightarrow>
        if p \<noteq> Ready (Ok ()) then Some (early p, c1)
        else case copy_drain c1 of (q, c2) \<Rightarrow>
          if q \<noteq> Ready (Ok ()) then Some (early q, c2)
          else if c_pos c2 = c_cap c2 \<and> c_read_done c2 then Some (copy_flush c2)
          else copy_poll c2)"
  by (subst copy_poll.simps) (auto split: prod.splits poll.splits res.splits)

lemma copy_fill_ready:
  assumes "copy_fill c = (Ready (Ok ()), c1)"
  shows "c1 = c \<and> (c_pos c \<noteq> c_cap c \<or> c_read_done c) \<or>
    c_pos c = c_cap c \<and> c_read_done c1 \<and> c_pos c1 = c_pos c \<and> c_cap c1 = c_cap c \<and>
      poll_read (length (c_buf c)) (c_reader c) = (Ready (Ok []), c_reader c1) \<or>
    rx_size (c_reader c1) < rx_size (c_reader c)"
proof (cases "c_pos c = c_cap c \<and> \<not> c_read_done c")
  case False
  then have "copy_fill c = (Ready (Ok ()), c)" by (simp only: copy_fill_def if_False)
  with assms False show ?thesis by simp
next
  case True
  obtain q r where q: "poll_read (length (c_buf c)) (c_reader c) = (q, r)" by fastforce
  with True assms obtain bs where bs: "q = Ready (Ok bs)"
    by (cases q; cases "case q of Ready x \<Rightarrow> x") (auto simp: copy_fill_def)
  with True assms q poll_read_size [of _ _ bs r] show ?thesis
    by (cases "bs = []") (auto simp: copy_fill_def)
qed

definition copy_measure :: "copy \<Rightarrow> nat" where
  "copy_measure c = 2 * rx_size (c_reader c) + (if c_pos c < c_cap c then 1 else 0)"

lemma copy_round_measure:
  assumes "copy_ok c" "copy_fill c = (Ready (Ok ()), c1)" "copy_drain c1 = (Ready (Ok ()), c2)"
    and "\<not> (c_pos c2 = c_cap c2 \<and> c_read_done c2)"
  shows "copy_measure c2 < copy_measure c"
proof -
  have "copy_ok c1" using copy_fill_sane [OF assms(1,2)] by (simp add: copy_sane_def)
  from copy_drain_sane [OF this assms(3)] have d: "c_pos c2 = c_cap c2"
    "c_read_done c2 = c_read_done c1" "c_reader c2 = c_reader c1" by auto
  with copy_fill_ready [OF assms(2)] assms(1,4) show ?thesis
    by (auto simp: copy_measure_def copy_ok_def)
qed

lemma copy_poll_rule:
  assumes "copy_ok c" "Q c"
    and fill: "\<And>c p c'. copy_ok c \<Longrightarrow> Q c \<Longrightarrow> copy_fill c = (p, c') \<Longrightarrow>
      Q c' \<and> (p \<noteq> Ready (Ok ()) \<longrightarrow> R (early p) c')"
    and drain: "\<And>c p c'. copy_ok c \<Longrightarrow> Q c \<Longrightarrow> copy_drain c = (p, c') \<Longrightarrow>
      Q c' \<and> (p \<noteq> Ready (Ok ()) \<longrightarrow> R (early p) c')"
    and flush: "\<And>c p c'. copy_ok c \<Longrightarrow> Q c \<Longrightarrow> c_pos c = c_cap c \<Longrightarrow> c_read_done c \<Longrightarrow>
      copy_flush c = (p, c') \<Longrightarrow> R p c'"
  shows "\<exists>p c'. copy_poll c = Some (p, c') \<and> R p c'"
  using assms(1,2)
proof (induction c rule: measure_induct_rule [where f = copy_measure])
  case (less c)
  obtain p c1 where f: "copy_fill c = (p, c1)" by fastforce
  have q1: "copy_ok c1" "Q c1" using copy_fill_sane [OF less.prems(1) f] fill [OF less.prems f]
    by (auto simp: copy_sane_def)
  show ?case
  proof (cases "p = Ready (Ok ())")
    case False
    with f fill [OF less.prems f] show ?thesis by (subst copy_poll_unfold) simp
  next
    case p: True
    obtain q c2 where d: "copy_drain c1 = (q, c2)" by fastforce
    have q2: "copy_ok c2" "Q c2" using copy_drain_sane [OF q1(1) d] drain [OF q1 d]
      by (auto simp: copy_sane_def)
    show ?thesis
    proof (cases "q = Ready (Ok ())")
      case False
      with p f d drain [OF q1 d] show ?thesis by (subst copy_poll_unfold) simp
    next
      case q: True
      show ?thesis
      proof (cases "c_pos c2 = c_cap c2 \<and> c_read_done c2")
        case True
        with p q f d flush [OF q2] show ?thesis
          by (subst copy_poll_unfold) (cases "copy_flush c2", simp)
      next
        case False
        with less.IH [OF copy_round_measure [OF less.prems(1)] q2] p q f d show ?thesis
          by (subst copy_poll_unfold) auto
      qed
    qed
  qed
qed

lemma copy_flush_sent:
  assumes "copy_flush c = (p, c')"
  shows "\<exists>w. c' = c\<lparr>c_writer := w\<rparr> \<and> wr_sent w = wr_sent (c_writer c) \<and>
    (\<forall>n. p = Ready (Ok n) \<longrightarrow> n = c_amt c \<and> wr_flushed w = length (wr_sent w))"
  using assms poll_flush_sent [of "c_writer c"] poll_flush_Ok [of "c_writer c"]
  by (auto simp: copy_flush_def split: prod.splits poll.splits res.splits)

lemma in_flight_Nil: "c_pos c = c_cap c \<Longrightarrow> in_flight c = []"
  by (simp add: in_flight_def)

lemma copy_poll_correct:
  assumes "copy_ok c"
  shows "\<exists>p c'. copy_poll c = Some (p, c') \<and> copy_sane c c' \<and>
    (\<forall>n. p = Ready (Ok n) \<longrightarrow> n = c_amt c' \<and> c_read_done c' \<and> in_flight c' = [] \<and>
       wr_flushed (c_writer c') = length (wr_sent (c_writer c')))"
proof (rule copy_poll_rule [where Q = "copy_sane c", OF assms copy_sane_refl [OF assms]])
  fix x p x'
  assume "copy_ok x" "copy_sane c x" "copy_fill x = (p, x')"
  with copy_fill_sane [of x p x'] copy_sane_trans [of c x x'] have "copy_sane c x'" by simp
  then show "copy_sane c x' \<and> (p \<noteq> Ready (Ok ()) \<longrightarrow> copy_sane c x' \<and>
      (\<forall>n. early p = Ready (Ok n) \<longrightarrow> n = c_amt x' \<and> c_read_done x' \<and> in_flight x' = [] \<and>
       wr_flushed (c_writer x') = length (wr_sent (c_writer x'))))"
    by (cases p rule: early.cases) auto
next
  fix x p x'
  assume "copy_ok x" "copy_sane c x" "copy_drain x = (p, x')"
  with copy_drain_sane [of x p x'] copy_sane_trans [of c x x'] have "copy_sane c x'" by simp
  then show "copy_sane c x' \<and> (p \<noteq> Ready (Ok ()) \<longrightarrow> copy_sane c x' \<and>
      (\<forall>n. early p = Ready (Ok n) \<longrightarrow> n = c_amt x' \<and> c_read_done x' \<and> in_flight x' = [] \<and>
       wr_flushed (c_writer x') = length (wr_sent (c_writer x'))))"
    by (cases p rule: early.cases) auto
next
  fix x p x'
  assume x: "copy_ok x" "copy_sane c x" "c_pos x = c_cap x" "c_read_done x" "copy_flush x = (p, x')"
  from copy_flush_sent [OF x(5)] obtain w where w: "x' = x\<lparr>c_writer := w\<rparr>"
      "wr_sent w = wr_sent (c_writer x)"
      "\<forall>n. p = Ready (Ok n) \<longrightarrow> n = c_amt x \<and> wr_flushed w = length (wr_sent w)" by blast
  then have "copy_sane x x'" using x(1)
    by (auto simp: copy_sane_def copy_ok_def copy_total_def in_flight_def intro: exI [of _ "[]"])
  with copy_sane_trans [OF x(2)] w x show "copy_sane c x' \<and>
      (\<forall>n. p = Ready (Ok n) \<longrightarrow> n = c_amt x' \<and> c_read_done x' \<and> in_flight x' = [] \<and>
       wr_flushed (c_writer x') = length (wr_sent (c_writer x')))"
    by (simp add: in_flight_def)
qed

section \<open>A copy that runs to the end\<close>

text \<open>
  The reader reports no error and no empty delivery before its end, and the buffer has room:
  then the end of the stream is seen only once everything has been read.
\<close>

definition copy_fed :: "copy \<Rightarrow> bool" where
  "copy_fed c \<longleftrightarrow> clean (c_reader c) \<and> 0 < length (c_buf c) \<and>
     (c_read_done c \<longrightarrow> rx_bytes (c_reader c) = [])"

definition copy_events :: "copy \<Rightarrow> nat" where
  "copy_events c = rx_size (c_reader c) + length (wr_script (c_writer c)) + length (fl_script (c_writer c))"

definition copy_live :: "nat \<Rightarrow> copy \<Rightarrow> bool" where
  "copy_live n c \<longleftrightarrow> copy_fed c \<and> writer_live (c_writer c) \<and> copy_events c \<le> n"

lemma poll_read_clean_rest:
  "clean r \<Longrightarrow> 0 < n \<Longrightarrow> poll_read n r = (p, r') \<Longrightarrow>
     clean r' \<and> (p = Pending \<and> rx_size r' < rx_size r \<or>
       (\<exists>bs. p = Ready (Ok bs) \<and> (bs = [] \<longrightarrow> rx_bytes r' = [])))"
  by (cases "(n, r)" rule: poll_read.cases) (auto split: if_splits)

lemma copy_fill_live:
  assumes "copy_ok c" "copy_live n c" "copy_fill c = (p, c')"
  shows "copy_live n c' \<and> (p \<noteq> Ready (Ok ()) \<longrightarrow> p = Pending \<and> copy_events c' < n)"
proof (cases "c_pos c = c_cap c \<and> \<not> c_read_done c")
  case False
  then have "copy_fill c = (Ready (Ok ()), c)" by (simp only: copy_fill_def if_False)
  with assms show ?thesis by simp
next
  case True
  obtain q r where q: "poll_read (length (c_buf c)) (c_reader c) = (q, r)" by fastforce
  have le: "rx_size r \<le> rx_size (c_reader c)" using poll_read_size_le [OF q] .
  have c: "clean (c_reader c)" "0 < length (c_buf c)" using assms(2) by (auto simp: copy_live_def copy_fed_def)
  from poll_read_clean_rest [OF c q] show ?thesis
  proof (elim conjE disjE exE)
    assume "clean r" "q = Pending" "rx_size r < rx_size (c_reader c)"
    with True q assms show ?thesis
      by (auto simp: copy_fill_def copy_live_def copy_fed_def copy_events_def)
  next
    fix bs assume bs: "clean r" "q = Ready (Ok bs)" "bs = [] \<longrightarrow> rx_bytes r = []"
    have "length bs \<le> length (c_buf c)" using poll_read_length q bs by simp
    with True q assms bs le show ?thesis
      by (cases "bs = []") (auto simp: copy_fill_def copy_live_def copy_fed_def copy_events_def)
  qed
qed

lemma copy_drain_live:
  "copy_ok c \<Longrightarrow> copy_live n c \<Longrightarrow> copy_drain c = (p, c') \<Longrightarrow>
     copy_live n c' \<and> (p \<noteq> Ready (Ok ()) \<longrightarrow> p = Pending \<and> copy_events c' < n)"
proof (induction c arbitrary: p c' rule: copy_drain.induct)
  case (1 c)
  show ?case
  proof (cases "c_pos c < c_cap c")
    case False
    with "1.prems" show ?thesis by (simp add: copy_drain.simps [of c])
  next
    case True
    with "1.prems" have sl: "sub_slice (c_buf c) (c_pos c) (c_cap c) = Ok (in_flight c)"
      by (simp add: sub_slice_def copy_ok_def in_flight_def)
    obtain q w where q: "poll_write (in_flight c) (c_writer c) = (q, w)" by fastforce
    have ne: "in_flight c \<noteq> []" using True "1.prems"(1) by (auto simp: in_flight_def copy_ok_def)
    have "writer_live (c_writer c)" using "1.prems"(2) by (simp add: copy_live_def)
    note w = poll_write_live [OF this ne q]
    show ?thesis
    proof (cases "\<exists>i. q = Ready (Ok i) \<and> i \<noteq> 0")
      case False
      with w have qp: "q = Pending" "length (wr_script w) < length (wr_script (c_writer c))" by auto
      with True sl q "1.prems"(3) have "p = Pending" "c' = c\<lparr>c_writer := w\<rparr>"
        by (simp_all add: copy_drain.simps [of c])
      with w qp "1.prems"(2) show ?thesis
        by (simp add: copy_live_def copy_fed_def copy_events_def)
    next
      case i: True
      then obtain i where i: "q = Ready (Ok i)" "i \<noteq> 0" by blast
      let ?c = "c\<lparr>c_writer := w, c_pos := c_pos c + i, c_amt := c_amt c + of_nat i\<rparr>"
      have "i \<le> length (in_flight c)" using poll_write_Ok q i by blast
      then have ok: "copy_ok ?c" using "1.prems"(1) by (auto simp: copy_ok_def in_flight_def)
      have lv: "copy_live n ?c"
        using w "1.prems"(2) by (auto simp: copy_live_def copy_fed_def copy_events_def)
      have "copy_drain ?c = (p, c')"
        using True sl q i "1.prems"(3) by (simp add: copy_drain.simps [of c])
      from "1.IH" [OF True sl q [symmetric] i(1) refl i(2) ok lv this] show ?thesis .
    qed
  qed
qed

lemma copy_flush_live:
  assumes "copy_live n c" "copy_flush c = (p, c')"
  shows "copy_live n c' \<and> (p = Pending \<and> copy_events c' < n \<or> p = Ready (Ok (c_amt c')))"
proof -
  obtain q w where q: "poll_flush (c_writer c) = (q, w)" by fastforce
  have "writer_live (c_writer c)" using assms(1) by (simp add: copy_live_def)
  from poll_flush_live [OF this q] assms q show ?thesis
    by (elim conjE disjE) (auto simp: copy_flush_def copy_live_def copy_fed_def copy_events_def)
qed

lemma copy_poll_live:
  assumes "copy_ok c" "copy_live n c"
  shows "\<exists>p c'. copy_poll c = Some (p, c') \<and>
    (copy_live n c' \<and> (p = Pending \<and> copy_events c' < n \<or> p = Ready (Ok (c_amt c')) \<and> copy_fed c'))"
proof (rule copy_poll_rule [where Q = "copy_live n", OF assms])
  fix x p x'
  assume x: "copy_ok x" "copy_live n x" "copy_fill x = (p, x')"
  from copy_fill_live [OF x] show "copy_live n x' \<and> (p \<noteq> Ready (Ok ()) \<longrightarrow>
      copy_live n x' \<and> (early p = Pending \<and> copy_events x' < n \<or>
        early p = Ready (Ok (c_amt x')) \<and> copy_fed x'))" by auto
next
  fix x p x'
  assume x: "copy_ok x" "copy_live n x" "copy_drain x = (p, x')"
  from copy_drain_live [OF x] show "copy_live n x' \<and> (p \<noteq> Ready (Ok ()) \<longrightarrow>
      copy_live n x' \<and> (early p = Pending \<and> copy_events x' < n \<or>
        early p = Ready (Ok (c_amt x')) \<and> copy_fed x'))" by auto
next
  fix x p x'
  assume x: "copy_live n x" "copy_flush x = (p, x')"
  from copy_flush_live [OF x] show "copy_live n x' \<and> (p = Pending \<and> copy_events x' < n \<or>
        p = Ready (Ok (c_amt x')) \<and> copy_fed x')" by (auto simp: copy_live_def)
qed

text \<open>The executor: poll again after each wake-up, at most \<open>k\<close> times.\<close>

fun copy_run :: "nat \<Rightarrow> copy \<Rightarrow> (u64 res \<times> copy) option" where
  "copy_run 0 c = None"
| "copy_run (Suc k) c =
     (case copy_poll c of
        None \<Rightarrow> None
      | Some (Ready r, c') \<Rightarrow> Some (r, c')
      | Some (Pending, c') \<Rightarrow> copy_run k c')"

lemma copy_run_completes:
  "copy_ok c \<Longrightarrow> copy_live k c \<Longrightarrow>
     \<exists>c'. copy_run (Suc k) c = Some (Ok (c_amt c'), c') \<and> copy_sane c c' \<and>
       wr_sent (c_writer c') = copy_total c \<and> wr_flushed (c_writer c') = length (copy_total c)"
proof (induction k arbitrary: c rule: less_induct)
  case (less k)
  from copy_poll_live [OF less.prems] obtain p c1 where p: "copy_poll c = Some (p, c1)"
      "copy_live k c1" "p = Pending \<and> copy_events c1 < k \<or> p = Ready (Ok (c_amt c1)) \<and> copy_fed c1"
    by blast
  from copy_poll_correct [OF less.prems(1)] p(1) have s: "copy_sane c c1"
    "\<And>n. p = Ready (Ok n) \<Longrightarrow> c_read_done c1 \<and> in_flight c1 = [] \<and>
       wr_flushed (c_writer c1) = length (wr_sent (c_writer c1))" by auto
  from p(3) show ?case
  proof (elim disjE conjE)
    assume pend: "p = Pending" "copy_events c1 < k"
    then obtain k' where k': "k = Suc k'" by (cases k) auto
    with pend p(2) have "copy_live k' c1" by (simp add: copy_live_def)
    moreover have "copy_ok c1" using s(1) by (simp add: copy_sane_def)
    ultimately obtain c' where "copy_run (Suc k') c1 = Some (Ok (c_amt c'), c')" "copy_sane c1 c'"
        "wr_sent (c_writer c') = copy_total c1" "wr_flushed (c_writer c') = length (copy_total c1)"
      using less.IH [of k' c1] k' by auto
    with pend p(1) s(1) copy_sane_trans [of c c1 c'] k' show ?thesis
      by (auto simp: copy_sane_def)
  next
    assume "p = Ready (Ok (c_amt c1))" "copy_fed c1"
    with p(1) s show ?thesis
      by (auto simp: copy_sane_def copy_fed_def copy_total_def)
  qed
qed

lemma copy_init:
  "copy_ok (copy_with_capacity_and_counter r w cnt cap)"
  "copy_total (copy_with_capacity_and_counter r w cnt cap) = wr_sent w @ rx_bytes r"
  "clean r \<Longrightarrow> writer_live w \<Longrightarrow> 0 < cap \<Longrightarrow>
     copy_live (rx_size r + length (wr_script w) + length (fl_script w))
       (copy_with_capacity_and_counter r w cnt cap)"
  by (simp_all add: copy_with_capacity_and_counter_def copy_ok_def copy_total_def in_flight_def
      copy_live_def copy_fed_def copy_events_def)

section \<open>No success before the end\<close>

text \<open>
  An empty read is the end of the stream for a reader that never delivers nothing before it. With room
  in the buffer the copy then sees the end only when nothing is left, whatever else the reader and the
  writer do.
\<close>

definition copy_at_end :: "copy \<Rightarrow> bool" where
  "copy_at_end c \<longleftrightarrow> RData [] \<notin> set (c_reader c) \<and> 0 < length (c_buf c) \<and>
     (c_read_done c \<longrightarrow> c_reader c = [])"

lemma poll_read_end:
  "RData [] \<notin> set r \<Longrightarrow> 0 < n \<Longrightarrow> poll_read n r = (p, r') \<Longrightarrow>
     RData [] \<notin> set r' \<and> (p = Ready (Ok []) \<longrightarrow> r' = [])"
  by (cases "(n, r)" rule: poll_read.cases) (auto split: if_splits)

lemma copy_fill_at_end:
  assumes "copy_ok c" "copy_at_end c" "copy_fill c = (p, c')"
  shows "copy_at_end c'"
proof (cases "c_pos c = c_cap c \<and> \<not> c_read_done c")
  case False
  then have "copy_fill c = (Ready (Ok ()), c)" by (simp only: copy_fill_def if_False)
  with assms show ?thesis by simp
next
  case True
  obtain q r where q: "poll_read (length (c_buf c)) (c_reader c) = (q, r)" by fastforce
  from poll_read_end [OF _ _ q] assms(2) have r: "RData [] \<notin> set r" "q = Ready (Ok []) \<Longrightarrow> r = []"
    by (simp_all add: copy_at_end_def)
  have "length (c_buf c') = length (c_buf c)"
    using copy_fill_sane [OF assms(1,3)] by (simp add: copy_sane_def)
  moreover have "c_reader c' = r \<and> (c_read_done c' \<longrightarrow> q = Ready (Ok []))"
    using True q assms(3)
    by (cases q; cases "case q of Ready x \<Rightarrow> x") (auto simp: copy_fill_def split: if_splits)
  ultimately show ?thesis using r assms(2) by (auto simp: copy_at_end_def)
qed

lemma copy_drain_at_end:
  assumes "copy_ok c" "copy_at_end c" "copy_drain c = (p, c')"
  shows "copy_at_end c'"
  using copy_drain_sane [OF assms(1,3)] assms(2) by (auto simp: copy_at_end_def copy_sane_def)

lemma copy_poll_at_end:
  assumes "copy_ok c" "copy_at_end c"
  shows "\<exists>p c'. copy_poll c = Some (p, c') \<and> copy_at_end c'"
proof (rule copy_poll_rule [where Q = copy_at_end, OF assms])
  fix x p x' assume "copy_at_end x" "copy_flush x = (p, x')"
  with copy_flush_sent [of x p x'] show "copy_at_end x'" by (auto simp: copy_at_end_def)
qed (blast intro: copy_fill_at_end copy_drain_at_end)+

lemma copy_run_at_end:
  "copy_run k c = Some (Ok n, c') \<Longrightarrow> copy_ok c \<Longrightarrow> copy_at_end c \<Longrightarrow>
     copy_sane c c' \<and> c_reader c' = [] \<and> in_flight c' = [] \<and> n = c_amt c' \<and>
     wr_flushed (c_writer c') = length (wr_sent (c_writer c'))"
proof (induction k arbitrary: c)
  case (Suc k)
  from copy_poll_correct [OF Suc.prems(2)] obtain p c1 where p: "copy_poll c = Some (p, c1)" "copy_sane c c1"
    "\<And>n. p = Ready (Ok n) \<Longrightarrow> n = c_amt c1 \<and> c_read_done c1 \<and> in_flight c1 = [] \<and>
       wr_flushed (c_writer c1) = length (wr_sent (c_writer c1))" by auto
  from copy_poll_at_end [OF Suc.prems(2,3)] p(1) have e: "copy_at_end c1" by simp
  show ?case
  proof (cases p)
    case (Ready x)
    with Suc.prems(1) p e show ?thesis by (auto simp: copy_at_end_def)
  next
    case Pending
    have "copy_ok c1" using p(2) by (simp add: copy_sane_def)
    from Suc.IH [OF _ this e] Suc.prems(1) p(1) Pending copy_sane_trans [OF p(2)] show ?thesis by auto
  qed
qed simp

text \<open>A buffer without room reads nothing and takes that for the end.\<close>

lemma copy_zero_buffer:
  assumes "poll_flush w = (Ready (Ok ()), w')" "bs \<noteq> []"
  shows "\<exists>c. copy_poll (copy_with_capacity_and_counter (RData bs # r) w cnt 0) = Some (Ready (Ok cnt), c) \<and>
    rx_bytes (c_reader c) = bs @ rx_bytes r \<and> wr_sent (c_writer c) = wr_sent w"
  using assms poll_flush_sent [OF assms(1)]
  by (subst copy_poll.simps)
    (simp add: copy_with_capacity_and_counter_def copy_fill_def copy_drain.simps copy_flush_def)

section \<open>The atomic variant simulates the plain one\<close>

definition erase :: "acopy \<Rightarrow> copy" where
  "erase a = \<lparr>c_reader = a_reader a, c_read_done = a_read_done a, c_writer = a_writer a,
     c_pos = a_pos a, c_cap = a_cap a, c_amt = amt_out a, c_buf = a_buf a\<rparr>"

lemma erase_simps [simp]:
  "c_reader (erase a) = a_reader a" "c_read_done (erase a) = a_read_done a"
  "c_writer (erase a) = a_writer a" "c_pos (erase a) = a_pos a" "c_cap (erase a) = a_cap a"
  "c_amt (erase a) = amt_out a" "c_buf (erase a) = a_buf a"
  by (simp_all add: erase_def)

fun with_amt :: "u64 \<Rightarrow> unit poll \<Rightarrow> u64 poll" where
  "with_amt n (Ready (Ok u)) = Ready (Ok n)"
| "with_amt n (Ready (Err e)) = Ready (Err e)"
| "with_amt n (Ready Panic) = Ready Panic"
| "with_amt n Pending = Pending"

lemma acopy_fill_erase: "copy_fill (erase a) = map_prod id erase (acopy_fill a)"
proof -
  obtain q r where q: "poll_read (length (a_buf a)) (a_reader a) = (q, r)" by fastforce
  show ?thesis
  proof (cases q)
    case Pending
    with q show ?thesis by (simp add: copy_fill_def acopy_fill_def erase_def)
  next
    case (Ready x)
    with q show ?thesis
      by (cases x) (simp_all add: copy_fill_def acopy_fill_def Let_def erase_def)
  qed
qed

lemma acopy_drain_erase: "copy_drain (erase a) = map_prod id erase (acopy_drain a)"
proof (induction a rule: acopy_drain.induct)
  case (1 a)
  show ?case
  proof (cases "a_pos a < a_cap a")
    case False
    then show ?thesis by (simp add: copy_drain.simps [of "erase a"] acopy_drain.simps [of a])
  next
    case True
    show ?thesis
    proof (cases "sub_slice (a_buf a) (a_pos a) (a_cap a)")
      case (Ok out)
      obtain q w where q: "poll_write out (a_writer a) = (q, w)" by fastforce
      let ?f = "\<lambda>i. a\<lparr>a_writer := w, a_pos := a_pos a + i, amt_out := amt_out a + of_nat i\<rparr>"
      have e: "(erase a)\<lparr>c_writer := w, c_pos := a_pos a + i, c_amt := amt_out a + of_nat i\<rparr> =
          erase (?f i)" "(erase a)\<lparr>c_writer := w\<rparr> = erase (a\<lparr>a_writer := w\<rparr>)" for i
        by (simp_all add: erase_def)
      show ?thesis
      proof (cases "\<exists>i. q = Ready (Ok i) \<and> i \<noteq> 0")
        case i: True
        then obtain i where i: "q = Ready (Ok i)" "i \<noteq> 0" by blast
        from "1.IH" [OF True Ok q [symmetric] i(1) refl i(2)] True Ok q i show ?thesis
          by (simp add: copy_drain.simps [of "erase a"] acopy_drain.simps [of a] e(1))
      next
        case False
        with True Ok q show ?thesis
          by (cases q; cases "case q of Ready x \<Rightarrow> x")
            (auto simp: copy_drain.simps [of "erase a"] acopy_drain.simps [of a] e(2))
      qed
    qed (use True in \<open>simp_all add: copy_drain.simps [of "erase a"] acopy_drain.simps [of a]\<close>)
  qed
qed

lemma acopy_flush_erase: "copy_flush (erase a) = map_prod (with_amt (amt_out a)) erase (acopy_flush a)"
proof -
  obtain q w where q: "poll_flush (a_writer a) = (q, w)" by fastforce
  then show ?thesis
    by (cases q; cases "case q of Ready x \<Rightarrow> x")
      (auto simp: copy_flush_def acopy_flush_def erase_def)
qed

lemma acopy_poll_unfold:
  "acopy_poll c =
     (case acopy_fill c of (p, c1) \<Rightarrow>
        if p \<noteq> Ready (Ok ()) then Some (p, c1)
        else case acopy_drain c1 of (q, c2) \<Rightarrow>
          if q \<noteq> Ready (Ok ()) then Some (q, c2)
          else if a_pos c2 = a_cap c2 \<and> a_read_done c2 then Some (acopy_flush c2)
          else acopy_poll c2)"
  by (subst acopy_poll.simps) (auto split: prod.splits poll.splits res.splits)

lemma early_with_amt: "p \<noteq> Ready (Ok ()) \<Longrightarrow> early p = with_amt n p"
  by (cases p rule: early.cases) auto

lemma acopy_poll_erase:
  "copy_ok (erase a) \<Longrightarrow>
     copy_poll (erase a) = map_option (\<lambda>(p, a'). (with_amt (amt_out a') p, erase a')) (acopy_poll a)"
proof (induction a rule: measure_induct_rule [where f = "\<lambda>a. copy_measure (erase a)"])
  case (less a)
  obtain p a1 where f: "acopy_fill a = (p, a1)" by fastforce
  then have f': "copy_fill (erase a) = (p, erase a1)" by (simp add: acopy_fill_erase)
  obtain q a2 where d: "acopy_drain a1 = (q, a2)" by fastforce
  then have d': "copy_drain (erase a1) = (q, erase a2)" by (simp add: acopy_drain_erase)
  have "copy_ok (erase a1)" using copy_fill_sane [OF less.prems f'] by (simp add: copy_sane_def)
  then have ok2: "copy_ok (erase a2)" using copy_drain_sane [OF _ d'] by (simp add: copy_sane_def)
  consider "p \<noteq> Ready (Ok ())" | "p = Ready (Ok ())" "q \<noteq> Ready (Ok ())"
    | "p = Ready (Ok ())" "q = Ready (Ok ())" "a_pos a2 = a_cap a2 \<and> a_read_done a2"
    | "p = Ready (Ok ())" "q = Ready (Ok ())" "\<not> (a_pos a2 = a_cap a2 \<and> a_read_done a2)"
    by blast
  then show ?case
  proof cases
    case 1
    with f f' show ?thesis
      by (subst copy_poll_unfold, subst acopy_poll_unfold) (simp add: early_with_amt [of p "amt_out a1"])
  next
    case 2
    with f f' d d' show ?thesis
      by (subst copy_poll_unfold, subst acopy_poll_unfold) (simp add: early_with_amt [of q "amt_out a2"])
  next
    case 3
    obtain r a3 where r: "acopy_flush a2 = (r, a3)" by fastforce
    then have "amt_out a3 = amt_out a2" by (auto simp: acopy_flush_def split: prod.splits)
    with 3 f f' d d' r show ?thesis
      by (subst copy_poll_unfold, subst acopy_poll_unfold) (simp add: acopy_flush_erase)
  next
    case 4
    then have "copy_measure (erase a2) < copy_measure (erase a)"
      using copy_round_measure [OF less.prems, of "erase a1" "erase a2"] f' d' by simp
    from less.IH [OF this ok2] 4 f f' d d' show ?thesis
      by (subst copy_poll_unfold, subst acopy_poll_unfold) auto
  qed
qed

text \<open>
  The counter of bytes in grows by what is read from the reader, the counter of bytes out by what
  the writer accepts.
\<close>

definition in_balance :: "acopy \<Rightarrow> u64" where
  "in_balance a = amt_in a + of_nat (length (rx_bytes (a_reader a)))"

lemma acopy_fill_balance: "acopy_fill a = (p, a') \<Longrightarrow> in_balance a' = in_balance a"
proof -
  assume a: "acopy_fill a = (p, a')"
  obtain q r where q: "poll_read (length (a_buf a)) (a_reader a) = (q, r)" by fastforce
  show ?thesis
  proof (cases "\<exists>bs. q = Ready (Ok bs)")
    case True
    then obtain bs where "q = Ready (Ok bs)" by blast
    with a q poll_read_bytes [of _ _ bs r] show ?thesis
      by (auto simp: acopy_fill_def in_balance_def Let_def split: if_splits)
  next
    case False
    with a q poll_read_other_bytes [OF q] show ?thesis
      by (cases q; cases "case q of Ready x \<Rightarrow> x")
        (auto simp: acopy_fill_def in_balance_def split: if_splits)
  qed
qed

lemma acopy_drain_balance:
  "acopy_drain a = (p, a') \<Longrightarrow> a_reader a' = a_reader a \<and> amt_in a' = amt_in a"
proof (induction a arbitrary: p a' rule: acopy_drain.induct)
  case (1 a)
  show ?case
  proof (cases "a_pos a < a_cap a \<and> (\<exists>out. sub_slice (a_buf a) (a_pos a) (a_cap a) = Ok out)")
    case False
    with "1.prems" show ?thesis
      by (auto simp: acopy_drain.simps [of a] split: res.splits if_splits)
  next
    case True
    then obtain out where out: "a_pos a < a_cap a" "sub_slice (a_buf a) (a_pos a) (a_cap a) = Ok out"
      by blast
    obtain q w where q: "poll_write out (a_writer a) = (q, w)" by fastforce
    show ?thesis
    proof (cases "\<exists>i. q = Ready (Ok i) \<and> i \<noteq> 0")
      case True
      then obtain i where i: "q = Ready (Ok i)" "i \<noteq> 0" by blast
      with "1.IH" [OF out q [symmetric] i(1) refl i(2)] "1.prems" out q show ?thesis
        by (simp add: acopy_drain.simps [of a])
    next
      case False
      with "1.prems" out q show ?thesis
        by (cases q; cases "case q of Ready x \<Rightarrow> x") (auto simp: acopy_drain.simps [of a])
    qed
  qed
qed

lemma acopy_poll_balance:
  "copy_ok (erase a) \<Longrightarrow> acopy_poll a = Some (p, a') \<Longrightarrow> in_balance a' = in_balance a"
proof (induction a rule: measure_induct_rule [where f = "\<lambda>a. copy_measure (erase a)"])
  case (less a)
  obtain q a1 where f: "acopy_fill a = (q, a1)" by fastforce
  then have f': "copy_fill (erase a) = (q, erase a1)" by (simp add: acopy_fill_erase)
  obtain r a2 where d: "acopy_drain a1 = (r, a2)" by fastforce
  then have d': "copy_drain (erase a1) = (r, erase a2)" by (simp add: acopy_drain_erase)
  have "copy_ok (erase a1)" using copy_fill_sane [OF less.prems(1) f'] by (simp add: copy_sane_def)
  then have ok2: "copy_ok (erase a2)" using copy_drain_sane [OF _ d'] by (simp add: copy_sane_def)
  have b: "in_balance a1 = in_balance a" "in_balance a2 = in_balance a1"
    using acopy_fill_balance [OF f] acopy_drain_balance [OF d] by (auto simp: in_balance_def)
  have fl: "in_balance x' = in_balance x" if "acopy_flush x = (s, x')" for x s x'
    using that by (auto simp: acopy_flush_def in_balance_def split: prod.splits)
  show ?case
  proof (cases "q = Ready (Ok ()) \<and> r = Ready (Ok ()) \<and> \<not> (a_pos a2 = a_cap a2 \<and> a_read_done a2)")
    case False
    with less.prems(2) f d b fl show ?thesis
      by (subst (asm) acopy_poll_unfold) (auto split: if_splits prod.splits)
  next
    case True
    then have "copy_measure (erase a2) < copy_measure (erase a)"
      using copy_round_measure [OF less.prems(1), of "erase a1" "erase a2"] f' d' by simp
    moreover have "acopy_poll a2 = Some (p, a')"
      using True less.prems(2) f d by (subst (asm) acopy_poll_unfold) (auto split: if_splits)
    ultimately show ?thesis using less.IH [OF _ ok2] b by simp
  qed
qed

section \<open>The relay\<close>

definition LW_BUFFER_SIZE :: nat where
  "LW_BUFFER_SIZE = 1024"

text \<open>
  The relay selects between the two directions: whenever the task runs it polls the branches, in an
  order the runtime picks, and it is over as soon as one of them is ready, with whatever result.
  A step is the poll of one branch.
\<close>

record relay_state =
  down :: copy
  up :: copy
  finished :: bool

definition relay :: "reader \<times> writer \<Rightarrow> reader \<times> writer \<Rightarrow> nat \<Rightarrow> relay_state" where
  "relay inbound_stream outbound_stream relay_buffer_size =
     (case (inbound_stream, outbound_stream) of ((inbound_r, inbound_w), (outbound_r, outbound_w)) \<Rightarrow>
        \<lparr>down = copy_with_capacity_and_counter outbound_r inbound_w 0 (LW_BUFFER_SIZE * relay_buffer_size),
         up = copy_with_capacity_and_counter inbound_r outbound_w 0 (LW_BUFFER_SIZE * relay_buffer_size),
         finished = False\<rparr>)"

fun is_ready :: "'a poll \<Rightarrow> bool" where
  "is_ready (Ready r) = True"
| "is_ready Pending = False"

inductive relay_step :: "relay_state \<Rightarrow> relay_state \<Rightarrow> bool" where
  poll_down: "\<not> finished s \<Longrightarrow> copy_poll (down s) = Some (p, c) \<Longrightarrow>
     relay_step s (s\<lparr>down := c, finished := is_ready p\<rparr>)"
| poll_up: "\<not> finished s \<Longrightarrow> copy_poll (up s) = Some (p, c) \<Longrightarrow>
     relay_step s (s\<lparr>up := c, finished := is_ready p\<rparr>)"

inductive_cases relay_stepE: "relay_step s s'"

definition relay_inv :: "relay_state \<Rightarrow> relay_state \<Rightarrow> bool" where
  "relay_inv s0 s \<longleftrightarrow> copy_sane (down s0) (down s) \<and> copy_sane (up s0) (up s)"

lemma relay_step_inv: "relay_step s s' \<Longrightarrow> relay_inv s0 s \<Longrightarrow> relay_inv s0 s'"
proof (erule relay_stepE)
  fix p c assume "relay_inv s0 s" and s': "s' = s\<lparr>down := c, finished := is_ready p\<rparr>"
    and p: "copy_poll (down s) = Some (p, c)"
  then have "copy_ok (down s)" by (simp add: relay_inv_def copy_sane_def)
  from copy_poll_correct [OF this] p have "copy_sane (down s) c" by auto
  with s' \<open>relay_inv s0 s\<close> show ?thesis by (auto simp: relay_inv_def intro: copy_sane_trans)
next
  fix p c assume "relay_inv s0 s" and s': "s' = s\<lparr>up := c, finished := is_ready p\<rparr>"
    and p: "copy_poll (up s) = Some (p, c)"
  then have "copy_ok (up s)" by (simp add: relay_inv_def copy_sane_def)
  from copy_poll_correct [OF this] p have "copy_sane (up s) c" by auto
  with s' \<open>relay_inv s0 s\<close> show ?thesis by (auto simp: relay_inv_def intro: copy_sane_trans)
qed

lemma relay_steps_inv: "relay_step\<^sup>*\<^sup>* s s' \<Longrightarrow> relay_inv s0 s \<Longrightarrow> relay_inv s0 s'"
  by (induction rule: rtranclp_induct) (auto intro: relay_step_inv)

lemma relay_init_inv: "relay_inv (relay i ob n) (relay i ob n)"
  by (auto simp: relay_inv_def relay_def copy_sane_refl copy_init split: prod.splits)

text \<open>
  The relay with the counters of the statistics service. In the program they are shared by the
  connections of an inbound and an outbound, which only ever add to them, and the API may reset them;
  here they are the values this relay would leave if it were alone: what it adds is its share.
\<close>

record arelay_state =
  adown :: acopy
  aup :: acopy
  afinished :: bool

definition relay_with_atomic_counter ::
  "reader \<times> writer \<Rightarrow> reader \<times> writer \<Rightarrow> u64 \<Rightarrow> u64 \<Rightarrow> u64 \<Rightarrow> u64 \<Rightarrow> nat \<Rightarrow> arelay_state" where
  "relay_with_atomic_counter inbound_stream outbound_stream inbound_up inbound_down outbound_up
     outbound_down relay_buffer_size =
     (case (inbound_stream, outbound_stream) of ((inbound_r, inbound_w), (outbound_r, outbound_w)) \<Rightarrow>
        \<lparr>adown = copy_with_capacity_and_atomic_counter outbound_r inbound_w outbound_down inbound_down
                  (LW_BUFFER_SIZE * relay_buffer_size),
         aup = copy_with_capacity_and_atomic_counter inbound_r outbound_w inbound_up outbound_up
                  (LW_BUFFER_SIZE * relay_buffer_size),
         afinished = False\<rparr>)"

inductive arelay_step :: "arelay_state \<Rightarrow> arelay_state \<Rightarrow> bool" where
  apoll_down: "\<not> afinished s \<Longrightarrow> acopy_poll (adown s) = Some (p, c) \<Longrightarrow>
     arelay_step s (s\<lparr>adown := c, afinished := is_ready p\<rparr>)"
| apoll_up: "\<not> afinished s \<Longrightarrow> acopy_poll (aup s) = Some (p, c) \<Longrightarrow>
     arelay_step s (s\<lparr>aup := c, afinished := is_ready p\<rparr>)"

inductive_cases arelay_stepE: "arelay_step s s'"

definition erase_relay :: "arelay_state \<Rightarrow> relay_state" where
  "erase_relay s = \<lparr>down = erase (adown s), up = erase (aup s), finished = afinished s\<rparr>"

lemma is_ready_with_amt [simp]: "is_ready (with_amt n p) = is_ready p"
  by (cases "(n, p)" rule: with_amt.cases) auto

lemma arelay_step_erase:
  assumes "arelay_step s s'" "copy_ok (erase (adown s))" "copy_ok (erase (aup s))"
  shows "relay_step (erase_relay s) (erase_relay s') \<and>
    in_balance (adown s') = in_balance (adown s) \<and> in_balance (aup s') = in_balance (aup s)"
  using assms(1)
proof cases
  case (apoll_down p c)
  then have "copy_poll (down (erase_relay s)) = Some (with_amt (amt_out c) p, erase c)"
    using acopy_poll_erase [OF assms(2)] by (simp add: erase_relay_def)
  from relay_step.poll_down [OF _ this] apoll_down acopy_poll_balance [OF assms(2)] show ?thesis
    by (simp add: erase_relay_def)
next
  case (apoll_up p c)
  then have "copy_poll (up (erase_relay s)) = Some (with_amt (amt_out c) p, erase c)"
    using acopy_poll_erase [OF assms(3)] by (simp add: erase_relay_def)
  from relay_step.poll_up [OF _ this] apoll_up acopy_poll_balance [OF assms(3)] show ?thesis
    by (simp add: erase_relay_def)
qed

lemma arelay_steps_erase:
  assumes "arelay_step\<^sup>*\<^sup>* s s'" "copy_ok (erase (adown s))" "copy_ok (erase (aup s))"
  shows "relay_step\<^sup>*\<^sup>* (erase_relay s) (erase_relay s') \<and>
    in_balance (adown s') = in_balance (adown s) \<and> in_balance (aup s') = in_balance (aup s)"
  using assms
proof (induction rule: rtranclp_induct)
  case base
  then show ?case by simp
next
  case (step x y)
  have "relay_inv (erase_relay s) (erase_relay s)"
    using step.prems by (simp add: relay_inv_def erase_relay_def copy_sane_refl)
  with step relay_steps_inv have "relay_inv (erase_relay s) (erase_relay x)" by blast
  then have "copy_ok (erase (adown x))" "copy_ok (erase (aup x))"
    by (auto simp: relay_inv_def copy_sane_def erase_relay_def)
  from arelay_step_erase [OF step.hyps(2) this] step show ?case
    by (auto intro: rtranclp.rtrancl_into_rtrancl)
qed

section \<open>Counters shared with other connections\<close>

text \<open>
  In the program the counters belong to all the connections of an inbound or an outbound, and the API
  may reset them at any time. None of this touches the data: with counters that change in any way
  between its polls, the relay still runs as the plain one, up to the value of the plain one's counter.
\<close>

inductive shared_step :: "arelay_state \<Rightarrow> arelay_state \<Rightarrow> bool" where
  own: "arelay_step s s' \<Longrightarrow> shared_step s s'"
| others: "shared_step s (s\<lparr>adown := (adown s)\<lparr>amt_in := a, amt_out := b\<rparr>,
     aup := (aup s)\<lparr>amt_in := c, amt_out := d\<rparr>\<rparr>)"

definition shift_amt :: "u64 \<Rightarrow> copy \<Rightarrow> copy" where
  "shift_amt k c = c\<lparr>c_amt := c_amt c + k\<rparr>"

lemma shift_amt_simps [simp]:
  "c_reader (shift_amt k c) = c_reader c" "c_read_done (shift_amt k c) = c_read_done c"
  "c_writer (shift_amt k c) = c_writer c" "c_pos (shift_amt k c) = c_pos c"
  "c_cap (shift_amt k c) = c_cap c" "c_buf (shift_amt k c) = c_buf c"
  "c_amt (shift_amt k c) = c_amt c + k" "copy_ok (shift_amt k c) = copy_ok c"
  by (simp_all add: shift_amt_def copy_ok_def)

fun bump :: "u64 \<Rightarrow> u64 poll \<Rightarrow> u64 poll" where
  "bump k (Ready (Ok n)) = Ready (Ok (n + k))"
| "bump k (Ready (Err e)) = Ready (Err e)"
| "bump k (Ready Panic) = Ready Panic"
| "bump k Pending = Pending"

lemma is_ready_bump [simp]: "is_ready (bump k p) = is_ready p"
  by (cases "(k, p)" rule: bump.cases) auto

lemma copy_fill_shift: "copy_fill (shift_amt k c) = map_prod id (shift_amt k) (copy_fill c)"
  by (auto simp: copy_fill_def shift_amt_def split: prod.splits poll.splits res.splits)

lemma copy_drain_shift: "copy_drain (shift_amt k c) = map_prod id (shift_amt k) (copy_drain c)"
proof (induction c rule: copy_drain.induct)
  case (1 c)
  show ?case
  proof (cases "c_pos c < c_cap c \<and> (\<exists>out. sub_slice (c_buf c) (c_pos c) (c_cap c) = Ok out)")
    case False
    then show ?thesis
      by (cases "sub_slice (c_buf c) (c_pos c) (c_cap c)")
        (auto simp: copy_drain.simps [of "shift_amt k c"] copy_drain.simps [of c])
  next
    case True
    then obtain out where out: "c_pos c < c_cap c" "sub_slice (c_buf c) (c_pos c) (c_cap c) = Ok out" by blast
    obtain q w where q: "poll_write out (c_writer c) = (q, w)" by fastforce
    have e: "(shift_amt k c)\<lparr>c_writer := w, c_pos := c_pos c + i, c_amt := c_amt c + k + of_nat i\<rparr> =
        shift_amt k (c\<lparr>c_writer := w, c_pos := c_pos c + i, c_amt := c_amt c + of_nat i\<rparr>)"
      "(shift_amt k c)\<lparr>c_writer := w\<rparr> = shift_amt k (c\<lparr>c_writer := w\<rparr>)" for i
      by (simp_all add: shift_amt_def)
    show ?thesis
    proof (cases "\<exists>i. q = Ready (Ok i) \<and> i \<noteq> 0")
      case True
      then obtain i where i: "q = Ready (Ok i)" "i \<noteq> 0" by blast
      from "1.IH" [OF out q [symmetric] i(1) refl i(2)] out q i show ?thesis
        by (simp add: copy_drain.simps [of "shift_amt k c"] copy_drain.simps [of c] e(1))
    next
      case False
      with out q show ?thesis
        by (cases q; cases "case q of Ready x \<Rightarrow> x")
          (auto simp: copy_drain.simps [of "shift_amt k c"] copy_drain.simps [of c] e(2))
    qed
  qed
qed

lemma copy_flush_shift: "copy_flush (shift_amt k c) = map_prod (bump k) (shift_amt k) (copy_flush c)"
  by (auto simp: copy_flush_def shift_amt_def split: prod.splits poll.splits res.splits)

lemma bump_early: "bump k (early p) = early p"
  by (cases p rule: early.cases) auto

lemma copy_poll_shift:
  "copy_ok c \<Longrightarrow> copy_poll (shift_amt k c) = map_option (map_prod (bump k) (shift_amt k)) (copy_poll c)"
proof (induction c rule: measure_induct_rule [where f = copy_measure])
  case (less c)
  obtain p c1 where f: "copy_fill c = (p, c1)" by fastforce
  obtain q c2 where d: "copy_drain c1 = (q, c2)" by fastforce
  have ok1: "copy_ok c1" using copy_fill_sane [OF less.prems f] by (simp add: copy_sane_def)
  have ok2: "copy_ok c2" using copy_drain_sane [OF ok1 d] by (simp add: copy_sane_def)
  have f': "copy_fill (shift_amt k c) = (p, shift_amt k c1)" by (simp add: copy_fill_shift f)
  have d': "copy_drain (shift_amt k c1) = (q, shift_amt k c2)" by (simp add: copy_drain_shift d)
  note unfold = copy_poll_unfold [of c] copy_poll_unfold [of "shift_amt k c"]
  show ?case
  proof (cases "p = Ready (Ok ()) \<and> q = Ready (Ok ()) \<and> \<not> (c_pos c2 = c_cap c2 \<and> c_read_done c2)")
    case False
    then show ?thesis unfolding unfold by (auto simp: f f' d d' bump_early copy_flush_shift)
  next
    case True
    then have "copy_measure c2 < copy_measure c" using copy_round_measure [OF less.prems, of c1 c2] f d by simp
    from less.IH [OF this ok2] True show ?thesis unfolding unfold by (auto simp: f f' d d')
  qed
qed

text \<open>Two states of the plain relay that differ in their counters only.\<close>

definition same_data :: "relay_state \<Rightarrow> relay_state \<Rightarrow> bool" where
  "same_data s t \<longleftrightarrow>
     (\<exists>k l. down t = shift_amt k (down s) \<and> up t = shift_amt l (up s) \<and> finished t = finished s)"

lemma same_data_step:
  assumes "relay_step s s'" "same_data s t" "copy_ok (down s)" "copy_ok (up s)"
  shows "\<exists>t'. relay_step t t' \<and> same_data s' t'"
proof -
  from assms(2) obtain k l where kl: "down t = shift_amt k (down s)" "up t = shift_amt l (up s)"
    "finished t = finished s" by (auto simp: same_data_def)
  from assms(1) show ?thesis
  proof cases
    case (poll_down p c)
    from copy_poll_shift [OF assms(3), of k] poll_down(3)
    have p: "copy_poll (down t) = Some (bump k p, shift_amt k c)" by (simp add: kl)
    have nf: "\<not> finished t" using poll_down(2) kl(3) by simp
    show ?thesis using relay_step.poll_down [OF nf p] poll_down(1) kl by (force simp: same_data_def)
  next
    case (poll_up p c)
    from copy_poll_shift [OF assms(4), of l] poll_up(3)
    have p: "copy_poll (up t) = Some (bump l p, shift_amt l c)" by (simp add: kl)
    have nf: "\<not> finished t" using poll_up(2) kl(3) by simp
    show ?thesis using relay_step.poll_up [OF nf p] poll_up(1) kl by (force simp: same_data_def)
  qed
qed

lemma same_data_others:
  assumes "same_data (erase_relay s) t"
  shows "same_data (erase_relay (s\<lparr>adown := (adown s)\<lparr>amt_in := a, amt_out := b\<rparr>,
    aup := (aup s)\<lparr>amt_in := c, amt_out := d\<rparr>\<rparr>)) t"
proof -
  have "shift_amt k (erase (x\<lparr>amt_in := i, amt_out := j\<rparr>)) = shift_amt (k + j - amt_out x) (erase x)" for k x i j
    by (simp add: shift_amt_def erase_def algebra_simps)
  then have e: "shift_amt k (erase x) = shift_amt (k + amt_out x - j) (erase (x\<lparr>amt_in := i, amt_out := j\<rparr>))"
    for k x i j by (simp add: shift_amt_def erase_def algebra_simps)
  from assms obtain k l where "down t = shift_amt k (erase (adown s))" "up t = shift_amt l (erase (aup s))"
    "finished t = afinished s" by (auto simp: same_data_def erase_relay_def)
  then show ?thesis
    unfolding same_data_def erase_relay_def
    by (intro exI [of _ "k + amt_out (adown s) - b"] exI [of _ "l + amt_out (aup s) - d"])
      (simp add: e [of _ _ a b, symmetric] e [of _ _ c d, symmetric])
qed

lemma shared_steps_erase:
  assumes "shared_step\<^sup>*\<^sup>* s s'" "copy_ok (erase (adown s))" "copy_ok (erase (aup s))"
  shows "\<exists>t. relay_step\<^sup>*\<^sup>* (erase_relay s) t \<and> same_data (erase_relay s') t"
  using assms
proof (induction rule: rtranclp_induct)
  case base
  have "same_data (erase_relay s) (erase_relay s)"
    unfolding same_data_def by (intro exI [of _ 0]) (simp add: shift_amt_def)
  then show ?case by blast
next
  case (step x y)
  then obtain t where t: "relay_step\<^sup>*\<^sup>* (erase_relay s) t" "same_data (erase_relay x) t" by blast
  have "relay_inv (erase_relay s) (erase_relay s)"
    using step.prems by (simp add: relay_inv_def erase_relay_def copy_sane_refl)
  from relay_steps_inv [OF t(1) this] t(2) have ok: "copy_ok (erase (adown x))" "copy_ok (erase (aup x))"
    by (auto simp: relay_inv_def copy_sane_def same_data_def erase_relay_def)
  from step.hyps(2) show ?case
  proof cases
    case own
    from arelay_step_erase [OF own ok] have "relay_step (erase_relay x) (erase_relay y)" by blast
    from same_data_step [OF this t(2)] ok obtain t' where "relay_step t t'" "same_data (erase_relay y) t'"
      by (auto simp: erase_relay_def)
    with t(1) show ?thesis by (blast intro: rtranclp.rtrancl_into_rtrancl)
  next
    case (others a b c d)
    with same_data_others [OF t(2)] t(1) show ?thesis by blast
  qed
qed

end
