(* ===== verification/Instances.thy ===== *)
theory Instances
  imports Trojan Ss_Udp Udp Vmess_Stream Config Config_Deserialize Relay
begin

text \<open>
  Concrete instances of the parameters that stand for third-party code. They show that the
  hypotheses on those parameters can be met; nothing else depends on them.
\<close>

text \<open>A cipher that leaves the message as it is and has a zero tag.\<close>

definition plain_aead :: aead_lib where
  "plain_aead = \<lparr>seal = (\<lambda>k key nonce aad m. Some (m, replicate 16 0)),
     unseal = (\<lambda>k key nonce aad c t. (True, c))\<rparr>"

lemma plain_aead_ok: "aead_ok plain_aead"
  by (simp add: aead_ok_def plain_aead_def)

definition zero_hkdf :: hkdf where
  "zero_hkdf salt ikm info n = Some (replicate n 0)"

lemma zero_hkdf_ok: "hkdf_ok zero_hkdf"
  by (simp add: hkdf_ok_def zero_hkdf_def)

text \<open>The Bloom filter that is an exact set.\<close>

definition set_bloom :: "bytes list bloom_lib" where
  "set_bloom = \<lparr>bf_new = (\<lambda>n. []), bf_check = (\<lambda>b x. x \<in> set b), bf_set = (\<lambda>b x. x # b),
     bf_clear = (\<lambda>b. [])\<rparr>"

lemma set_bloom_ok: "bloom_ok set_bloom"
  by (simp add: bloom_ok_def set_bloom_def)

definition first_16 :: "bytes \<Rightarrow> bytes" where
  "first_16 bs = take 16 (bs @ replicate 16 0)"

lemma length_first_16 [simp]: "length (first_16 bs) = 16"
  by (simp add: first_16_def)

text \<open>Matchers that compare for equality, and a CIDR rule of either version.\<close>

definition eq_router_lib :: "((string \<times> match_type) list, string list) router_lib" where
  "eq_router_lib = \<lparr>mph_matcher_new = [], hybrid_matcher_new = [], reverse_insert = (\<lambda>r t m. (r, t) # m),
     dm_build = (\<lambda>m. m), reverse_query = (\<lambda>m s. \<exists>(r, t) \<in> set m. r = s),
     regex_set_build = Inr, regex_is_match = (\<lambda>r s. s \<in> set r), is_ip_cidr = (\<lambda>s. s = ''10.0.0.0/8'' \<or> s = ''2001:db8::/32''),
     ip_cidr_from_str = (\<lambda>s. if s = ''10.0.0.0/8'' then Some (CidrV4 0x0A000000 8)
       else if s = ''2001:db8::/32'' then Some (CidrV6 0x20010db8000000000000000000000000 32) else None),
     hash_order = (\<lambda>xs. xs), to_uppercase = (\<lambda>s. s)\<rparr>"

lemma eq_router_lib_ok: "matchers_ok eq_router_lib (\<lambda>r t s. r = s) (\<lambda>e s. e = s)"
proof -
  have "set (fold (\<lambda>(r, t). (#) (r, t)) rs m) = set m \<union> set rs"
    for rs :: "(string \<times> match_type) list" and m
    by (induction rs arbitrary: m) auto
  then show ?thesis by (auto simp: matchers_ok_def eq_router_lib_def new_matcher_def case_prod_beta)
qed

text \<open>A file system in which every file is empty.\<close>

definition empty_files :: "(unit, unit) coded_input" where
  "empty_files = \<lparr>file_open = (\<lambda>f. Ok ()), cis_eof = (\<lambda>s. (Ok True, s)),
     read_raw_varint32 = (\<lambda>s. (Ok 0, s)), read_raw_varint64 = (\<lambda>s. (Ok 0, s)),
     read_string = (\<lambda>s. (Ok [], s)),
     read_domain = (\<lambda>s. (Ok \<lparr>gd_type = Plain, gd_value = []\<rparr>, s)), merge_cidr = (\<lambda>m s. (Ok m, s)),
     skip_field = (\<lambda>w s. (Ok (), s)), wire_type_new = (\<lambda>n. Some ())\<rparr>"

text \<open>A writer that accepts what a script says, a reader that delivers everything at once.\<close>

definition idle_writer :: "write_event list \<Rightarrow> writer" where
  "idle_writer es = \<lparr>wr_script = es, fl_script = [], wr_sent = [], wr_flushed = 0\<rparr>"

definition fresh_filter :: "bytes list ping_pong_bloom" where
  "fresh_filter = ppbloom_new set_bloom True"

definition seen_filter :: "bytes \<Rightarrow> bytes list ping_pong_bloom" where
  "seen_filter salt =
     \<lparr>blooms = [[salt], []], bloom_count = [1, 0], item_count = 5000, current = 0\<rparr>"

lemma check_fresh:
  "salt \<noteq> [] \<Longrightarrow> check_nonce_and_set set_bloom salt fresh_filter = (False, seen_filter salt)"
  by (simp add: check_nonce_and_set_def check_and_set_def fresh_filter_def ppbloom_new_def
      set_bloom_def BF_NUM_ENTRIES_FOR_CLIENT_def seen_filter_def)

lemma check_seen:
  "x \<noteq> [] \<Longrightarrow> x \<noteq> y \<Longrightarrow> \<not> fst (check_nonce_and_set set_bloom x (seen_filter y))"
  by (simp add: check_nonce_and_set_def check_and_set_def seen_filter_def set_bloom_def)

lemma fresh_salt_16:
  assumes "x \<noteq> 0"
  shows "fresh_salt set_bloom 16 (replicate 16 x) fresh_filter =
    Some (replicate 16 x, [], seen_filter (replicate 16 x))"
proof -
  have "random_iv_or_salt 16 (replicate 16 x) = Some (replicate 16 x, [])"
    using assms by (simp add: random_iv_or_salt.simps [of 16 "replicate 16 x"] list_all_iff)
  then show ?thesis
    by (simp add: fresh_salt.simps [of set_bloom 16 "replicate 16 x"] check_fresh)
qed

lemma crypto_stream_new_16:
  assumes "x \<noteq> 0"
  shows "\<exists>c. crypto_stream_new zero_hkdf set_bloom cap io (replicate 16 7) Aes128Gcm
      (replicate 16 x) fresh_filter = Some (Ok c, [], seen_filter (replicate 16 x))"
  using aead_cipher_new_at [OF zero_hkdf_ok, of Aes128Gcm "replicate 16 7" "replicate 16 x"]
    fresh_salt_16 [OF assms]
  by (simp add: crypto_stream_new_def Let_def salt_len_def encrypted_writer_new_def)


lemma utf8_names [simp]: "utf8_string ''a''" "utf8_string ''a.b''"
  by code_simp+


lemma to_be_2: "to_be 2 x = [of_nat (x div 256), of_nat x]"
  by (simp add: numeral_2_eq_2)


text \<open>A configuration with a Trojan hop behind a TLS hop, and a direct outbound.\<close>

definition demo_trojan :: trojan_config where
  "demo_trojan = \<lparr>tc_password = ''pw'', tc_addr = DomainNameAddress ''a.b'' 443, tc_tag = ''trojan''\<rparr>"

definition demo_tls :: tls_config where
  "demo_tls = \<lparr>tls_sni = ''a.b'', cert_file = None, verify_hostname = True, verify_sni = True,
     tls_tag = ''tls''\<rparr>"

definition demo_config :: config where
  "demo_config = \<lparr>cf_enable_api_server = False, cf_relay_buffer_size = 2,
     cf_api_server_addr = new_dummy_address, cf_backlog = 4096, cf_ss = [], cf_tls = [demo_tls],
     cf_vmess = [], cf_ws = [], cf_trojan = [demo_trojan], cf_direct = [''direct''],
     cf_blackhole = [], cf_simpleobfs = [], cf_dokodemo = [], cf_domain_routing_rules = [],
     cf_ip_routing_rules = [\<lparr>ir_tag = ''out'', cidr_rules = [''10.0.0.0/8'']\<rparr>], cf_h2 = [],
     cf_grpc = [], cf_geosite_rules = [], cf_geoip_rules = [], cf_default_outbound = [],
     cf_outbounds = [\<lparr>ob_chain = [''tls'', ''trojan''], ob_tag = ''proxy''\<rparr>,
       \<lparr>ob_chain = [''direct''], ob_tag = ''out''\<rparr>],
     cf_inbounds = [\<lparr>ib_addr = new_dummy_address, ib_enable_udp = False, ib_tag = ''in''\<rparr>]\<rparr>"

lemma demo_config_fields [simp]:
  "cf_ss demo_config = []" "cf_tls demo_config = [demo_tls]" "cf_vmess demo_config = []"
  "cf_ws demo_config = []" "cf_trojan demo_config = [demo_trojan]" "cf_direct demo_config = [''direct'']"
  "cf_blackhole demo_config = []" "cf_simpleobfs demo_config = []" "cf_h2 demo_config = []"
  "cf_grpc demo_config = []" "cf_default_outbound demo_config = []"
  "cf_outbounds demo_config = [\<lparr>ob_chain = [''tls'', ''trojan''], ob_tag = ''proxy''\<rparr>,
     \<lparr>ob_chain = [''direct''], ob_tag = ''out''\<rparr>]"
  "cf_domain_routing_rules demo_config = []"
  "cf_ip_routing_rules demo_config = [\<lparr>ir_tag = ''out'', cidr_rules = [''10.0.0.0/8'']\<rparr>]"
  "cf_geosite_rules demo_config = []" "cf_geoip_rules demo_config = []"
  "cf_inbounds demo_config = [\<lparr>ib_addr = new_dummy_address, ib_enable_udp = False, ib_tag = ''in''\<rparr>]"
  by (simp_all add: demo_config_def)

lemma demo_config_map:
  "build_config_map demo_config = [''tls'' \<mapsto> (Tls, 0), ''trojan'' \<mapsto> (Trojan, 0), ''direct'' \<mapsto> (Direct, 0)]"
  by (simp add: build_config_map_def insert_config_map_def demo_trojan_def demo_tls_def)

lemma demo_outbounds:
  "outbound_ok demo_config \<lparr>ob_chain = [''tls'', ''trojan''], ob_tag = ''proxy''\<rparr>
     [TlsConfig demo_tls, TrojanConfig demo_trojan]"
  "outbound_ok demo_config \<lparr>ob_chain = [''direct''], ob_tag = ''out''\<rparr> [DirectConfig ''direct'']"
  by (simp_all add: outbound_ok_def resolves_def well_formed_chain_def demo_config_map config_index_def
      index_vec_def)


definition demo_router :: "((string \<times> match_type) list, string list) router" where
  "demo_router = \<lparr>domain_matchers = [], ip_matcher = geoip_new, regex_matchers = [],
     default_outbound_tag = ''out''\<rparr>"

lemma demo_config_ok:
  "\<forall>out \<in> set (cf_outbounds demo_config). \<exists>cs. outbound_ok demo_config out cs"
  "ob_tag ` set (cf_outbounds demo_config) = {''proxy'', ''out''}"
  "routing_ok eq_router_lib (cf_domain_routing_rules demo_config) (cf_ip_routing_rules demo_config)"
  using demo_outbounds
  by (auto simp: routing_ok_def regexes_valid_def cidr_rule_ok_def eq_router_lib_def n_cidr_rules_def
      trie4_limit_def)

lemma demo_config_loads: "outbounds_load demo_tls_env demo_config outs"
proof -
  have "hop_loads demo_tls_env c" for c by (cases c) simp_all
  then show ?thesis by (simp add: outbounds_load_def chain_loads_def)
qed

text \<open>A network whose connections are the addresses they go to, and hops that do nothing.\<close>

definition demo_network :: "address network" where
  "demo_network = \<lparr>net_tls = demo_tls_env, connect_tcp = (\<lambda>a. Ok a), connect_udp = (\<lambda>a. Ok a), hop_tcp = (\<lambda>b io. Ok io),
     hop_udp = (\<lambda>b t io. Ok io)\<rparr>"

text \<open>A transport that delivers one byte at a time.\<close>

definition bytewise :: "bytes \<Rightarrow> reader" where
  "bytewise bs = map (\<lambda>b. RData [b]) bs"

lemma bytewise [simp]:
  "clean (bytewise bs)" "rx_bytes (bytewise bs) = bs" "rx_size (bytewise bs) = 2 * length bs"
  by (induction bs) (simp_all add: bytewise_def)

text \<open>A VMess client with a zero hash, and random bytes that are all one.\<close>

definition plain_vmess_lib :: vmess_lib where
  "plain_vmess_lib = aead_lib.extend plain_aead
     \<lparr>lib_hmac = (\<lambda>k m. replicate 32 0), aes128 = (\<lambda>k b. replicate 16 0), crc32 = (\<lambda>b. 0)\<rparr>"

definition zero_hash :: "nat \<Rightarrow> bytes \<Rightarrow> bytes" where
  "zero_hash n bs = replicate n 0"

definition demo_vmess :: vmess_option where
  "demo_vmess = \<lparr>vo_uuid = replicate 16 9, vo_alter_id = 0, vo_addr = DomainNameAddress ''a.b'' 443,
     vo_security_num = AES_128_GCM_SECURITY_NUM, vo_is_udp = False\<rparr>"

lemma plain_vmess_lib_ok:
  "aead_ok (aead_lib.truncate plain_vmess_lib)" "\<forall>k b. length (aes128 plain_vmess_lib k b) = 16"
  using plain_aead_ok by (simp_all add: plain_vmess_lib_def aead_lib.defs plain_aead_def)

lemma random_iv_or_salt_ones:
  "0 < k \<Longrightarrow> k \<le> n \<Longrightarrow> random_iv_or_salt k (replicate n 1) = Some (replicate k 1, replicate (n - k) 1)"
  by (simp add: random_iv_or_salt.simps [of k "replicate n 1"] list_all_iff min_def)

lemma random_u8_ones: "0 < n \<Longrightarrow> random_u8 (replicate n 1) = Some (1, replicate (n - 1) 1)"
  by (cases n) simp_all

lemma encrypt_ok:
  "aead_ok lib \<Longrightarrow> length m < 2 ^ 32 \<Longrightarrow> length pad = 16 \<Longrightarrow>
     \<exists>c. encrypt_inplace_with_slice lib k key nonce aad (m @ pad) = Ok c"
  using seal_open by blast

lemma vmess_header_sealed:
  assumes "aead_ok (aead_lib.truncate lib)" "length data < 2 ^ 32" "12 \<le> n"
  shows "\<exists>x. seal_vmess_aead_header lib now key data (replicate n 1) = Some (Ok x, replicate (n - 12) 1)"
proof -
  have "random_iv_or_salt 4 (replicate n 1) = Some (replicate 4 1, replicate (n - 4) 1)"
    using assms(3) by (simp only: random_iv_or_salt_ones)
  then obtain a where a: "create_auth_id lib key (to_be 8 (unat now)) (replicate n 1) =
      Some (a, replicate (n - 4) 1)"
    by (simp only: create_auth_id_def option.case prod.case Let_def)
  have r: "random_iv_or_salt 8 (replicate (n - 4) 1) = Some (replicate 8 1, replicate (n - 12) 1)"
    using assms(3) random_iv_or_salt_ones [of 8 "n - 4"] by simp
  have l: "length (put_u16 (of_nat (length data))) < 2 ^ 32" by simp
  show ?thesis
    using encrypt_ok [OF assms(1) l, of "replicate 16 0"] encrypt_ok [OF assms(1,2), of "replicate 16 0"]
    by (simp add: seal_vmess_aead_header_def a r AES_128_GCM_TAG_LEN_def Let_def res_simps) blast
qed

lemma demo_vmess_new:
  "\<exists>v rng. vmess_stream_new plain_vmess_lib (zero_hash 16) (zero_hash 32) now demo_vmess io (replicate 100 1) =
     Some (Ok v, rng) \<and> vt_respv v = 1"
proof -
  have pad: "request_padding (1 mod 16) (replicate 35 1) = Some ([1], replicate 19 1)"
    by (simp add: request_padding_def random_iv_or_salt_ones)
  have a: "length (encode_address_vmess (vo_addr demo_vmess)) \<le> 259"
    by (rule wire_ok_vmess_length) (simp add: demo_vmess_def)
  have len: "length ((request_fields s r demo_vmess (1 mod 16) @ [1]) @ request_checksum b) < 2 ^ 32" for s r b
    using a by (simp add: request_fields_def write_to_buf_vmess_append req_body_iv_def req_body_key_def)
  have data: "\<exists>v' rng. construct_header_data plain_vmess_lib (zero_hash 16) now (replicate 36 1) v = Some (Ok v', rng) \<and>
      vt_respv v' = 1"
    if "vt_option v = demo_vmess" "vt_respv v = 1" for v
  proof -
    have "random_u8 (replicate 36 1) = Some (1, replicate 35 1)" by (simp add: random_u8_ones)
    moreover obtain x where "seal_vmess_aead_header plain_vmess_lib now
        (zero_hash 16 (vo_uuid demo_vmess @ as_bytes ''c48619fe-8f02-49e0-b9e9-edf763e17e21''))
        ((request_fields (vt_salt v) (vt_respv v) demo_vmess (1 mod 16) @ [1]) @
         request_checksum (request_fields (vt_salt v) (vt_respv v) demo_vmess (1 mod 16) @ [1]))
        (replicate 19 1) = Some (Ok x, replicate 7 1)"
      using vmess_header_sealed [OF plain_vmess_lib_ok(1) len, of 19] by fastforce
    ultimately have "\<exists>v' rng. construct_header_data plain_vmess_lib (zero_hash 16) now (replicate 36 1) v =
        Some (Ok v', rng)"
      by (simp only: construct_header_data_def option.case prod.case Let_def pad that(1)) simp
    then show ?thesis using construct_header_data_Ok that(2) by fastforce
  qed
  have "random_iv_or_salt 64 (replicate 100 1) = Some (replicate 64 1, replicate 36 1)"
    by (simp add: random_iv_or_salt_ones)
  moreover have "vmess_securities m (vo_security_num demo_vmess) k k' = Ok (VsAes128Gcm k, VsAes128Gcm k')" for m k k'
    by (simp add: vmess_securities_def demo_vmess_def)
  ultimately show ?thesis
    by (simp only: vmess_stream_new_def option.case prod.case res.case Let_def)
      (rule data, simp_all)
qed

end
