(* ===== verification/Simple_Obfs.thy ===== *)
theory Simple_Obfs
  imports Datagram
begin

text \<open>
  The HTTP disguise: \<open>src/proxy/simpleobfs/http.rs\<close> and \<open>mod.rs\<close>. The first write is preceded by the
  head of an HTTP request, and the reader drops everything up to the empty line that ends the head
  of the answer. Building and taking apart the request is the \<open>http\<close> crate's, a parameter.
\<close>

section \<open>Reading\<close>

datatype obfs_read_pc = OrHead | OrStream
datatype obfs_write_pc = OwStart | OwHead | OwStream

record http_obfs =
  ho_rx :: reader
  ho_tx :: writer
  ho_host :: address
  ho_buffer :: bytes
  ho_pos :: nat
  ho_write_res :: "nat poll"
  ho_write_state :: obfs_write_pc
  ho_read_state :: obfs_read_pc

definition http_obfs_new :: "address \<Rightarrow> reader \<times> writer \<Rightarrow> http_obfs" where
  "http_obfs_new host io =
     \<lparr>ho_rx = fst io, ho_tx = snd io, ho_host = host, ho_buffer = [], ho_pos = 0,
      ho_write_res = Pending, ho_write_state = OwStart, ho_read_state = OrHead\<rparr>"

text \<open>The position of the first empty line (carriage return and line feed, twice).\<close>

definition crlf2 :: bytes where "crlf2 = [13, 10, 13, 10]"

fun window_position :: "bytes \<Rightarrow> nat option" where
  "window_position [] = None"
| "window_position (b # bs) =
     (if take 4 (b # bs) = crlf2 then Some 0 else map_option Suc (window_position bs))"

text \<open>
  The loop that looks for it, within one poll with a buffer of \<open>cap\<close> bytes that holds \<open>filled\<close>
  already: what a read returned (an error too) is not looked at, only the buffer, which is emptied
  when it holds no empty line. The loop need not end.
\<close>

partial_function (option) obfs_head ::
  "nat \<Rightarrow> bytes \<Rightarrow> reader \<Rightarrow> (unit poll \<times> bytes \<times> reader) option" where
  "obfs_head cap filled r =
     (case poll_read (cap - length filled) r of
        (p, r') \<Rightarrow>
          (case p of
             Pending \<Rightarrow> Some (Pending, filled, r')
           | Ready x \<Rightarrow>
               (let filled = filled @ (case x of Ok bs \<Rightarrow> bs | _ \<Rightarrow> []) in
                case window_position filled of
                  Some s \<Rightarrow> Some (Ready (Ok ()), drop (s + 4) filled, r')
                | None \<Rightarrow> obfs_head cap [] r')))"

text \<open>\<open>priv_poll_read\<close>: the answer and the contents of the buffer.\<close>

definition obfs_poll_read ::
  "nat \<Rightarrow> bytes \<Rightarrow> http_obfs \<Rightarrow> ((unit poll \<times> bytes) \<times> http_obfs) option" where
  "obfs_poll_read cap filled h =
     (case ho_read_state h of
        OrHead \<Rightarrow>
          (case obfs_head cap filled (ho_rx h) of
             None \<Rightarrow> None
           | Some (p, filled, r) \<Rightarrow>
               Some ((p, filled),
                 h\<lparr>ho_rx := r, ho_read_state := (if p = Pending then OrHead else OrStream)\<rparr>))
      | OrStream \<Rightarrow>
          Some (case poll_read (cap - length filled) (ho_rx h) of
             (Ready (Ok bs), r) \<Rightarrow> ((Ready (Ok ()), filled @ bs), h\<lparr>ho_rx := r\<rparr>)
           | (Ready (Err e), r) \<Rightarrow> ((Ready (Err e), filled), h\<lparr>ho_rx := r\<rparr>)
           | (Ready Panic, r) \<Rightarrow> ((Ready Panic, filled), h\<lparr>ho_rx := r\<rparr>)
           | (Pending, r) \<Rightarrow> ((Pending, filled), h\<lparr>ho_rx := r\<rparr>)))"

section \<open>Writing\<close>

text \<open>
  The \<open>http\<close> crate: the parts of the request built from a URI and headers (none when it refuses
  them), the textual form of an address and the base64 encoding.
\<close>

record http_lib =
  hl_request :: "string \<Rightarrow> (string \<times> string) list \<Rightarrow> (string \<times> string \<times> (string \<times> string) list) option"
  hl_show_addr :: "address \<Rightarrow> string"
  hl_base64 :: "bytes \<Rightarrow> string"

text \<open>The random choices of the first write: the key and the two numbers of the user agent.\<close>

record obfs_random =
  or_salt :: bytes
  or_minor :: nat
  or_patch :: nat

definition line_end :: bytes where "line_end = [13, 10]"

definition obfs_request :: "http_lib \<Rightarrow> obfs_random \<Rightarrow> address \<Rightarrow> nat \<Rightarrow> bytes res" where
  "obfs_request H rnd host len =
     (case hl_request H (''http://'' @ hl_show_addr H host)
        [(''User-Agent'', ''curl/7.'' @ show_dec (or_minor rnd) @ ''.'' @ show_dec (or_patch rnd)),
         (''Upgrade'', ''websocket''), (''Connection'', ''Upgrade''),
         (''Sec-WebSocket-Key'', hl_base64 H (or_salt rnd)),
         (''Content-Length'', show_dec len), (''Host'', hl_show_addr H host)] of
        None \<Rightarrow> Panic
      | Some (meth, path, headers) \<Rightarrow>
          Ok (as_bytes meth @ as_bytes '' '' @ as_bytes path @ as_bytes '' '' @ as_bytes ''HTTP/1.1'' @ line_end @
              concat (map (\<lambda>(k, v). as_bytes k @ as_bytes '': '' @ as_bytes v @ line_end) headers) @ line_end))"

definition obfs_write_buffer_data :: "http_obfs \<Rightarrow> nat poll \<times> http_obfs" where
  "obfs_write_buffer_data h =
     (case write_loop 0 (ho_buffer h) (ho_pos h) (ho_tx h) of
        (p, pos, w) \<Rightarrow> (p, h\<lparr>ho_pos := pos, ho_tx := w\<rparr>))"

text \<open>The answer to the first write is the length of the buffer of the call, however it went.\<close>

definition obfs_write_head :: "bytes \<Rightarrow> http_obfs \<Rightarrow> nat poll \<times> http_obfs" where
  "obfs_write_head buf h =
     (case obfs_write_buffer_data h of
        (Pending, h) \<Rightarrow> (Pending, h\<lparr>ho_write_state := OwHead\<rparr>)
      | (Ready Panic, h) \<Rightarrow> (Ready Panic, h)
      | (p, h) \<Rightarrow> (Ready (Ok (length buf)), h\<lparr>ho_write_res := p, ho_write_state := OwStream\<rparr>))"

definition obfs_poll_write ::
  "http_lib \<Rightarrow> obfs_random \<Rightarrow> bytes \<Rightarrow> http_obfs \<Rightarrow> nat poll \<times> http_obfs" where
  "obfs_poll_write H rnd buf h =
     (case ho_write_state h of
        OwStart \<Rightarrow>
          (case obfs_request H rnd (ho_host h) (length buf) of
             Ok req \<Rightarrow> obfs_write_head buf (h\<lparr>ho_buffer := ho_buffer h @ req @ buf\<rparr>)
           | Err e \<Rightarrow> (Ready (Err e), h)
           | Panic \<Rightarrow> (Ready Panic, h))
      | OwHead \<Rightarrow> obfs_write_head buf h
      | OwStream \<Rightarrow>
          (case poll_write buf (ho_tx h) of
             (p, w) \<Rightarrow> (p, h\<lparr>ho_tx := w, ho_write_res := Pending\<rparr>)))"

section \<open>What goes out\<close>

text \<open>
  The context of a write says whether the head is still to come. After it, writes go to the
  transport as they are.
\<close>

definition obfs_req :: "http_lib \<Rightarrow> obfs_random \<Rightarrow> address \<Rightarrow> bytes \<Rightarrow> bytes" where
  "obfs_req H rnd host m = (case obfs_request H rnd host (length m) of Ok req \<Rightarrow> req | _ \<Rightarrow> [])"

definition obfs_sendable :: "http_lib \<Rightarrow> obfs_random \<Rightarrow> address \<Rightarrow> bool \<Rightarrow> bytes \<Rightarrow> bool" where
  "obfs_sendable H rnd host c m \<longleftrightarrow> c \<and> (\<exists>req. obfs_request H rnd host (length m) = Ok req)"

definition obfs_done :: "http_obfs \<Rightarrow> bool" where
  "obfs_done h \<longleftrightarrow> writer_live (ho_tx h) \<and> ho_write_state h = OwStream"

definition obfs_idle :: "address \<Rightarrow> bool \<Rightarrow> http_obfs \<Rightarrow> bool" where
  "obfs_idle host c h \<longleftrightarrow>
     ho_host h = host \<and>
     (if c then writer_live (ho_tx h) \<and> ho_write_state h = OwStart \<and> ho_buffer h = [] \<and> ho_pos h = 0
      else obfs_done h)"

definition obfs_busy ::
  "http_lib \<Rightarrow> obfs_random \<Rightarrow> address \<Rightarrow> bool \<Rightarrow> bytes \<Rightarrow> nat \<Rightarrow> http_obfs \<Rightarrow> bool" where
  "obfs_busy H rnd host c m n h \<longleftrightarrow>
     obfs_idle host c h \<and> n = 0 \<or>
     c \<and> ho_host h = host \<and> writer_live (ho_tx h) \<and> ho_write_state h = OwHead \<and>
       ho_buffer h = obfs_req H rnd host m @ m \<and> ho_pos h = n \<and> n \<le> length (obfs_req H rnd host m @ m)"

lemma obfs_write_head_sends:
  assumes b: "writer_live (ho_tx h)" "ho_buffer h = xs" "ho_pos h = n" "n \<le> length xs"
    and r: "obfs_write_head m h = (out, h')"
  shows "ho_host h' = ho_host h \<and>
    ((\<exists>n'. out = Pending \<and> n \<le> n' \<and> n' \<le> length xs \<and> writer_live (ho_tx h') \<and>
        ho_write_state h' = OwHead \<and> ho_buffer h' = xs \<and> ho_pos h' = n' \<and>
        length (wr_script (ho_tx h')) < length (wr_script (ho_tx h)) \<and>
        wr_sent (ho_tx h') = wr_sent (ho_tx h) @ take (n' - n) (drop n xs)) \<or>
     out = Ready (Ok (length m)) \<and> obfs_done h' \<and> wr_sent (ho_tx h') = wr_sent (ho_tx h) @ drop n xs)"
proof -
  obtain q pos w where q: "write_loop 0 (ho_buffer h) (ho_pos h) (ho_tx h) = (q, pos, w)"
    by (cases "write_loop 0 (ho_buffer h) (ho_pos h) (ho_tx h)")
  have le: "ho_pos h \<le> length (ho_buffer h)" using b by simp
  from write_loop_live [OF b(1) le q] show ?thesis
    using r b q by (auto simp: obfs_write_head_def obfs_write_buffer_data_def obfs_done_def)
qed

interpretation obfs_out: message_sink
  "obfs_poll_write H rnd" "obfs_sendable H rnd host" length "\<lambda>c m. obfs_req H rnd host m @ m" "\<lambda>c m. False"
  "obfs_idle host" "obfs_busy H rnd host" "\<lambda>h. wr_sent (ho_tx h)" "\<lambda>h. length (wr_script (ho_tx h))"
  for H rnd host
proof (unfold_locales, goal_cases)
  case (1 c h m)
  then show ?case by (simp add: obfs_busy_def)
next
  case (2 c m n h out h')
  then obtain req where c: "c" "obfs_request H rnd host (length m) = Ok req"
    by (auto simp: obfs_sendable_def)
  let ?xs = "obfs_req H rnd host m @ m"
  have step: "\<exists>h0. obfs_write_head m h0 = (out, h') \<and> ho_host h0 = host \<and> ho_buffer h0 = ?xs \<and>
      ho_pos h0 = n \<and> n \<le> length ?xs \<and> ho_tx h0 = ho_tx h \<and> writer_live (ho_tx h)"
  proof (cases "ho_write_state h")
    case OwStart
    with 2 c show ?thesis
      by (intro exI [of _ "h\<lparr>ho_buffer := ?xs\<rparr>"])
        (auto simp: obfs_poll_write_def obfs_busy_def obfs_idle_def obfs_req_def)
  next
    case OwHead
    with 2 c show ?thesis
      by (intro exI [of _ h]) (auto simp: obfs_poll_write_def obfs_busy_def obfs_idle_def)
  next
    case OwStream
    with 2 c show ?thesis by (simp add: obfs_busy_def obfs_idle_def)
  qed
  then obtain h0 where h0: "obfs_write_head m h0 = (out, h')" "ho_host h0 = host" "ho_buffer h0 = ?xs"
    "ho_pos h0 = n" "n \<le> length ?xs" "ho_tx h0 = ho_tx h" "writer_live (ho_tx h)" by blast
  have live: "writer_live (ho_tx h0)" using h0(6,7) by simp
  from obfs_write_head_sends [OF live h0(3,4,5,1)] c(1) h0(2,6) show ?case
    by (auto simp: obfs_busy_def obfs_idle_def)
qed

lemma obfs_first_write_sends:
  assumes "writer_live w" "obfs_request H rnd host (length m) = Ok req"
  shows "\<exists>n h'. send_run (obfs_poll_write H rnd) n [m] (http_obfs_new host (r, w)) = Some h' \<and>
    wr_sent (ho_tx h') = wr_sent w @ req @ m \<and> ho_write_state h' = OwStream"
proof -
  let ?h = "http_obfs_new host (r, w)"
  have idle: "obfs_idle host True ?h" using assms(1) by (simp add: obfs_idle_def http_obfs_new_def)
  have ok: "obfs_sendable H rnd host True m" using assms(2) by (simp add: obfs_sendable_def)
  from obfs_out.send_message [OF ok obfs_out.idle_busy [OF idle]] obtain h' n where
    h': "obfs_idle host False h'" "wr_sent (ho_tx h') = wr_sent (ho_tx ?h) @ drop 0 (obfs_req H rnd host m @ m)"
      "\<forall>k ps. send_run (obfs_poll_write H rnd) (n + k) (m # ps) ?h = send_run (obfs_poll_write H rnd) k ps h'"
    by blast
  have "send_run (obfs_poll_write H rnd) (n + 0) [m] ?h = Some h'" using h'(3) [rule_format, of 0 "[]"] by simp
  with h'(1,2) assms(2) show ?thesis
    by (intro exI [of _ "n + 0"] exI [of _ h'])
      (simp add: obfs_idle_def obfs_done_def obfs_req_def http_obfs_new_def)
qed

section \<open>What the reader makes of the answer\<close>

lemma obfs_head_found:
  "poll_read (cap - length filled) r = (Ready (Ok bs), r') \<Longrightarrow> window_position (filled @ bs) = Some s \<Longrightarrow>
     obfs_head cap filled r = Some (Ready (Ok ()), drop (s + 4) (filled @ bs), r')"
  by (subst obfs_head.simps) simp

text \<open>At the end of the stream, before an empty line was seen, a poll does not return.\<close>

lemma obfs_head_eof:
  assumes "window_position filled = None"
  shows "obfs_head cap filled [] = None"
proof -
  have "r \<noteq> [] \<or> window_position filled \<noteq> None"
    if "obfs_head cap filled r = Some y" for filled r y
    using that
  proof (induction rule: obfs_head.raw_induct [rotated 1, consumes 1])
    case (1 f cap filled r y)
    show ?case
    proof (rule ccontr)
      assume "\<not> (r \<noteq> [] \<or> window_position filled \<noteq> None)"
      then have "f cap [] [] = Some y" using 1(2) by simp
      from 1(1) [OF this] show False by simp
    qed
  qed
  with assms show ?thesis by (metis not_None_eq)
qed

end
