(* ===== verification/Socks5.thy ===== *)
theory Socks5
  imports Address "HOL-Library.Sublist"
begin

text \<open>
  The SOCKS5 inbound: \<open>src/proxy/socks/mod.rs\<close> and \<open>src/proxy/socks/socks5.rs\<close>. The handshake is an
  \<open>async\<close> function over one connection and is modelled as a sequence of stream operations; a loop of
  it that may not end makes its result an option. Then the datagram codec, and the dispatcher that
  hands datagrams to the outbounds as a step relation.
\<close>

definition SOCKS_VERSION :: u8 where "SOCKS_VERSION = 5"
definition NO_AUTH :: u8 where "NO_AUTH = 0"
definition USER_PASS :: u8 where "USER_PASS = 2"
definition NO_METHODS :: u8 where "NO_METHODS = 0xff"
definition SUCCESS :: u8 where "SUCCESS = 0"
definition FAILURE :: u8 where "FAILURE = 1"
definition COMMAND_NOT_SUPPORTED :: u8 where "COMMAND_NOT_SUPPORTED = 7"
definition CONNECT :: u8 where "CONNECT = 1"
definition UDP_ASSOSIATE :: u8 where "UDP_ASSOSIATE = 3"

lemmas socks_consts = SOCKS_VERSION_def NO_AUTH_def USER_PASS_def NO_METHODS_def SUCCESS_def
  FAILURE_def COMMAND_NOT_SUPPORTED_def CONNECT_def UDP_ASSOSIATE_def

section \<open>Awaited reads\<close>

text \<open>\<open>read_buf(buf).await\<close>: one read into the spare capacity.\<close>

fun read_buf_await :: "(bytes \<Rightarrow> nat) \<Rightarrow> reader \<Rightarrow> bytes \<Rightarrow> nat res \<times> reader \<times> bytes" where
  "read_buf_await chunk (RPending # r) buf = read_buf_await chunk r buf"
| "read_buf_await chunk r buf =
     (case poll_read_buf chunk r buf of
        (Ready x, r', buf') \<Rightarrow> (x, r', buf')
      | (Pending, r', buf') \<Rightarrow> (Panic, r', buf'))"

section \<open>The connection\<close>

text \<open>
  \<open>sk_shutdown_res\<close> is how the peer answers a shutdown, \<open>sk_closed\<close> whether one was asked for.
\<close>

record socks5_stream =
  sk_rx :: reader
  sk_tx :: writer
  sk_shutdown_res :: "unit res"
  sk_closed :: bool
  sk_read_buf :: bytes
  sk_authed_users :: "(bytes \<times> bytes) list"
  sk_local_addr :: address

definition socks5_stream_new :: "reader \<Rightarrow> writer \<Rightarrow> unit res \<Rightarrow> socket_addr \<Rightarrow> socks5_stream" where
  "socks5_stream_new r w shut local_addr =
     \<lparr>sk_rx = r, sk_tx = w, sk_shutdown_res = shut, sk_closed = False, sk_read_buf = [],
      sk_authed_users = [], sk_local_addr = SocketAddress local_addr\<rparr>"

definition sk_read_exact :: "nat \<Rightarrow> socks5_stream \<Rightarrow> bytes res \<times> socks5_stream" where
  "sk_read_exact n s = (case read_exact n (sk_rx s) of (x, r) \<Rightarrow> (x, s\<lparr>sk_rx := r\<rparr>))"

definition sk_write_all :: "bytes \<Rightarrow> socks5_stream \<Rightarrow> unit res \<times> socks5_stream" where
  "sk_write_all bs s = (case write_all bs (sk_tx s) of (x, w) \<Rightarrow> (x, s\<lparr>sk_tx := w\<rparr>))"

definition sk_shutdown :: "socks5_stream \<Rightarrow> unit res \<times> socks5_stream" where
  "sk_shutdown s = (sk_shutdown_res s, s\<lparr>sk_closed := True\<rparr>)"

definition sk_read_address :: "socks5_stream \<Rightarrow> address res \<times> socks5_stream" where
  "sk_read_address s = (case read_from_stream (sk_rx s) of (x, r) \<Rightarrow> (x, s\<lparr>sk_rx := r\<rparr>))"

section \<open>The handshake\<close>

text \<open>
  The loop over the offered methods counts what each read delivers; a read at the end of the stream
  delivers nothing, so the loop may not end.
\<close>

partial_function (option) read_methods ::
  "(bytes \<Rightarrow> nat) \<Rightarrow> nat \<Rightarrow> nat \<Rightarrow> reader \<Rightarrow> bytes \<Rightarrow> (unit res \<times> reader \<times> bytes) option" where
  "read_methods chunk want len r buf =
     (if len < want then
        (case read_buf_await chunk r buf of
           (x, r', buf') \<Rightarrow>
             (case x of
                Ok n \<Rightarrow> read_methods chunk want (len + n) r' buf'
              | Err e \<Rightarrow> Some (Err e, r', buf')
              | Panic \<Rightarrow> Some (Panic, r', buf')))
      else Some (Ok (), r, buf))"

definition auth_failure :: io_error where
  "auth_failure = IoError Other ''socks5 client auth failure''"

definition version_error :: "u8 \<Rightarrow> io_error" where
  "version_error v = IoError Other (''socks version '' @ show_hex (unat v) @ '' is not supported'')"

text \<open>
  User and password are read into one buffer, which is then split at its length: the first part is
  everything, the second is empty.
\<close>

definition socks5_user_pass :: "socks5_stream \<Rightarrow> unit res \<times> socks5_stream" where
  "socks5_user_pass s =
     bind_io (sk_write_all [SOCKS_VERSION, USER_PASS] s) (\<lambda>_ s.
     bind_io (sk_read_exact 2 s) (\<lambda>header s.
     bind_io (sk_read_exact (unat (header ! 1)) (s\<lparr>sk_read_buf := []\<rparr>)) (\<lambda>user s.
     bind_io (sk_read_exact 1 (s\<lparr>sk_read_buf := user\<rparr>)) (\<lambda>password_len s.
     bind_io (sk_read_exact (unat (password_len ! 0)) s) (\<lambda>pass s.
       let s = s\<lparr>sk_read_buf := sk_read_buf s @ pass\<rparr>;
           username = take (length (sk_read_buf s)) (sk_read_buf s);
           password = drop (length (sk_read_buf s)) (sk_read_buf s)
       in if username = [] \<and> password = [] then sk_write_all [1, SUCCESS] s
          else if map_of (sk_authed_users s) username = Some password then sk_write_all [1, SUCCESS] s
          else bind_io (sk_write_all [1, FAILURE] s) (\<lambda>_ s.
               bind_io (sk_shutdown s) (\<lambda>_ s. (Err auth_failure, s))))))))"

definition socks5_auth :: "socks5_stream \<Rightarrow> unit res \<times> socks5_stream" where
  "socks5_auth s =
     (let methods = sk_read_buf s in
      if USER_PASS \<in> set methods then socks5_user_pass s
      else if NO_AUTH \<in> set methods then sk_write_all [SOCKS_VERSION, NO_AUTH] s
      else bind_io (sk_write_all [SOCKS_VERSION, NO_METHODS] s) (\<lambda>_ s.
           bind_io (sk_shutdown s) (\<lambda>_ s. (Err auth_failure, s))))"

text \<open>
  The request. \<open>udp_bind ip\<close> is the operating system's answer to binding a datagram socket on any
  port of \<open>ip\<close>: its local address. The second component of the result is that socket.
\<close>

definition socks5_reply :: "u8 \<Rightarrow> address \<Rightarrow> socks5_stream \<Rightarrow> unit res \<times> socks5_stream" where
  "socks5_reply code addr s =
     (let buf = write_to_buf addr [SOCKS_VERSION, code, 0]
      in sk_write_all buf (s\<lparr>sk_read_buf := buf\<rparr>))"

definition socks5_request ::
  "(ip_addr \<Rightarrow> socket_addr res) \<Rightarrow> socket_addr option \<Rightarrow> socks5_stream \<Rightarrow>
     (address \<times> socket_addr option) res \<times> socks5_stream" where
  "socks5_request udp_bind udp_addr s =
     bind_io (sk_read_exact 3 s) (\<lambda>buf s.
       if buf ! 0 \<noteq> SOCKS_VERSION then (Err (version_error (buf ! 0)), s)
       else bind_io (sk_read_address s) (\<lambda>address s.
         if buf ! 1 = CONNECT then
           bind_io (socks5_reply SUCCESS (sk_local_addr s) s) (\<lambda>_ s. (Ok (address, None), s))
         else (case udp_addr of
           Some u \<Rightarrow>
             if buf ! 1 = UDP_ASSOSIATE then
               bind_io (udp_bind (sock_ip u), s) (\<lambda>bound s.
                 let addr = SocketAddress bound in
                 bind_io (socks5_reply SUCCESS addr s) (\<lambda>_ s. (Ok (addr, Some bound), s)))
             else bind_io (socks5_reply COMMAND_NOT_SUPPORTED address s) (\<lambda>_ s.
               (Err (IoError Other (''socks command '' @ show_hex (unat (buf ! 1)) @ '' is not supported'')), s))
         | None \<Rightarrow>
             bind_io (socks5_reply COMMAND_NOT_SUPPORTED address s) (\<lambda>_ s.
               (Err (IoError Other (''socks command '' @ show_hex (unat (buf ! 1)) @ '' is not supported'')), s)))))"

text \<open>\<open>init\<close>: greeting, methods, authentication, request.\<close>

definition socks5_init ::
  "(bytes \<Rightarrow> nat) \<Rightarrow> (ip_addr \<Rightarrow> socket_addr res) \<Rightarrow> socket_addr option \<Rightarrow> socks5_stream \<Rightarrow>
     ((address \<times> socket_addr option) res \<times> socks5_stream) option" where
  "socks5_init chunk udp_bind udp_addr s =
     (case sk_read_exact 2 s of
        (Ok header, s) \<Rightarrow>
          if header ! 0 \<noteq> SOCKS_VERSION then
            Some (bind_io (sk_shutdown s) (\<lambda>_ s. (Err (version_error (header ! 0)), s)))
          else (case read_methods chunk (unat (header ! 1)) 0 (sk_rx s) (sk_read_buf s) of
                  None \<Rightarrow> None
                | Some (x, r, buf) \<Rightarrow>
                    Some (bind_io (x, s\<lparr>sk_rx := r, sk_read_buf := buf\<rparr>) (\<lambda>_ s.
                          bind_io (socks5_auth s) (\<lambda>_ s. socks5_request udp_bind udp_addr s))))
      | (Err e, s) \<Rightarrow> Some (Err e, s)
      | (Panic, s) \<Rightarrow> Some (Panic, s))"

section \<open>The datagram codec\<close>

definition socks5_udp_encode :: "bytes \<times> address \<Rightarrow> bytes \<Rightarrow> bytes" where
  "socks5_udp_encode item dst = write_to_buf (snd item) (dst @ [0, 0, 0]) @ fst item"

text \<open>The result and what is left in the buffer.\<close>

definition socks5_udp_decode :: "bytes \<Rightarrow> (address \<times> bytes) option res \<times> bytes" where
  "socks5_udp_decode src =
     (if length src < 3 then (Ok None, src)
      else if src ! 2 \<noteq> 0 then (Err (new_error ''socks5 frag packet is not supported!''), src)
      else case advance 3 src of
             Ok src \<Rightarrow>
               (case read_from_buf src of
                  Ok dst_addr \<Rightarrow>
                    (case advance (serialized_len dst_addr) src of
                       Ok src \<Rightarrow> (Ok (Some (dst_addr, src)), [])
                     | _ \<Rightarrow> (Panic, src))
                | Err e \<Rightarrow> (Err e, src)
                | Panic \<Rightarrow> (Panic, src))
           | _ \<Rightarrow> (Panic, src))"

section \<open>The handshake against a client that waits for the answers\<close>

lemma rx_bytes_append [simp]: "rx_bytes (r @ s) = rx_bytes r @ rx_bytes s"
  by (induction r rule: rx_bytes.induct) simp_all

lemma clean_append [simp]: "clean (r @ s) \<longleftrightarrow> clean r \<and> clean s"
  by (induction r rule: clean.induct) auto

text \<open>An exact read within a first part of the deliveries leaves the second part as it is.\<close>

lemma read_exact_acc_append:
  "clean r \<Longrightarrow> n \<le> length (rx_bytes r) \<Longrightarrow>
     \<exists>r'. read_exact_acc n acc (r @ s) = (Ok (acc @ take n (rx_bytes r)), r' @ s) \<and>
          rx_bytes r' = drop n (rx_bytes r) \<and> clean r'"
proof (induction n acc r rule: read_exact_acc.induct)
  case (1 n acc r)
  show ?case
  proof (cases "n = 0")
    case True
    with "1.prems" show ?thesis by auto
  next
    case False
    show ?thesis
    proof (cases r)
      case Nil
      with "1.prems" False show ?thesis by simp
    next
      case (Cons e t)
      then show ?thesis
        using 1 False
        by (cases e)
          (auto simp: read_exact_acc.simps [of n acc "RData _ # _"]
            read_exact_acc.simps [of n acc "RPending # _"])
    qed
  qed
qed

lemma read_exact_append:
  assumes "clean r" "rx_bytes r = bs @ rest" "length bs = n"
  shows "\<exists>r'. read_exact n (r @ s) = (Ok bs, r' @ s) \<and> rx_bytes r' = rest \<and> clean r'"
  using read_exact_acc_append [of r n "[]" s] assms by (auto simp: read_exact_def)

lemma read_methods_append:
  "clean r \<Longrightarrow> chunky chunk \<Longrightarrow> length buf + length (rx_bytes r) < usize_max \<Longrightarrow>
     want = len + length (rx_bytes r) \<Longrightarrow>
     \<exists>r'. read_methods chunk want len (r @ s) buf = Some (Ok (), r' @ s, buf @ rx_bytes r) \<and>
       clean r' \<and> rx_bytes r' = []"
proof (induction r arbitrary: len buf rule: measure_induct_rule [of rx_size])
  case (less r)
  show ?case
  proof (cases "rx_bytes r = []")
    case True
    with less.prems show ?thesis
      by (intro exI [of _ r]) (subst read_methods.simps, simp)
  next
    case False
    then obtain e t where r: "r = e # t" by (cases r) auto
    have lt: "len < want" using less.prems(4) False by simp
    show ?thesis
    proof (cases e)
      case RPending
      have "read_methods chunk want len (r @ s) buf = read_methods chunk want len (t @ s) buf"
        using r RPending lt
        by (subst (1 2) read_methods.simps) simp
      with less.IH [of t buf len] less.prems r RPending show ?thesis by auto
    next
      case (RErr x)
      with less.prems(1) r show ?thesis by simp
    next
      case (RData bs)
      let ?n = "chunk buf" and ?t = "if length bs \<le> chunk buf then t else RData (drop (chunk buf) bs) # t"
      have n: "0 < ?n" "bs \<noteq> []" "clean t" using less.prems(1,2) r RData by (simp_all add: chunky_def)
      have um: "usize_max - length buf \<noteq> 0" using less.prems(3) by simp
      have tx: "take ?n bs @ rx_bytes ?t = rx_bytes r" "clean ?t" "rx_size ?t < rx_size r"
        using n r RData by auto
      have "poll_read_buf chunk (r @ s) buf = (Ready (Ok (length (take ?n bs))), ?t @ s, buf @ take ?n bs)"
        using um r RData by (simp add: poll_read_buf_def)
      then have rb: "read_buf_await chunk (r @ s) buf = (Ok (length (take ?n bs)), ?t @ s, buf @ take ?n bs)"
        using r RData by simp
      have step: "read_methods chunk want len (r @ s) buf =
          read_methods chunk want (len + length (take ?n bs)) (?t @ s) (buf @ take ?n bs)"
        using rb lt by (subst (1) read_methods.simps) simp
      have l: "length (take ?n bs) + length (rx_bytes ?t) = length (rx_bytes r)"
        using arg_cong [OF tx(1), of length] by (simp only: length_append)
      have "\<exists>r'. read_methods chunk want (len + length (take ?n bs)) (?t @ s) (buf @ take ?n bs) =
          Some (Ok (), r' @ s, (buf @ take ?n bs) @ rx_bytes ?t) \<and> clean r' \<and> rx_bytes r' = []"
        using less.prems(2,3,4) l by (intro less.IH [OF tx(3,2)]) simp_all
      with step tx(1) show ?thesis by (metis append_assoc)
    qed
  qed
qed

text \<open>At the end of the stream the loop goes on for ever.\<close>

lemma read_methods_eof: "len < want \<Longrightarrow> read_methods chunk want len [] buf = None"
proof -
  assume "len < want"
  have "r = [] \<longrightarrow> len < want \<longrightarrow> False" if "read_methods chunk want len r buf = Some y" for len r buf y
    using that
    by (rule read_methods.raw_induct [where P = "\<lambda>c want len r buf y. r = [] \<longrightarrow> len < want \<longrightarrow> False", rotated])
      (auto simp: poll_read_buf_def split: if_splits)
  with \<open>len < want\<close> show ?thesis by (cases "read_methods chunk want len [] buf") auto
qed

lemma sk_write_all_live:
  assumes "writer_live (sk_tx s)"
  shows "\<exists>w. sk_write_all bs s = (Ok (), s\<lparr>sk_tx := w\<rparr>) \<and> wr_sent w = wr_sent (sk_tx s) @ bs \<and> writer_live w"
  using write_all_live [OF assms, of bs] by (auto simp: sk_write_all_def)

text \<open>
  A client that offers methods without \<open>USER_PASS\<close>, and sends its request (in any pieces) only
  after the answer to them, is served.
\<close>

lemma socks5_init_connect:
  assumes g: "clean rg" "rx_bytes rg = [SOCKS_VERSION, of_nat (length methods)] @ methods"
      "length methods < 256" "NO_AUTH \<in> set methods" "USER_PASS \<notin> set methods"
    and q: "clean rq" "rx_bytes rq = [SOCKS_VERSION, CONNECT, rsv] @ encode_address a @ rest" "wire_ok a"
    and s: "sk_rx s = rg @ rq" "sk_read_buf s = []" "writer_live (sk_tx s)" and ch: "chunky chunk"
  shows "\<exists>s'. socks5_init chunk udp_bind udp_addr s = Some (Ok (a, None), s') \<and>
    rx_bytes (sk_rx s') = rest \<and> clean (sk_rx s') \<and> writer_live (sk_tx s') \<and>
    wr_sent (sk_tx s') = wr_sent (sk_tx s) @ [SOCKS_VERSION, NO_AUTH] @
      [SOCKS_VERSION, SUCCESS, 0] @ encode_address (sk_local_addr s)"
proof -
  let ?h = "[SOCKS_VERSION, of_nat (length methods)]"
  from read_exact_append [OF g(1,2), of 2 rq] obtain r1 where
    r1: "read_exact 2 (rg @ rq) = (Ok ?h, r1 @ rq)" "rx_bytes r1 = methods" "clean r1" by auto
  have un: "unat (of_nat (length methods) :: u8) = length methods"
    using g(3) by (simp add: unat_of_nat_u8)
  have um: "length methods < usize_max" using g(3) by (simp add: usize_max_def)
  have "\<exists>r2. read_methods chunk (length methods) 0 (r1 @ rq) [] = Some (Ok (), r2 @ rq, [] @ rx_bytes r1) \<and>
      clean r2 \<and> rx_bytes r2 = []"
    by (rule read_methods_append [OF r1(3) ch]) (simp_all add: r1(2) um)
  then obtain r2 where
    r2: "read_methods chunk (length methods) 0 (r1 @ rq) [] = Some (Ok (), r2 @ rq, methods)" "clean r2"
      "rx_bytes r2 = []" by (elim exE conjE) (simp add: r1(2))
  let ?s2 = "s\<lparr>sk_rx := r2 @ rq, sk_read_buf := methods\<rparr>"
  have start: "socks5_init chunk udp_bind udp_addr s =
      Some (bind_io (socks5_auth ?s2) (\<lambda>_ s. socks5_request udp_bind udp_addr s))"
    using s(1,2) r1(1) r2(1) un by (simp add: socks5_init_def sk_read_exact_def)
  from sk_write_all_live [of ?s2 "[SOCKS_VERSION, NO_AUTH]"] s(3) obtain w1 where
    w1: "sk_write_all [SOCKS_VERSION, NO_AUTH] ?s2 = (Ok (), ?s2\<lparr>sk_tx := w1\<rparr>)"
      "wr_sent w1 = wr_sent (sk_tx s) @ [SOCKS_VERSION, NO_AUTH]" "writer_live w1" by auto
  let ?s3 = "?s2\<lparr>sk_tx := w1\<rparr>"
  have auth: "socks5_auth ?s2 = (Ok (), ?s3)" using g(4,5) w1(1) by (simp add: socks5_auth_def)
  have c3: "clean (r2 @ rq)" "rx_bytes (r2 @ rq) = [SOCKS_VERSION, CONNECT, rsv] @ (encode_address a @ rest)"
    using q(1,2) r2 by simp_all
  from read_exact_clean [OF c3, of 3] obtain r3 where
    r3: "read_exact 3 (r2 @ rq) = (Ok [SOCKS_VERSION, CONNECT, rsv], r3)" "rx_bytes r3 = encode_address a @ rest"
      "clean r3" by auto
  from read_from_stream_complete [OF q(3) r3(3,2)] obtain r4 where
    r4: "read_from_stream r3 = (Ok a, r4)" "rx_bytes r4 = rest" "clean r4" by auto
  let ?reply = "[SOCKS_VERSION, SUCCESS, 0] @ encode_address (sk_local_addr s)"
  let ?s4 = "?s3\<lparr>sk_rx := r4, sk_read_buf := ?reply\<rparr>"
  from sk_write_all_live [of ?s4 ?reply] w1(3) obtain w2 where
    w2: "sk_write_all ?reply ?s4 = (Ok (), ?s4\<lparr>sk_tx := w2\<rparr>)" "wr_sent w2 = wr_sent w1 @ ?reply"
      "writer_live w2" by auto
  have "socks5_request udp_bind udp_addr ?s3 = (Ok (a, None), ?s4\<lparr>sk_tx := w2\<rparr>)"
    using r3(1) r4(1) w2(1)
    by (simp add: socks5_request_def sk_read_exact_def sk_read_address_def socks5_reply_def
        write_to_buf_append socks_consts)
  with start auth r4 w1(2) w2(2,3) show ?thesis by simp
qed

text \<open>
  Whatever the table of users holds, a client that gives a user and password is refused unless both
  are empty or an empty password is stored for their concatenation.
\<close>

lemma socks5_user_pass_refused:
  assumes c: "clean (sk_rx s)" "rx_bytes (sk_rx s) =
      [v, of_nat (length user)] @ user @ [of_nat (length pass)] @ pass @ rest"
      "length user < 256" "length pass < 256"
    and s: "writer_live (sk_tx s)" "sk_shutdown_res s = Ok ()"
    and u: "user @ pass \<noteq> []" "map_of (sk_authed_users s) (user @ pass) \<noteq> Some []"
  shows "\<exists>s'. socks5_user_pass s = (Err auth_failure, s') \<and> sk_closed s' \<and>
    wr_sent (sk_tx s') = wr_sent (sk_tx s) @ [SOCKS_VERSION, USER_PASS] @ [1, FAILURE]"
proof -
  from sk_write_all_live [OF s(1), of "[SOCKS_VERSION, USER_PASS]"] obtain w1 where
    w1: "sk_write_all [SOCKS_VERSION, USER_PASS] s = (Ok (), s\<lparr>sk_tx := w1\<rparr>)"
      "wr_sent w1 = wr_sent (sk_tx s) @ [SOCKS_VERSION, USER_PASS]" "writer_live w1" by blast
  from read_exact_clean [OF c(1,2), of 2] obtain r1 where
    r1: "read_exact 2 (sk_rx s) = (Ok [v, of_nat (length user)], r1)"
      "rx_bytes r1 = user @ ([of_nat (length pass)] @ pass @ rest)" "clean r1" by auto
  from read_exact_clean [OF r1(3,2) refl] obtain r2 where
    r2: "read_exact (length user) r1 = (Ok user, r2)"
      "rx_bytes r2 = [of_nat (length pass)] @ (pass @ rest)" "clean r2" by auto
  from read_exact_clean [OF r2(3,2), of 1] obtain r3 where
    r3: "read_exact 1 r2 = (Ok [of_nat (length pass)], r3)" "rx_bytes r3 = pass @ rest" "clean r3" by auto
  from read_exact_clean [OF r3(3,2) refl] obtain r4 where
    r4: "read_exact (length pass) r3 = (Ok pass, r4)" by auto
  have un: "unat (of_nat (length user) :: u8) = length user" "unat (of_nat (length pass) :: u8) = length pass"
    using c(3,4) by (simp_all add: unat_of_nat_u8)
  let ?s5 = "s\<lparr>sk_tx := w1, sk_rx := r4, sk_read_buf := user @ pass\<rparr>"
  from sk_write_all_live [of ?s5 "[1, FAILURE]"] w1(3) obtain w2 where
    w2: "sk_write_all [1, FAILURE] ?s5 = (Ok (), ?s5\<lparr>sk_tx := w2\<rparr>)"
      "wr_sent w2 = wr_sent w1 @ [1, FAILURE]" by auto
  have "socks5_user_pass s = (Err auth_failure, ?s5\<lparr>sk_tx := w2, sk_closed := True\<rparr>)"
    using w1(1) r1(1) r2(1) r3(1) r4 un u s(2) w2(1)
    by (auto simp: socks5_user_pass_def sk_read_exact_def sk_shutdown_def Let_def)
  with w1(2) w2(2) show ?thesis by simp
qed

section \<open>The datagram codec is a round trip\<close>

lemma socks5_udp_decode_encode:
  assumes "wire_ok a"
  shows "socks5_udp_decode (socks5_udp_encode (b, a) []) = (Ok (Some (a, b)), [])"
proof -
  have "read_from_buf (encode_address a @ b) = Ok a"
    using read_from_cursor_encode [OF assms] by (simp add: read_from_buf_def)
  moreover have "advance (serialized_len a) (encode_address a @ b) = Ok b"
    by (simp add: advance_def flip: length_encode_address)
  ultimately show ?thesis
    by (simp add: socks5_udp_decode_def socks5_udp_encode_def write_to_buf_append advance_def)
qed

section \<open>Dispatching datagrams to the outbounds\<close>

text \<open>
  \<open>Socks5UdpDatagram::run\<close>. The task that receives from the client routes each datagram and hands
  it to the writing task of that outbound, which it starts for the first one. The two are joined by
  a watch channel, which holds one value: \<open>ot_value\<close>, with \<open>ot_fresh\<close> for a value the writing task
  has not been told of. \<open>ot_started\<close>: the writing task has written the value it found first;
  \<open>ot_alive\<close>: it has not ended with an error; \<open>ot_sent\<close>: what the outbound was given.
\<close>

type_synonym packet5 = "address \<times> bytes"

record outbound_task =
  ot_value :: packet5
  ot_fresh :: bool
  ot_started :: bool
  ot_alive :: bool
  ot_sent :: "packet5 list"

record nat_map =
  nm_tasks :: "string \<Rightarrow> outbound_task option"
  nm_local_addr :: "socket_addr option"

definition nat_map_new :: nat_map where
  "nat_map_new = \<lparr>nm_tasks = Map.empty, nm_local_addr = None\<rparr>"

definition nat_get_sender :: "string \<Rightarrow> nat_map \<Rightarrow> outbound_task option" where
  "nat_get_sender ob s = nm_tasks s ob"

definition nat_insert :: "string \<Rightarrow> outbound_task \<Rightarrow> nat_map \<Rightarrow> nat_map" where
  "nat_insert ob t s = s\<lparr>nm_tasks := (nm_tasks s)(ob \<mapsto> t)\<rparr>"

text \<open>A send on the channel replaces the value; without a receiver it fails, which is ignored.\<close>

definition watch_send :: "packet5 \<Rightarrow> outbound_task \<Rightarrow> outbound_task" where
  "watch_send p t = (if ot_alive t then t\<lparr>ot_value := p, ot_fresh := True\<rparr> else t)"

text \<open>
  One datagram from the client at \<open>local_addr\<close>. \<open>inner ob\<close> is the builder of an outbound;
  \<open>build b target\<close> is \<open>build_udp\<close>, what it does to the network apart.
\<close>

definition nat_recv ::
  "(address \<Rightarrow> string) \<Rightarrow> (string \<Rightarrow> 'b option) \<Rightarrow> ('b \<Rightarrow> address \<Rightarrow> unit res) \<Rightarrow>
     packet5 \<Rightarrow> socket_addr \<Rightarrow> nat_map \<Rightarrow> nat_map res" where
  "nat_recv route inner build p local_addr s =
     (let s = (case nm_local_addr s of None \<Rightarrow> s\<lparr>nm_local_addr := Some local_addr\<rparr> | Some _ \<Rightarrow> s);
          ob = route (fst p)
      in case nat_get_sender ob s of
           Some t \<Rightarrow> Ok (nat_insert ob (watch_send p t) s)
         | None \<Rightarrow>
             (case inner ob of
                None \<Rightarrow> Panic
              | Some b \<Rightarrow>
                  map_res (\<lambda>_. nat_insert ob
                      \<lparr>ot_value = p, ot_fresh = False, ot_started = False, ot_alive = True, ot_sent = []\<rparr> s)
                    (build b (fst p))))"

text \<open>
  One round of the writing task of \<open>ob\<close>, where the outbound answers \<open>x\<close>: the value found first is
  written without being marked as seen; then a round waits for a fresh value.
\<close>

definition task_write :: "unit res \<Rightarrow> outbound_task \<Rightarrow> outbound_task" where
  "task_write x t =
     (case x of
        Ok u \<Rightarrow> t\<lparr>ot_sent := ot_sent t @ [ot_value t], ot_started := True\<rparr>
      | _ \<Rightarrow> t\<lparr>ot_alive := False\<rparr>)"

definition nat_write :: "unit res \<Rightarrow> string \<Rightarrow> nat_map \<Rightarrow> nat_map option" where
  "nat_write x ob s =
     (case nat_get_sender ob s of
        None \<Rightarrow> None
      | Some t \<Rightarrow>
          if \<not> ot_alive t then None
          else if \<not> ot_started t then Some (nat_insert ob (task_write x t) s)
          else if ot_fresh t then Some (nat_insert ob (task_write x (t\<lparr>ot_fresh := False\<rparr>)) s)
          else None)"

text \<open>The states the tasks can reach, in any interleaving, after the client's datagrams \<open>rs\<close>.\<close>

inductive nat_run ::
  "(address \<Rightarrow> string) \<Rightarrow> (string \<Rightarrow> 'b option) \<Rightarrow> ('b \<Rightarrow> address \<Rightarrow> unit res) \<Rightarrow>
     packet5 list \<Rightarrow> nat_map \<Rightarrow> bool" for route inner build where
  nr_start: "nat_run route inner build [] nat_map_new"
| nr_recv: "nat_run route inner build rs s \<Longrightarrow> nat_recv route inner build p l s = Ok s' \<Longrightarrow>
     nat_run route inner build (rs @ [p]) s'"
| nr_write: "nat_run route inner build rs s \<Longrightarrow> nat_write x ob s = Some s' \<Longrightarrow>
     nat_run route inner build rs s'"

text \<open>The datagrams of \<open>rs\<close> that are routed to \<open>ob\<close>.\<close>

definition routed :: "(address \<Rightarrow> string) \<Rightarrow> string \<Rightarrow> packet5 list \<Rightarrow> packet5 list" where
  "routed route ob rs = filter (\<lambda>p. route (fst p) = ob) rs"

lemma routed_append [simp]:
  "routed route ob (rs @ [p]) = routed route ob rs @ (if route (fst p) = ob then [p] else [])"
  by (simp add: routed_def)

text \<open>
  A task's value is the newest datagram of its outbound, and what it has sent, repetitions aside,
  is a part of them in order.
\<close>

definition task_ok :: "packet5 list \<Rightarrow> outbound_task \<Rightarrow> bool" where
  "task_ok ps t \<longleftrightarrow>
     (ot_alive t \<longrightarrow> ps \<noteq> [] \<and> ot_value t = last ps) \<and> subseq (remdups_adj (ot_sent t)) ps"

lemma remdups_adj_snoc:
  "remdups_adj (xs @ [x]) =
     (if xs \<noteq> [] \<and> last xs = x then remdups_adj xs else remdups_adj xs @ [x])"
  by (induction xs rule: remdups_adj.induct) auto

lemma subseq_butlast:
  assumes "subseq xs (ys @ [y])" "xs = [] \<or> last xs \<noteq> y"
  shows "subseq xs ys"
  using assms
proof (induction xs rule: rev_induct)
  case (snoc x xs)
  then have "x \<noteq> y" by simp
  from snoc.prems(1) obtain us vs where "us @ vs = xs @ [x]" "subseq us ys" "subseq vs [y]"
    by (auto simp: subseq_append_iff)
  moreover from this(3) have "vs = [] \<or> vs = [y]" by (cases vs) (auto simp: subseq_Cons2_iff split: if_splits)
  ultimately show ?case using \<open>x \<noteq> y\<close> by auto
qed simp

lemma task_ok_write:
  assumes "task_ok ps t" "ot_alive t"
  shows "task_ok ps (task_write x t)"
proof (cases x)
  case (Ok u)
  from assms have ps: "ps \<noteq> []" "ot_value t = last ps" "subseq (remdups_adj (ot_sent t)) ps"
    by (simp_all add: task_ok_def)
  have "subseq (remdups_adj (ot_sent t @ [last ps])) ps"
  proof (cases "ot_sent t \<noteq> [] \<and> last (ot_sent t) = last ps")
    case True
    with ps(3) show ?thesis by (simp add: remdups_adj_snoc)
  next
    case False
    have "subseq (remdups_adj (ot_sent t)) (butlast ps @ [last ps])"
      by (simp only: append_butlast_last_id [OF ps(1)] ps(3))
    moreover have "remdups_adj (ot_sent t) = [] \<or> last (remdups_adj (ot_sent t)) \<noteq> last ps"
      using False by (simp add: last_remdups_adj)
    ultimately have "subseq (remdups_adj (ot_sent t)) (butlast ps)" by (rule subseq_butlast)
    then have "subseq (remdups_adj (ot_sent t) @ [last ps]) (butlast ps @ [last ps])" by simp
    then show ?thesis unfolding append_butlast_last_id [OF ps(1)]
      using False by (auto simp: remdups_adj_snoc)
  qed
  with Ok ps show ?thesis by (simp add: task_write_def task_ok_def)
qed (use assms in \<open>simp_all add: task_write_def task_ok_def\<close>)

lemma task_ok_snoc: "task_ok ps t \<Longrightarrow> task_ok (ps @ [p]) (watch_send p t)"
  by (auto simp: task_ok_def watch_send_def intro: list_emb_prefix)

lemma nat_run_tasks:
  assumes "nat_run route inner build rs s" "nm_tasks s ob = Some t"
  shows "task_ok (routed route ob rs) t"
  using assms
proof (induction arbitrary: ob t)
  case nr_start
  then show ?case by (simp add: nat_map_new_def)
next
  case (nr_recv rs s p l s')
  show ?case
  proof (cases "route (fst p) = ob")
    case False
    with nr_recv show ?thesis
      by (auto simp: nat_recv_def nat_get_sender_def nat_insert_def Let_def res_simps split: option.splits)
  next
    case True
    have "nm_tasks (case nm_local_addr s of None \<Rightarrow> s\<lparr>nm_local_addr := Some l\<rparr> | Some _ \<Rightarrow> s) = nm_tasks s"
      by (simp split: option.splits)
    with nr_recv True show ?thesis
      by (cases "nm_tasks s ob")
        (auto simp: nat_recv_def nat_get_sender_def nat_insert_def Let_def task_ok_snoc res_simps
          split: option.splits, auto simp: task_ok_def)
  qed
next
  case (nr_write rs s x ob' s')
  then show ?case
    by (cases "ob = ob'")
      (auto simp: nat_write_def nat_get_sender_def nat_insert_def split: option.splits if_splits
        intro!: task_ok_write, auto simp: task_ok_def)
qed

section \<open>Datagrams back to the client\<close>

text \<open>
  Every outbound's reading task puts what it receives, with the address it came from, into a queue
  of 32 places and waits while the queue is full; one task takes them out, encodes them and sends
  them to the client, and ends when the socket refuses one.
\<close>

record nat_down =
  nd_queue :: "(bytes \<times> address) list"
  nd_socket :: "(bytes \<times> socket_addr) list"
  nd_alive :: bool

definition nat_down_new :: nat_down where
  "nat_down_new = \<lparr>nd_queue = [], nd_socket = [], nd_alive = True\<rparr>"

definition down_recv :: "bytes \<times> address \<Rightarrow> nat_down \<Rightarrow> nat_down option" where
  "down_recv p s =
     (if \<not> nd_alive s then Some s
      else if length (nd_queue s) < 32 then Some (s\<lparr>nd_queue := nd_queue s @ [p]\<rparr>)
      else None)"

definition down_send :: "unit res \<Rightarrow> socket_addr \<Rightarrow> nat_down \<Rightarrow> nat_down option" where
  "down_send x local_addr s =
     (case nd_queue s of
        [] \<Rightarrow> None
      | p # ps \<Rightarrow>
          (case x of
             Ok u \<Rightarrow> Some (s\<lparr>nd_queue := ps,
                         nd_socket := nd_socket s @ [(socks5_udp_encode p [], local_addr)]\<rparr>)
           | _ \<Rightarrow> Some (s\<lparr>nd_queue := [], nd_alive := False\<rparr>)))"

inductive down_run :: "socket_addr \<Rightarrow> (bytes \<times> address) list \<Rightarrow> nat_down \<Rightarrow> bool" for local_addr where
  nd_start: "down_run local_addr [] nat_down_new"
| nd_recv: "down_run local_addr rs s \<Longrightarrow> down_recv p s = Some s' \<Longrightarrow> down_run local_addr (rs @ [p]) s'"
| nd_send: "down_run local_addr rs s \<Longrightarrow> down_send x local_addr s = Some s' \<Longrightarrow> down_run local_addr rs s'"

text \<open>
  In every interleaving the client has been sent the first of the datagrams that came back, encoded
  and in order; while the sending task lives, the rest are in the queue.
\<close>

lemma down_run_fifo:
  assumes "down_run local_addr rs s"
  shows "\<exists>qs ps. rs = qs @ ps \<and> nd_socket s = map (\<lambda>p. (socks5_udp_encode p [], local_addr)) qs \<and>
    (nd_alive s \<longrightarrow> nd_queue s = ps) \<and> (\<not> nd_alive s \<longrightarrow> nd_queue s = []) \<and> length (nd_queue s) \<le> 32"
  using assms
proof induction
  case nd_start
  then show ?case by (simp add: nat_down_new_def)
next
  case (nd_recv rs s p s')
  then obtain qs ps where i: "rs = qs @ ps"
    "nd_socket s = map (\<lambda>p. (socks5_udp_encode p [], local_addr)) qs"
    "nd_alive s \<longrightarrow> nd_queue s = ps" "\<not> nd_alive s \<longrightarrow> nd_queue s = []" "length (nd_queue s) \<le> 32" by blast
  with nd_recv.hyps(2) show ?case
    by (intro exI [of _ qs] exI [of _ "ps @ [p]"]) (auto simp: down_recv_def split: if_splits)
next
  case (nd_send rs s x s')
  then obtain qs ps where i: "rs = qs @ ps"
    "nd_socket s = map (\<lambda>p. (socks5_udp_encode p [], local_addr)) qs"
    "nd_alive s \<longrightarrow> nd_queue s = ps" "\<not> nd_alive s \<longrightarrow> nd_queue s = []" "length (nd_queue s) \<le> 32" by blast
  from nd_send.hyps(2) obtain q qs' where q: "nd_queue s = q # qs'"
    by (auto simp: down_send_def split: list.splits)
  then have a: "nd_alive s" "ps = q # qs'" using i by auto
  show ?case
  proof (cases "\<exists>u. x = Ok u")
    case True
    with nd_send.hyps(2) i q a show ?thesis
      by (intro exI [of _ "qs @ [q]"] exI [of _ qs']) (auto simp: down_send_def)
  next
    case False
    then have "s' = s\<lparr>nd_queue := [], nd_alive := False\<rparr>"
      using nd_send.hyps(2) q by (auto simp: down_send_def split: res.splits)
    with i show ?thesis by (intro exI [of _ qs] exI [of _ ps]) simp
  qed
qed

end
