(* ===== verification/Server.thy ===== *)
theory Server
  imports Config Router_Proofs Socks5 Address_Text
begin

text \<open>
  What the server does with an accepted connection: \<open>src/config/server_builder.rs\<close>, the HTTP inbound
  of \<open>src/proxy/http\<close> and the statistics of \<open>src/api/mod.rs\<close>. Listeners, tasks and the HTTP and gRPC
  libraries are outside; modelled is which outbound a connection is handed to, which counters its
  relay gets and which lookups may panic. A plan is what the call of \<open>relay\<close> gets.
\<close>

section \<open>The counters\<close>

definition counter_name :: "string \<Rightarrow> string \<Rightarrow> string \<Rightarrow> string" where
  "counter_name side tag dir = side @ ''>>>'' @ tag @ ''>>>traffic>>>'' @ dir"

text \<open>
  The keys of \<open>COUNTER_MAP\<close>, filled when the API server is enabled: both directions of every
  outbound, of every inbound and of the transparent inbound.
\<close>

definition counter_keys :: "('m, 'r) config_server \<Rightarrow> string set" where
  "counter_keys sv =
     (\<Union>k \<in> dom (sv_inner_map sv).
        {counter_name ''outbound'' k ''uplink'', counter_name ''outbound'' k ''downlink''}) \<union>
     (\<Union>k \<in> set (sv_inbounds sv).
        {counter_name ''inbound'' (ib_tag k) ''uplink'', counter_name ''inbound'' (ib_tag k) ''downlink''}) \<union>
     {counter_name ''inbound'' ''dokodemo'' ''uplink'', counter_name ''inbound'' ''dokodemo'' ''downlink''}"

definition find_counter :: "('m, 'r) config_server \<Rightarrow> string \<Rightarrow> string res" where
  "find_counter sv name = (if name \<in> counter_keys sv then Ok name else Panic)"

record traffic_counters =
  in_up :: string
  in_down :: string
  out_up :: string
  out_down :: string

section \<open>Handing a connection to an outbound\<close>

record 'io relay_plan =
  rp_outbound :: string
  rp_stream :: 'io
  rp_counters :: "traffic_counters option"
  rp_buffer_size :: nat

text \<open>The outbound's builder: a tag without one panics.\<close>

definition inner_builder :: "('m, 'r) config_server \<Rightarrow> string \<Rightarrow> chain res" where
  "inner_builder sv ob = (case sv_inner_map sv ob of Some c \<Rightarrow> Ok c | None \<Rightarrow> Panic)"

definition relay_counters ::
  "('m, 'r) config_server \<Rightarrow> string \<Rightarrow> string \<Rightarrow> traffic_counters option res" where
  "relay_counters sv inbound_tag ob =
     (if sv_enable_api_server sv then
        bind_res (find_counter sv (counter_name ''outbound'' ob ''downlink'')) (\<lambda>od.
        bind_res (find_counter sv (counter_name ''outbound'' ob ''uplink'')) (\<lambda>ou.
        bind_res (find_counter sv (counter_name ''inbound'' inbound_tag ''uplink'')) (\<lambda>iu.
        bind_res (find_counter sv (counter_name ''inbound'' inbound_tag ''downlink'')) (\<lambda>idn.
          Ok (Some \<lparr>in_up = iu, in_down = idn, out_up = ou, out_down = od\<rparr>)))))
      else Ok None)"

definition plan_to ::
  "'io network \<Rightarrow> ('m, 'r) config_server \<Rightarrow> string \<Rightarrow> address \<Rightarrow> string \<Rightarrow> 'io relay_plan res" where
  "plan_to N sv inbound_tag addr ob =
     bind_res (inner_builder sv ob) (\<lambda>c.
     bind_res (build_tcp N c addr) (\<lambda>io.
     bind_res (relay_counters sv inbound_tag ob) (\<lambda>ctrs.
       Ok \<lparr>rp_outbound = ob, rp_stream = io, rp_counters = ctrs,
           rp_buffer_size = sv_relay_buffer_size sv\<rparr>)))"

text \<open>A connection to \<open>addr\<close> from the inbound \<open>inbound_tag\<close>; no result when routing does not end.\<close>

definition serve_target ::
  "('m, 'r) router_lib \<Rightarrow> 'io network \<Rightarrow> ('m, 'r) config_server \<Rightarrow> string \<Rightarrow> address \<Rightarrow>
     'io relay_plan res option" where
  "serve_target L N sv inbound_tag addr =
     map_option (\<lambda>ob. bind_res ob (plan_to N sv inbound_tag addr)) (match_addr L (sv_router sv) addr)"

section \<open>Accepted connections\<close>

datatype 'io service =
    ServeHttp
  | ServeUdp socket_addr
  | ServeTcp "'io relay_plan" socks5_stream

text \<open>
  An inbound peeks at the first byte (0 when the peer has closed): anything but the SOCKS version
  goes to the HTTP server.
\<close>

definition serve_inbound ::
  "('m, 'r) router_lib \<Rightarrow> 'io network \<Rightarrow> (bytes \<Rightarrow> nat) \<Rightarrow> (ip_addr \<Rightarrow> socket_addr res) \<Rightarrow>
     ('m, 'r) config_server \<Rightarrow> inbounds \<Rightarrow> ip_addr \<Rightarrow> u8 \<Rightarrow> socks5_stream \<Rightarrow> 'io service res option" where
  "serve_inbound L N chunk udp_bind sv inb peer_ip header s =
     (if header \<noteq> SOCKS_VERSION then Some (Ok ServeHttp)
      else let addr = (if ib_enable_udp inb then Some (sock_addr_new peer_ip 0) else None) in
        case socks5_init chunk udp_bind addr s of
          None \<Rightarrow> None
        | Some (Ok (target, Some udp_socket), s) \<Rightarrow> Some (Ok (ServeUdp udp_socket))
        | Some (Ok (target, None), s) \<Rightarrow>
            map_option (map_res (\<lambda>plan. ServeTcp plan s)) (serve_target L N sv (ib_tag inb) target)
        | Some (Err e, s) \<Rightarrow> Some (Err e)
        | Some (Panic, s) \<Rightarrow> Some Panic)"

text \<open>
  The transparent inbound: with a configured target it connects there directly and is not counted;
  otherwise the address the connection was made to is routed.
\<close>

definition serve_dokodemo ::
  "'io network \<Rightarrow> ('m, 'r) config_server \<Rightarrow> dokodemo_door \<Rightarrow> socket_addr \<Rightarrow> 'io relay_plan res option" where
  "serve_dokodemo N sv door local_addr =
     (case dk_target_addr door of
        Some addr \<Rightarrow>
          Some (bind_res (connect_tcp N addr) (\<lambda>io.
            Ok \<lparr>rp_outbound = '''', rp_stream = io, rp_counters = None,
                rp_buffer_size = sv_relay_buffer_size sv\<rparr>))
      | None \<Rightarrow>
          map_option (\<lambda>ob. bind_res ob (plan_to N sv ''dokodemo'' (address_of_sock local_addr)))
            (match_socket_addr (sv_router sv) local_addr))"

section \<open>The HTTP inbound\<close>

text \<open>
  \<open>CONNECT\<close>: the authority of the URI, when it has one, must parse as an address. A tunnel to a
  blackhole ends at once.
\<close>

definition host_addr :: "(string \<Rightarrow> socket_addr option) \<Rightarrow> string option \<Rightarrow> address option" where
  "host_addr parse_socket_addr authority =
     (case authority of
        None \<Rightarrow> None
      | Some auth \<Rightarrow> (case address_from_str parse_socket_addr auth of Inr a \<Rightarrow> Some a | Inl _ \<Rightarrow> None))"

definition http_tunnel ::
  "('m, 'r) router_lib \<Rightarrow> 'io network \<Rightarrow> ('m, 'r) config_server \<Rightarrow> string \<Rightarrow> address \<Rightarrow>
     'io relay_plan option res option" where
  "http_tunnel L N sv inbound_tag addr =
     map_option (\<lambda>ob. bind_res ob (\<lambda>ob. bind_res (inner_builder sv ob) (\<lambda>c.
         if is_black_hole c then Ok None else map_res Some (plan_to N sv inbound_tag addr ob))))
       (match_addr L (sv_router sv) addr)"

text \<open>
  Other requests go through the connector of the HTTP client, for the URI's scheme and authority;
  a user before an at sign is cut off.
\<close>

definition http_connect ::
  "(string \<Rightarrow> socket_addr option) \<Rightarrow> ('m, 'r) router_lib \<Rightarrow> 'io network \<Rightarrow> ('m, 'r) config_server \<Rightarrow>
     string option \<Rightarrow> string option \<Rightarrow> 'io res option" where
  "http_connect parse_socket_addr L N sv scheme authority =
     (let is_tls_scheme = (case scheme of None \<Rightarrow> False | Some s \<Rightarrow> s = ''https'' \<or> s = ''wss'');
          addr = (case authority of None \<Rightarrow> [] | Some a \<Rightarrow> a)
      in case address_from_str parse_socket_addr (case after_at addr of Some a \<Rightarrow> a | None \<Rightarrow> addr) of
           Inr addr \<Rightarrow>
             if is_tls_scheme then
               Some (Err (IoError Other
                 ''HTTP inbound target URI is tls and the client is not using CONNECT method.''))
             else map_option (\<lambda>ob. bind_res ob (\<lambda>ob. bind_res (inner_builder sv ob) (\<lambda>c.
                 if is_black_hole c then Err (IoError Other ''HTTP inbound target URI is in blackhole'')
                 else build_tcp N c addr)))
               (match_addr L (sv_router sv) addr)
         | Inl _ \<Rightarrow> Some (Err (IoError Other ''URI must be a valid Address'')))"

text \<open>Headers that are not forwarded, whose names compare without regard to case.\<close>

definition proxy_headers :: "string list" where
  "proxy_headers = [''accept-encoding'', ''connection'', ''proxy-connection'', ''proxy-authenticate'',
     ''proxy-authorization'']"

definition remove_proxy_headers :: "(string \<times> 'v) list \<Rightarrow> (string \<times> 'v) list" where
  "remove_proxy_headers hs = filter (\<lambda>(k, v). k \<notin> set proxy_headers) hs"

text \<open>
  The answers of the inbound. A CONNECT request is answered at once and its tunnel started; the
  client's failure to pass another request on is an internal error. \<open>client\<close> is the HTTP client.
\<close>

datatype 'r http_answer = EmptyOk | BadRequest string | ServerError | Upstream 'r

definition proxy_connect ::
  "(string \<Rightarrow> socket_addr option) \<Rightarrow> string option \<Rightarrow> 'r http_answer \<times> address option" where
  "proxy_connect parse_socket_addr authority =
     (case host_addr parse_socket_addr authority of
        Some addr \<Rightarrow> (EmptyOk, Some addr)
      | None \<Rightarrow> (BadRequest ''CONNECT must be to a socket address'', None))"

definition http_proxy ::
  "((string \<times> 'v) list \<Rightarrow> 'r option) \<Rightarrow> (string \<times> 'v) list \<Rightarrow> 'r http_answer" where
  "http_proxy client headers =
     (case client (remove_proxy_headers headers) of None \<Rightarrow> ServerError | Some r \<Rightarrow> Upstream r)"

definition serve_http_request ::
  "(string \<Rightarrow> socket_addr option) \<Rightarrow> ((string \<times> 'v) list \<Rightarrow> 'r option) \<Rightarrow> string \<Rightarrow> string option \<Rightarrow>
     (string \<times> 'v) list \<Rightarrow> 'r http_answer \<times> address option" where
  "serve_http_request parse_socket_addr client meth authority headers =
     (if meth = ''CONNECT'' then proxy_connect parse_socket_addr authority
      else (http_proxy client headers, None))"

section \<open>Statistics\<close>

text \<open>\<open>get_stats\<close>: the value as a signed number, reset on demand.\<close>

definition get_stats ::
  "(string \<rightharpoonup> u64) \<Rightarrow> string \<Rightarrow> bool \<Rightarrow> (string + string \<times> int) \<times> (string \<rightharpoonup> u64)" where
  "get_stats counters name reset =
     (case counters name of
        Some v \<Rightarrow> (Inr (name, sint v), if reset then counters(name \<mapsto> 0) else counters)
      | None \<Rightarrow> (Inl ''name is invalid'', counters))"

text \<open>
  \<open>get_latency\<close> of one outbound or of all. \<open>build\<close> is the outcome of a connection through a chain
  and the milliseconds it took; \<open>probe\<close> of one that also writes, within five seconds.
\<close>

definition get_latency ::
  "(string \<Rightarrow> socket_addr option) \<Rightarrow> (chain \<Rightarrow> address \<Rightarrow> bool \<times> nat) \<Rightarrow> (chain \<Rightarrow> address \<Rightarrow> bool \<times> nat) \<Rightarrow>
     (string \<rightharpoonup> chain) \<Rightarrow> string option \<Rightarrow> string \<Rightarrow> string + (string \<rightharpoonup> int)" where
  "get_latency parse_socket_addr build probe inner_map outbound_name test_url =
     (case outbound_name of
        Some req \<Rightarrow>
          (case inner_map req of
             Some b \<Rightarrow>
               (case address_from_str parse_socket_addr test_url of
                  Inl _ \<Rightarrow> Inl ''test_url is invalid''
                | Inr addr \<Rightarrow> (case build b addr of (ok, ms) \<Rightarrow> Inr [req \<mapsto> if ok then int ms else - 1]))
           | None \<Rightarrow> Inl ''name is invalid'')
      | None \<Rightarrow>
          (case address_from_str parse_socket_addr test_url of
             Inl _ \<Rightarrow> Inl ''invalid test url''
           | Inr addr \<Rightarrow>
               Inr (\<lambda>name. map_option (\<lambda>b. case probe b addr of (ok, ms) \<Rightarrow> if ok then int ms else - 1)
                 (inner_map name))))"

section \<open>A server is built from a sound configuration\<close>

text \<open>The default outbound: the configured one, or the first outbound when none is configured.\<close>

definition server_default :: "config \<Rightarrow> string" where
  "server_default cf =
     (if cf_default_outbound cf = [] \<and> cf_outbounds cf \<noteq> [] then ob_tag (hd (cf_outbounds cf))
      else cf_default_outbound cf)"

lemma server_default_configured:
  "cf_outbounds cf \<noteq> [] \<Longrightarrow>
     cf_default_outbound cf = [] \<or> cf_default_outbound cf \<in> ob_tag ` set (cf_outbounds cf) \<Longrightarrow>
     server_default cf \<in> ob_tag ` set (cf_outbounds cf)"
  by (auto simp: server_default_def)

lemma build_server_correct:
  assumes "\<forall>out \<in> set (cf_outbounds cf). \<exists>cs. outbound_ok cf out cs" and "cf_outbounds cf \<noteq> []"
    and "cf_default_outbound cf = [] \<or> cf_default_outbound cf \<in> ob_tag ` set (cf_outbounds cf)"
    and "matchers_ok L dm rm"
    and "routing_ok L (cf_domain_routing_rules cf) (cf_ip_routing_rules cf)"
    and "cf_geosite_rules cf = []" "cf_geoip_rules cf = []" and "outbounds_load E cf (cf_outbounds cf)"
  shows "\<exists>sv. build_server E L C checks cf = Some (Ok sv) \<and>
    dom (sv_inner_map sv) = ob_tag ` set (cf_outbounds cf) \<and>
    default_outbound_tag (sv_router sv) = server_default cf \<and>
    (\<forall>tag ch. sv_inner_map sv tag = Some ch \<longrightarrow>
      (\<exists>out \<in> set (cf_outbounds cf). \<exists>cs. ob_tag out = tag \<and> outbound_ok cf out cs \<and> chain_of E cs ch)) \<and>
    sv_inbounds sv = cf_inbounds cf \<and>
    build_router L C checks (cf_domain_routing_rules cf) (cf_ip_routing_rules cf) [] []
      (server_default cf) = Some (Ok (sv_router sv))"
proof -
  let ?default = "server_default cf"
  have "\<exists>cs. outbound_ok cf out cs" if "out \<in> set (cf_outbounds cf)" for out
    using assms(1) that by blast
  from build_chains_correct [of "cf_outbounds cf" cf E Map.empty, OF this assms(8)] obtain M where
    M: "build_inner_map E cf = Ok M" "dom M = ob_tag ` set (cf_outbounds cf)"
    "\<forall>tag ch. M tag = Some ch \<longrightarrow>
      (\<exists>out \<in> set (cf_outbounds cf). \<exists>cs. ob_tag out = tag \<and> outbound_ok cf out cs \<and> chain_of E cs ch)"
    by (auto simp: build_inner_map_def)
  from build_router_correct [OF assms(4,5), of C checks ?default] obtain rt where
    rt: "build_router L C checks (cf_domain_routing_rules cf) (cf_ip_routing_rules cf) [] [] ?default =
      Some (Ok rt)" "default_outbound_tag rt = ?default" by blast
  have "?default \<in> dom M" using server_default_configured [OF assms(2,3)] by (simp only: M(2))
  then obtain ch where "M ?default = Some ch" by blast
  with M rt assms(6,7) show ?thesis
    by (simp add: build_server_def config_server_new_def flip: server_default_def)
qed

text \<open>It is not when the certificates of a hop do not load: building the server panics.\<close>

lemma build_server_Panic:
  assumes "\<forall>out \<in> set (cf_outbounds cf). \<exists>cs. outbound_ok cf out cs"
    and "\<not> outbounds_load E cf (cf_outbounds cf)"
  shows "build_server E L C checks cf = Some Panic"
  using build_chains_Panic [OF _ assms(2)] assms(1) by (simp add: build_server_def build_inner_map_def Let_def)

text \<open>Its counters are there for every inbound and outbound.\<close>

lemma relay_counters_found:
  assumes "ob \<in> dom (sv_inner_map sv)" "tag \<in> insert ''dokodemo'' (ib_tag ` set (sv_inbounds sv))"
  shows "relay_counters sv tag ob = Ok (if sv_enable_api_server sv then
      Some \<lparr>in_up = counter_name ''inbound'' tag ''uplink'', in_down = counter_name ''inbound'' tag ''downlink'',
            out_up = counter_name ''outbound'' ob ''uplink'', out_down = counter_name ''outbound'' ob ''downlink''\<rparr>
      else None)"
proof -
  have "counter_name ''outbound'' ob d \<in> counter_keys sv" "counter_name ''inbound'' tag d \<in> counter_keys sv"
    if "d \<in> {''uplink'', ''downlink''}" for d
    using that assms by (auto simp: counter_keys_def)
  then show ?thesis by (simp add: relay_counters_def find_counter_def)
qed

text \<open>
  The relay of a routed connection: its stream is the one its outbound builds, and a tag that is no
  outbound panics.
\<close>

definition plan_of :: "('m, 'r) config_server \<Rightarrow> string \<Rightarrow> string \<Rightarrow> 'io \<Rightarrow> 'io relay_plan" where
  "plan_of sv tag ob io = \<lparr>rp_outbound = ob, rp_stream = io,
     rp_counters = (if sv_enable_api_server sv then
       Some \<lparr>in_up = counter_name ''inbound'' tag ''uplink'', in_down = counter_name ''inbound'' tag ''downlink'',
             out_up = counter_name ''outbound'' ob ''uplink'', out_down = counter_name ''outbound'' ob ''downlink''\<rparr>
       else None),
     rp_buffer_size = sv_relay_buffer_size sv\<rparr>"

lemma plan_to_cases:
  assumes "tag \<in> insert ''dokodemo'' (ib_tag ` set (sv_inbounds sv))"
  shows "plan_to N sv tag a ob = (case sv_inner_map sv ob of
      Some c \<Rightarrow> map_res (plan_of sv tag ob) (build_tcp N c a) | None \<Rightarrow> Panic)"
proof (cases "sv_inner_map sv ob")
  case (Some c)
  then have "ob \<in> dom (sv_inner_map sv)" by blast
  from relay_counters_found [OF this assms]
  have "relay_counters sv tag ob = Ok (rp_counters (plan_of sv tag ob undefined))" by (simp add: plan_of_def)
  with Some show ?thesis
    by (cases "build_tcp N c a") (simp_all add: plan_to_def inner_builder_def plan_of_def)
qed (simp add: plan_to_def inner_builder_def)

text \<open>What becomes of a connection that is routed to a tag.\<close>

definition dispatched ::
  "'io network \<Rightarrow> ('m, 'r) config_server \<Rightarrow> string \<Rightarrow> address \<Rightarrow> string \<Rightarrow> 'io relay_plan res" where
  "dispatched N sv inbound_tag a t =
     (case sv_inner_map sv t of
        Some c \<Rightarrow> map_res (plan_of sv inbound_tag t) (build_tcp N c a)
      | None \<Rightarrow> Panic)"

lemma built_server_routes:
  assumes "\<forall>out \<in> set (cf_outbounds cf). \<exists>cs. outbound_ok cf out cs" and "cf_outbounds cf \<noteq> []"
    and "cf_default_outbound cf = [] \<or> cf_default_outbound cf \<in> ob_tag ` set (cf_outbounds cf)"
    and "matchers_ok L dm rm"
    and "routing_ok L (cf_domain_routing_rules cf) (cf_ip_routing_rules cf)"
    and "cf_geosite_rules cf = []" "cf_geoip_rules cf = []"
    and "build_server E L C checks cf = Some (Ok sv)"
  obtains t where "match_addr L (sv_router sv) a = Some (Ok t)"
    "rules_route L dm rm (cf_domain_routing_rules cf) (cf_ip_routing_rules cf) (server_default cf) a t"
    "dom (sv_inner_map sv) = ob_tag ` set (cf_outbounds cf)"
    "sv_inbounds sv = cf_inbounds cf"
proof -
  have "outbounds_load E cf (cf_outbounds cf)"
    using build_server_Panic [OF assms(1), of E L C checks] assms(8) by (cases "outbounds_load E cf (cf_outbounds cf)") auto
  from build_server_correct [OF assms(1-7) this, of C checks] assms(8) have
    sv: "dom (sv_inner_map sv) = ob_tag ` set (cf_outbounds cf)" "sv_inbounds sv = cf_inbounds cf"
      "build_router L C checks (cf_domain_routing_rules cf) (cf_ip_routing_rules cf) [] []
        (server_default cf) = Some (Ok (sv_router sv))" by auto
  from match_addr_rules [OF assms(4,5) sv(3), of a] sv(1,2) that show thesis by blast
qed

text \<open>Every way a connection comes in, in terms of the tag of its destination.\<close>

lemma serve_target_dispatched:
  assumes "match_addr L (sv_router sv) a = Some (Ok t)" "tag \<in> ib_tag ` set (sv_inbounds sv)"
  shows "serve_target L N sv tag a = Some (dispatched N sv tag a t)"
  using plan_to_cases [of tag sv N a t] assms by (simp add: serve_target_def dispatched_def)

lemma serve_inbound_dispatched:
  assumes "match_addr L (sv_router sv) a = Some (Ok t)" "inb \<in> set (sv_inbounds sv)"
    and "socks5_init chunk udp_bind (if ib_enable_udp inb then Some (sock_addr_new peer_ip 0) else None) s =
      Some (Ok (a, None), s')"
  shows "serve_inbound L N chunk udp_bind sv inb peer_ip SOCKS_VERSION s =
    Some (map_res (\<lambda>plan. ServeTcp plan s') (dispatched N sv (ib_tag inb) a t))"
  using serve_target_dispatched [OF assms(1), of "ib_tag inb" N] assms(2,3)
  by (simp add: serve_inbound_def Let_def)

lemma serve_dokodemo_dispatched:
  assumes "match_addr L (sv_router sv) (SocketAddress local) = Some (Ok t)" "dk_target_addr door = None"
  shows "serve_dokodemo N sv door local = Some (dispatched N sv ''dokodemo'' (SocketAddress local) t)"
  using plan_to_cases [of "''dokodemo''" sv N "SocketAddress local" t] assms
  by (simp add: serve_dokodemo_def match_socket_addr_eq [of _ _ L] address_of_sock_def dispatched_def)

lemma http_tunnel_dispatched:
  assumes "match_addr L (sv_router sv) a = Some (Ok t)" "tag \<in> ib_tag ` set (sv_inbounds sv)"
  shows "http_tunnel L N sv tag a =
    Some (if \<exists>c. sv_inner_map sv t = Some c \<and> is_black_hole c then Ok None
          else map_res Some (dispatched N sv tag a t))"
  using plan_to_cases [of tag sv N a t] assms
  by (cases "sv_inner_map sv t") (simp_all add: http_tunnel_def dispatched_def inner_builder_def)

lemma http_connect_dispatched:
  assumes "match_addr L (sv_router sv) a = Some (Ok t)" "scheme \<notin> {Some ''https'', Some ''wss''}"
    and "address_from_str p (case after_at auth of Some x \<Rightarrow> x | None \<Rightarrow> auth) = Inr a"
  shows "http_connect p L N sv scheme (Some auth) =
    Some (case sv_inner_map sv t of
        Some c \<Rightarrow> if is_black_hole c then Err (IoError Other ''HTTP inbound target URI is in blackhole'')
                 else build_tcp N c a
      | None \<Rightarrow> Panic)"
  using assms by (cases scheme; cases "sv_inner_map sv t") (auto simp: http_connect_def inner_builder_def Let_def)

end
