(* ===== verification/Sessions.thy ===== *)
theory Sessions
  imports Instances Simple_Obfs Server
begin

text \<open>
  End-to-end properties of the VMess connection, of the HTTP disguise, of the SOCKS5 inbound and of
  the dispatch of accepted connections. Each is followed by a witness at a concrete input.
\<close>

section \<open>VMess\<close>

text \<open>What a writer of chunks that starts fresh puts on the wire.\<close>

lemma vmess_writer_chunks:
  assumes "aead_ok lib" "12 \<le> length iv" "writer_live u" "wr_sent u = []"
    and "\<forall>m \<in> set ms. m \<noteq> [] \<and> length m \<le> vmess_max" "count_room checks 0 (length ms)"
    and "send_run (vmess_poll_write_encrypted lib checks) n ms (vmess_writer_new iv sec, u) = Some s"
  shows "wr_sent (snd s) = vmess_chunks lib sec iv 0 ms"
proof -
  have "vw_idle lib sec iv 0 (vmess_writer_new iv sec, u)"
    using assms by (simp add: vw_idle_def vmess_writer_new_def)
  from vmess_out.send_all [OF all_sendable [OF assms(5,6)] this] obtain m s' where
    "send_run (vmess_poll_write_encrypted lib checks) m ms (vmess_writer_new iv sec, u) = Some s'"
    "wr_sent (snd s') = vmess_chunks lib sec iv 0 ms"
    using assms(4) by (auto simp: vmess_chunks_def)
  with assms(7) show ?thesis using send_run_unique by metis
qed

text \<open>A reader of chunks that starts fresh gives back the messages.\<close>

lemma vmess_reader_messages:
  assumes "aead_ok lib" "12 \<le> length iv" "vmess_messages checks ms" "clean r"
    and "rx_bytes r = vmess_chunks lib sec iv 0 ms" "chunky chunk"
    and "\<forall>n \<in> set ns. 0 < n" "length (concat ms) + rx_size r < length ns"
  shows "read_run (vmess_poll_read_decrypted lib checks chunk) ns (vmess_reader_new iv sec, r) =
    (concat ms, True)"
proof -
  have "vr_source lib checks sec iv (concat ms) (vmess_reader_new iv sec, r)"
    by (rule vr_source_fresh [OF assms(1) vmess_reader_new_fresh assms(2,3,4)])
      (simp add: vmess_reader_new_def assms(5))
  with assms(6-8) show ?thesis by (intro vmess_in.read_all) auto
qed

text \<open>
  C25: a VMess upload. What a new connection puts on the wire, when a list of messages has been
  written to it over a transport that takes bytes in any pieces and delays, is opened by a server
  that knows the user: the request names the target and the security, and the body reader with the
  request's key and vector returns the messages' concatenation, whatever pieces it is delivered in.
\<close>
theorem vmess_upload_session:
  assumes "aead_ok (aead_lib.truncate lib)" "\<forall>k b. length (aes128 lib k b) = 16"
      "\<forall>x. length (sha256 x) = 32"
    and "vmess_stream_new lib md5 sha256 now opt (r0, w) rng = Some (Ok v, rng')"
    and "wire_ok (vo_addr opt)" "writer_live w" "wr_sent w = []"
    and "ms \<noteq> []" "\<forall>m \<in> set ms. m \<noteq> [] \<and> length m \<le> vmess_max" "count_room checks 0 (length ms)"
    and "send_run (poll_write_header (aead_lib.truncate lib) checks) n ms v = Some v'"
  shows "\<exists>data req body. open_request lib
        (md5 (vo_uuid opt @ as_bytes ''c48619fe-8f02-49e0-b9e9-edf763e17e21'')) (wr_sent (vt_tx v')) =
      Some (data, body) \<and> parse_request data = Some req \<and> rq_addr req = vo_addr opt \<and>
    rq_udp req = vo_is_udp opt \<and> rq_security req = vo_security_num opt \<and>
    (\<forall>key2 sec sec2 r chunk ns. vmess_securities md5 (rq_security req) (rq_key req) key2 = Ok (sec, sec2) \<longrightarrow>
      clean r \<longrightarrow> rx_bytes r = body \<longrightarrow> chunky chunk \<longrightarrow> (\<forall>n \<in> set ns. 0 < n) \<longrightarrow>
      length (concat ms) + rx_size r < length ns \<longrightarrow>
      read_run (vmess_poll_read_decrypted (aead_lib.truncate lib) checks chunk) ns
        (vmess_reader_new (rq_iv req) sec, r) = (concat ms, True))"
proof -
  let ?iv = "req_body_iv (vt_salt v)" and ?sec = "vw_security (vt_writer v)"
  let ?body = "vmess_chunks (aead_lib.truncate lib) ?sec ?iv 0 ms"
  note n = vmess_stream_new_Ok [OF assms(3,4)]
  from vmess_stream_sends [OF assms(1,3,4,6,8,9,10)] obtain m u where
    "send_run (poll_write_header (aead_lib.truncate lib) checks) m ms v = Some u"
    "wr_sent (vt_tx u) = vt_header_buffer v @ ?body" using assms(7) by auto
  with assms(11) have sent: "wr_sent (vt_tx v') = vt_header_buffer v @ ?body"
    using send_run_unique by metis
  from vmess_stream_new_request [OF assms(1-5), of ?body] obtain data where
    d: "open_request lib (md5 (vo_uuid opt @ as_bytes ''c48619fe-8f02-49e0-b9e9-edf763e17e21''))
        (vt_header_buffer v @ ?body) = Some (data, ?body)"
      "parse_request data = Some \<lparr>rq_iv = ?iv, rq_key = req_body_key (vt_salt v), rq_respv = vt_respv v,
         rq_option = 1, rq_security = vo_security_num opt, rq_udp = vo_is_udp opt,
         rq_addr = vo_addr opt\<rparr>" by blast
  have iv: "12 \<le> length ?iv" using n by (simp add: req_body_iv_def)
  have same: "sec = ?sec" if "vmess_securities md5 (vo_security_num opt) (req_body_key (vt_salt v)) key2 =
      Ok (sec, sec2)" for key2 sec sec2
    using that n by (auto simp: vmess_securities_def Let_def split: if_splits)
  have "vmess_messages checks ms" using assms(9,10) by (simp add: vmess_messages_def)
  note read = vmess_reader_messages [OF assms(1) iv this]
  show ?thesis
    unfolding sent by (intro exI conjI, rule d(1), rule d(2)) (auto dest!: same intro!: read)
qed

theorem vmess_upload_session_witness:
  "\<exists>v rng' n v'. vmess_stream_new plain_vmess_lib (zero_hash 16) (zero_hash 32) 0 demo_vmess
      ([], idle_writer [WAccept 3, WPending]) (replicate 100 1) = Some (Ok v, rng') \<and>
    send_run (poll_write_header plain_aead True) n [[1, 2], [3]] v = Some v' \<and>
    (\<exists>data req body. open_request plain_vmess_lib (replicate 16 0) (wr_sent (vt_tx v')) = Some (data, body) \<and>
      parse_request data = Some req \<and> rq_addr req = DomainNameAddress ''a.b'' 443 \<and>
      read_run (vmess_poll_read_decrypted plain_aead True (\<lambda>b. 64)) (replicate (2 * length body + 9) 7)
        (vmess_reader_new (rq_iv req) (VsAes128Gcm (rq_key req)), RPending # bytewise body) = ([1, 2, 3], True))"
proof -
  let ?w = "idle_writer [WAccept 3, WPending]"
  have lib: "aead_lib.truncate plain_vmess_lib = plain_aead"
    by (simp add: plain_vmess_lib_def aead_lib.defs plain_aead_def)
  have sha: "\<forall>x. length (zero_hash 32 x) = 32" by (simp add: zero_hash_def)
  have live: "writer_live ?w" "wr_sent ?w = []" by (simp_all add: writer_live_def idle_writer_def)
  have ms: "[[1, 2], [3 :: u8]] \<noteq> []" "\<forall>m \<in> set [[1, 2], [3 :: u8]]. m \<noteq> [] \<and> length m \<le> vmess_max"
    "count_room True 0 (length [[1, 2], [3 :: u8]])" by (simp_all add: vmess_max_def count_room_def)
  have addr: "wire_ok (vo_addr demo_vmess)" by (simp add: demo_vmess_def)
  obtain v rng' where v: "vmess_stream_new plain_vmess_lib (zero_hash 16) (zero_hash 32) 0 demo_vmess
      ([], ?w) (replicate 100 1) = Some (Ok v, rng')" using demo_vmess_new by blast
  from vmess_stream_sends [OF plain_aead_ok sha v live(1) ms] obtain n v' where
    s: "send_run (poll_write_header plain_aead True) n [[1, 2], [3]] v = Some v'" by blast
  note up = vmess_upload_session [OF plain_vmess_lib_ok sha v addr live ms, unfolded lib, OF s]
  obtain data req body where d:
    "open_request plain_vmess_lib (replicate 16 0) (wr_sent (vt_tx v')) = Some (data, body)"
    "parse_request data = Some req" "rq_addr req = DomainNameAddress ''a.b'' 443"
    "rq_security req = AES_128_GCM_SECURITY_NUM"
    and read: "\<forall>key2 sec sec2 r chunk ns.
      vmess_securities (zero_hash 16) (rq_security req) (rq_key req) key2 = Ok (sec, sec2) \<longrightarrow>
      clean r \<longrightarrow> rx_bytes r = body \<longrightarrow> chunky chunk \<longrightarrow> (\<forall>n \<in> set ns. 0 < n) \<longrightarrow>
      length (concat [[1, 2], [3]]) + rx_size r < length ns \<longrightarrow>
      read_run (vmess_poll_read_decrypted plain_aead True chunk) ns
        (vmess_reader_new (rq_iv req) sec, r) = (concat [[1, 2], [3]], True)"
    using up by (auto simp: demo_vmess_def zero_hash_def)
  have "vmess_securities (zero_hash 16) (rq_security req) (rq_key req) [] =
      Ok (VsAes128Gcm (rq_key req), VsAes128Gcm [])" by (simp add: vmess_securities_def d(4))
  from read [rule_format, OF this, of "RPending # bytewise body" "\<lambda>b. 64" "replicate (2 * length body + 9) 7"]
  have "read_run (vmess_poll_read_decrypted plain_aead True (\<lambda>b. 64)) (replicate (2 * length body + 9) 7)
      (vmess_reader_new (rq_iv req) (VsAes128Gcm (rq_key req)), RPending # bytewise body) = ([1, 2, 3], True)"
    by (simp add: chunky_def)
  with v s d show ?thesis by blast
qed

text \<open>
  C26: a VMess download. When the server answers with a response header sealed under the keys it
  derives from the request and with the chunks of the messages written to it, the reads of the
  client's stream return the concatenation of the messages and then the end, whatever pieces the
  bytes are delivered in and whatever room the reads offer.
\<close>
theorem vmess_download_session:
  assumes "aead_ok (aead_lib.truncate lib)" "\<forall>x. length (sha256 x) = 32"
    and "vmess_stream_new lib md5 sha256 now opt (r, w) rng = Some (Ok v, rng')"
    and "key = take 16 (sha256 (req_body_key (vt_salt v)))" "iv = take 16 (sha256 (req_body_iv (vt_salt v)))"
    and "h = vmess_header_reader_new (lib_hmac lib) key iv (vt_respv v)" "response_ok h p"
    and "vmess_securities md5 (vo_security_num opt) (req_body_key (vt_salt v)) key = Ok (sec1, sec2)"
    and "writer_live u" "wr_sent u = []" "\<forall>m \<in> set ms. m \<noteq> [] \<and> length m \<le> vmess_max"
      "count_room checks 0 (length ms)"
    and "send_run (vmess_poll_write_encrypted (aead_lib.truncate lib) checks) n ms
      (vmess_writer_new iv sec2, u) = Some s"
    and "clean r" "rx_bytes r = response_bytes (aead_lib.truncate lib) h p @ wr_sent (snd s)"
    and "chunky chunk" "\<forall>n \<in> set ns. 0 < n" "length (concat ms) + rx_size r < length ns"
  shows "read_run (poll_read_header (aead_lib.truncate lib) checks chunk) ns v = (concat ms, True)"
proof -
  note n = vmess_stream_new_Ok [OF assms(2,3)]
  have salt: "drop 32 (vt_salt v) = key @ iv" using n assms(4,5) by simp
  have len: "length key = 16" "length iv = 16" using assms(2,4,5) by simp_all
  have "drop 48 (vt_salt v) = drop 16 (drop 32 (vt_salt v))" by simp
  then have iv: "drop 48 (vt_salt v) = iv" unfolding salt using len by simp
  have key: "take 16 (drop 32 (vt_salt v)) = key" unfolding salt using len by simp
  have h: "vt_header_reader v = h" using n assms(6) key iv by simp
  have sec: "vr_security (vt_reader v) = sec2" using n assms(8) key by simp
  have "12 \<le> length iv" using len by simp
  from vmess_writer_chunks [OF assms(1) this assms(9-13)]
  have "rx_bytes r = response_bytes (aead_lib.truncate lib) h p @
    vmess_chunks (aead_lib.truncate lib) sec2 iv 0 ms" using assms(15) by simp
  moreover have "vmess_messages checks ms" using assms(11,12) by (simp add: vmess_messages_def)
  ultimately have "vt_source (aead_lib.truncate lib) checks sec2 iv p (concat ms) v"
    using vmess_stream_new_source [OF assms(1,2,3,14), of checks ms p] assms(7) h sec iv by simp
  moreover have "rx_size (vt_rx v) = rx_size r" using n by simp
  ultimately show ?thesis using assms(16-18) by (intro vmess_download.read_all) auto
qed

theorem vmess_download_session_witness:
  "\<exists>r v rng'. vmess_stream_new plain_vmess_lib (zero_hash 16) (zero_hash 32) 0 demo_vmess
      (r, idle_writer []) (replicate 100 1) = Some (Ok v, rng') \<and>
    read_run (poll_read_header plain_aead True (\<lambda>b. 64)) (replicate (rx_size r + 4) 2) v = ([1, 2, 3], True)"
proof -
  let ?ms = "[[1, 2], [3]] :: bytes list" and ?key = "replicate 16 0 :: bytes" and ?w = "idle_writer [WAccept 3, WPending]"
  let ?h = "vmess_header_reader_new (lib_hmac plain_vmess_lib) ?key ?key 1"
  have lib: "aead_lib.truncate plain_vmess_lib = plain_aead"
    by (simp add: plain_vmess_lib_def aead_lib.defs plain_aead_def)
  have sha: "\<forall>x. length (zero_hash 32 x) = 32" "take 16 (zero_hash 32 x) = ?key" for x
    by (simp_all add: zero_hash_def)
  have live: "writer_live ?w" "wr_sent ?w = []" by (simp_all add: writer_live_def idle_writer_def)
  have ms: "\<forall>m \<in> set ?ms. m \<noteq> [] \<and> length m \<le> vmess_max" "count_room True 0 (length ?ms)"
    by (simp_all add: vmess_max_def count_room_def)
  have "vw_idle plain_aead (VsAes128Gcm ?key) ?key 0 (vmess_writer_new ?key (VsAes128Gcm ?key), ?w)"
    using live by (simp add: vw_idle_def vmess_writer_new_def plain_aead_ok)
  from vmess_out.send_all [OF all_sendable [OF ms] this] obtain n s where
    s: "send_run (vmess_poll_write_encrypted plain_aead True) n ?ms
      (vmess_writer_new ?key (VsAes128Gcm ?key), ?w) = Some s" by blast
  let ?r = "RPending # bytewise (response_bytes plain_aead ?h [1, 0, 0, 0] @ wr_sent (snd s))"
  obtain v rng' where v: "vmess_stream_new plain_vmess_lib (zero_hash 16) (zero_hash 32) 0 demo_vmess
      (?r, idle_writer []) (replicate 100 1) = Some (Ok v, rng')" "vt_respv v = 1" using demo_vmess_new by blast
  have sec: "vmess_securities (zero_hash 16) (vo_security_num demo_vmess) k ?key =
      Ok (VsAes128Gcm k, VsAes128Gcm ?key)" for k
    by (simp add: vmess_securities_def demo_vmess_def)
  have "response_ok ?h [1, 0, 0, 0]" by (simp add: response_ok_def vmess_header_reader_new_def Let_def)
  note down = vmess_download_session [OF plain_vmess_lib_ok(1) sha(1) v(1) sha(2) [symmetric] sha(2) [symmetric]
      _ this sec live ms, unfolded lib, OF _ s]
  have "read_run (poll_read_header plain_aead True (\<lambda>b. 64)) (replicate (rx_size ?r + 4) 2) v = (concat ?ms, True)"
    by (rule down) (simp_all add: v(2) chunky_def)
  then have "read_run (poll_read_header plain_aead True (\<lambda>b. 64)) (replicate (rx_size ?r + 4) 2) v = ([1, 2, 3], True)"
    by (simp only: concat.simps append.simps append_Nil2)
  with v(1) show ?thesis by blast
qed

text \<open>
  C27: the nonce of a chunk is its number in 16 bits and the vector. With overflow checks the writer
  panics at chunk 65535; without them it goes on, and seals chunk \<open>i + 65536\<close> exactly as chunk \<open>i\<close>,
  under the same key and nonce. Fewer chunks have different nonces.
\<close>
theorem vmess_nonce_reuse:
  assumes "vw_idle lib sec iv i (v, w)" "m \<noteq> []" "length m \<le> vmess_max"
  shows "(i = 65535 \<longrightarrow> vmess_encrypted_buffer lib True m v = Panic) \<and>
    (\<exists>v'. vmess_encrypted_buffer lib False m v = Ok v' \<and> vw_buffer v' = vmess_chunk lib sec iv i m \<and>
       vw_count v' = of_nat (i + 1)) \<and>
    vmess_chunk lib sec iv (i + 65536) m = vmess_chunk lib sec iv i m \<and>
    (\<forall>j. vmess_nonce iv (of_nat j) = vmess_nonce iv (of_nat i) \<longleftrightarrow> j mod 65536 = i mod 65536)"
proof -
  have w: "(of_nat (j :: nat) :: u16) = of_nat i \<longleftrightarrow> j mod 65536 = i mod 65536" for j
    by (simp add: word_of_nat_eq_iff take_bit_eq_mod)
  have nonce: "vmess_nonce iv (of_nat j) = vmess_nonce iv (of_nat i) \<longleftrightarrow> j mod 65536 = i mod 65536" for j
    unfolding w [symmetric] vmess_nonce_def append_same_eq by (metis u16_of_be_put_u16)
  have "vmess_sendable False i m" using assms(2,3) by (simp add: vmess_sendable_def count_room_def)
  from vmess_encrypted_buffer_chunk [OF assms(1) this] obtain nonce where
    e: "vmess_encrypted_buffer lib False m v =
      Ok (v\<lparr>vw_data_len := length m, vw_buffer := vmess_chunk lib sec iv i m, vw_nonce := nonce,
            vw_count := of_nat (i + 1), vw_pos := 0\<rparr>)" by blast
  have "vmess_encrypted_buffer lib True m v = Panic" if "i = 65535"
  proof -
    have "vw_count v = - 1" using assms(1) that by (simp add: vw_idle_def)
    with e show ?thesis
      by (auto simp: vmess_encrypted_buffer_def Let_def u16_inc_def res_simps)
  qed
  moreover have "(of_nat (i + 65536) :: u16) = of_nat i" by simp
  then have "vmess_chunk lib sec iv (i + 65536) m = vmess_chunk lib sec iv i m"
    by (simp only: vmess_chunk_def)
  ultimately show ?thesis using e nonce by simp
qed

theorem vmess_nonce_reuse_witness:
  "\<exists>v w. vw_count v = 65535 \<and> vmess_encrypted_buffer plain_aead True [1] v = Panic \<and>
    vmess_chunk plain_aead (VsAes128Gcm []) (replicate 16 7) (3 + 65536) [1] =
    vmess_chunk plain_aead (VsAes128Gcm []) (replicate 16 7) 3 [1]"
proof -
  let ?v = "\<lambda>i. (vmess_writer_new (replicate 16 7) (VsAes128Gcm []))\<lparr>vw_count := of_nat i\<rparr>"
  have idle: "vw_idle plain_aead (VsAes128Gcm []) (replicate 16 7) i (?v i, idle_writer [])" for i
    by (simp add: vw_idle_def vmess_writer_new_def writer_live_def idle_writer_def plain_aead_ok)
  have "length [1 :: u8] \<le> vmess_max" by (simp add: vmess_max_def)
  from vmess_nonce_reuse [OF idle _ this, of 65535] vmess_nonce_reuse [OF idle _ this, of 3]
  show ?thesis by (intro exI [of _ "?v 65535"]) simp
qed

text \<open>
  C28: a chunk that declares fewer than the 16 bytes of its tag panics the reader as soon as its
  bytes are there. Lengths are sent in clear and are not authenticated.
\<close>
theorem vmess_short_chunk_panics:
  assumes "vr_state t = VrLength" "12 \<le> length (vr_iv t)"
    and "vr_buffer t = to_be 2 n @ bs @ rest" "length bs = n" "n < 16"
  shows "\<exists>s. vmess_poll_read_decrypted lib checks chunk room (t, r) = ((Ready Panic, []), s)"
proof -
  have "(of_nat n :: u16) = of_nat (unat (of_nat n :: u16))" "unat (of_nat n :: u16) = n"
    using assms(5) by (simp_all add: unat_of_nat)
  then have "to_be 2 n = put_u16 (of_nat n)" by (simp add: put_u16_def)
  then have g: "get_u16 (vr_buffer t) = Ok (of_nat n, bs @ rest)" "unat (of_nat n :: u16) = n"
    using assms(3,5) get_u16_put_u16 by (simp_all add: unat_of_nat)
  let ?t = "t\<lparr>vr_read_zero := vr_read_zero t, vr_read_res := Ready (Ok ()), vr_buffer := bs @ rest,
    vr_data_length := n, vr_state := VrPayload\<rparr>"
  have "2 \<le> length (vr_buffer t)" using assms(3) by simp
  then have "vr_step lib checks chunk room (t, r) = DrStep (?t, r)"
    using assms(1,5) g by (simp add: vr_step_def vr_await_def vr_length_def MAX_SIZE_def)
  moreover have "\<exists>s. vr_step lib checks chunk room (?t, r) = DrYield (Ready Panic) [] s"
    using assms(2,4,5)
    by (simp add: vr_step_def vr_await_def vr_payload_def construct_nonce_def vmess_decrypted_data_def
        decrypt_inplace_with_slice_def)
  ultimately show ?thesis
    by (subst vmess_poll_read_decrypted.simps, simp, subst vmess_poll_read_decrypted.simps) auto
qed

theorem vmess_short_chunk_panics_witness:
  "\<exists>s. vmess_poll_read_decrypted plain_aead False (\<lambda>b. 64) 10
    ((vmess_reader_new (replicate 16 0) (VsAes128Gcm []))\<lparr>vr_buffer := [0, 2, 5, 6]\<rparr>, []) =
    ((Ready Panic, []), s)"
  by (rule vmess_short_chunk_panics [where n = 2 and bs = "[5, 6]" and rest = "[]"])
    (simp_all add: vmess_reader_new_def to_be_2)

text \<open>
  C29: half of a ChaCha20 key is the same for every connection and every user: in both directions
  bytes 16 to 31 are computed from zeros only.
\<close>
theorem vmess_chacha20_half_key:
  assumes "\<forall>x. length (md5 x) = 16"
    and "vmess_securities md5 CHACHA20POLY1305_SECURITY_NUM req_key resp_key = Ok (sec1, sec2)"
  shows "vs_key sec1 = md5 req_key @ md5 (replicate 16 0) \<and>
    vs_key sec2 = md5 resp_key @ md5 (md5 (replicate 16 0))"
proof -
  have zeros: "drop 16 (copy_at (replicate 32 0) 0 (md5 req_key)) = replicate 16 0"
    using assms(1) by (simp add: copy_at_def)
  have "(4 :: u8) \<noteq> 3" by simp
  then show ?thesis using assms zeros
    by (auto simp: vmess_securities_def AES_128_GCM_SECURITY_NUM_def CHACHA20POLY1305_SECURITY_NUM_def
        Let_def copy_at_def)
qed

theorem vmess_chacha20_half_key_witness:
  "\<exists>sec1 sec2. vmess_securities first_16 CHACHA20POLY1305_SECURITY_NUM [1, 2] [3] = Ok (sec1, sec2) \<and>
    drop 16 (vs_key sec1) = replicate 16 0 \<and> drop 16 (vs_key sec2) = replicate 16 0"
proof -
  obtain sec1 sec2 where s: "vmess_securities first_16 CHACHA20POLY1305_SECURITY_NUM [1, 2] [3] = Ok (sec1, sec2)"
    by (auto simp: vmess_securities_def AES_128_GCM_SECURITY_NUM_def CHACHA20POLY1305_SECURITY_NUM_def Let_def)
  have "first_16 (replicate 16 0) = replicate 16 0" by (simp add: first_16_def)
  with vmess_chacha20_half_key [OF _ s] s show ?thesis by simp
qed


section \<open>SOCKS5\<close>

text \<open>
  C30: a SOCKS5 client is served. It offers methods without the password one, among them none, and
  sends a CONNECT request for an address, in any pieces, once it has the answer; the handshake then
  hands over that address, the client is told of success, and what follows the request is untouched.
\<close>
theorem socks5_connect_served:
  assumes "clean rg" "rx_bytes rg = [SOCKS_VERSION, of_nat (length methods)] @ methods"
      "length methods < 256" "NO_AUTH \<in> set methods" "USER_PASS \<notin> set methods"
    and "clean rq" "rx_bytes rq = [SOCKS_VERSION, CONNECT, rsv] @ write_to_buf a [] @ rest" "wire_ok a"
    and "writer_live w" "chunky chunk"
  shows "\<exists>s. socks5_init chunk udp_bind udp_addr (socks5_stream_new (rg @ rq) w shut local_addr) =
      Some (Ok (a, None), s) \<and>
    rx_bytes (sk_rx s) = rest \<and> clean (sk_rx s) \<and>
    wr_sent (sk_tx s) = wr_sent w @ [SOCKS_VERSION, NO_AUTH] @
      [SOCKS_VERSION, SUCCESS, 0] @ write_to_buf (SocketAddress local_addr) []"
proof -
  let ?s = "socks5_stream_new (rg @ rq) w shut local_addr"
  have s: "sk_rx ?s = rg @ rq" "sk_read_buf ?s = []" "writer_live (sk_tx ?s)" "sk_tx ?s = w"
    "sk_local_addr ?s = SocketAddress local_addr"
    using assms(9) by (simp_all add: socks5_stream_new_def)
  have "rx_bytes rq = [SOCKS_VERSION, CONNECT, rsv] @ encode_address a @ rest"
    using assms(7) by (simp add: encode_address_def)
  from socks5_init_connect [OF assms(1-6) this assms(8) s(1-3) assms(10), of udp_bind udp_addr]
  show ?thesis unfolding s(4,5) by (auto simp: encode_address_def)
qed

theorem socks5_connect_served_witness:
  "\<exists>s. socks5_init (\<lambda>b. 64) (\<lambda>ip. Panic) None (socks5_stream_new
      ([RData [5], RPending, RData [2, 1, 0]] @ [RData [5, 1, 0, 3, 3], RData [97, 46, 98, 1, 187, 9]])
      (idle_writer [WAccept 1]) (Ok ()) (SockV4 (Ipv4Addr 127 0 0 1) 1080)) =
    Some (Ok (DomainNameAddress ''a.b'' 443, None), s) \<and> rx_bytes (sk_rx s) = [9] \<and>
    wr_sent (sk_tx s) = [5, 0, 5, 0, 0, 1, 127, 0, 0, 1, 4, 56]"
proof -
  let ?rq = "[RData [5, 1, 0, 3, 3], RData [97, 46, 98, 1, 187, 9]]"
  have q: "rx_bytes ?rq = [SOCKS_VERSION, CONNECT, 0] @ write_to_buf (DomainNameAddress ''a.b'' 443) [] @ [9]"
    by code_simp
  have l: "write_to_buf (SocketAddress (SockV4 (Ipv4Addr 127 0 0 1) 1080)) [] = [1, 127, 0, 0, 1, 4, 56]"
    by code_simp
  have g: "clean [RData [5], RPending, RData [2, 1, 0]]"
    "rx_bytes [RData [5], RPending, RData [2, 1, 0]] = [SOCKS_VERSION, of_nat (length [1, 0 :: u8])] @ [1, 0]"
    "length [1, 0 :: u8] < 256" "NO_AUTH \<in> set [1, 0]" "USER_PASS \<notin> set [1, 0]"
    by (simp_all add: socks_consts)
  have "clean ?rq" "wire_ok (DomainNameAddress ''a.b'' 443)" "writer_live (idle_writer [WAccept 1])"
    "chunky (\<lambda>b. 64)" by (simp_all add: writer_live_def idle_writer_def chunky_def)
  from socks5_connect_served [OF g this(1) q this(2-4), of "\<lambda>ip. Panic" None "Ok ()" "SockV4 (Ipv4Addr 127 0 0 1) 1080"]
  show ?thesis unfolding l by (auto simp: idle_writer_def socks_consts)
qed

text \<open>
  C31: authentication by password never succeeds. Whatever users the table holds, a client that
  sends a user name and a password is told of failure and closed, unless both are empty or the table
  has their concatenation as a user with an empty password.
\<close>
theorem socks5_password_refused:
  assumes "clean (sk_rx s)" "rx_bytes (sk_rx s) =
      [v, of_nat (length user)] @ user @ [of_nat (length pass)] @ pass @ rest"
      "length user < 256" "length pass < 256"
    and "writer_live (sk_tx s)" "sk_shutdown_res s = Ok ()"
    and "user @ pass \<noteq> []" "map_of (sk_authed_users s) (user @ pass) \<noteq> Some []"
  shows "\<exists>s'. socks5_user_pass s = (Err auth_failure, s') \<and> sk_closed s' \<and>
    wr_sent (sk_tx s') = wr_sent (sk_tx s) @ [SOCKS_VERSION, USER_PASS] @ [1, FAILURE]"
  using assms by (rule socks5_user_pass_refused)

theorem socks5_password_refused_witness:
  "\<exists>s'. socks5_user_pass \<lparr>sk_rx = [RData [1, 2, 117, 118], RData [1, 112]], sk_tx = idle_writer [],
      sk_shutdown_res = Ok (), sk_closed = False, sk_read_buf = [2],
      sk_authed_users = [([117, 118], [112])], sk_local_addr = new_dummy_address\<rparr> =
    (Err auth_failure, s') \<and> wr_sent (sk_tx s') = [5, 2, 1, 1]"
proof -
  let ?s = "\<lparr>sk_rx = [RData [1, 2, 117, 118], RData [1, 112]], sk_tx = idle_writer [],
      sk_shutdown_res = Ok (), sk_closed = False, sk_read_buf = [2],
      sk_authed_users = [([117, 118], [112])], sk_local_addr = new_dummy_address\<rparr>"
  from socks5_password_refused [of ?s 1 "[117, 118]" "[112]" "[]"] show ?thesis
    by (auto simp: writer_live_def idle_writer_def socks_consts)
qed

text \<open>
  C32: datagrams and their outbounds. In every interleaving of the receiving task and the writing
  tasks, what an outbound has been given are datagrams of the client that are routed to it, in the
  order they came (some may be missing and a datagram may be repeated), and the value a live task
  will write next is the newest of them.
\<close>
theorem socks5_datagrams_routed:
  assumes "nat_run route inner build rs s" "nm_tasks s ob = Some t"
  shows "subseq (remdups_adj (ot_sent t)) (routed route ob rs) \<and>
    (ot_alive t \<longrightarrow> routed route ob rs \<noteq> [] \<and> ot_value t = last (routed route ob rs))"
  using nat_run_tasks [OF assms] by (simp add: task_ok_def)

text \<open>The first of two datagrams is lost, and the second is sent twice.\<close>

theorem socks5_datagrams_routed_witness:
  "\<exists>s t. nat_run (\<lambda>a. ''out'') [''out'' \<mapsto> ()] (\<lambda>b a. Ok ())
      [(new_dummy_address, [1]), (new_dummy_address, [2])] s \<and> nm_tasks s ''out'' = Some t \<and>
    ot_sent t = [(new_dummy_address, [2]), (new_dummy_address, [2])] \<and>
    ot_value t = (new_dummy_address, [2])"
proof -
  let ?run = "nat_run (\<lambda>a. ''out'') [''out'' \<mapsto> ()] (\<lambda>b a. Ok ())"
  let ?p = "(new_dummy_address, [1])" and ?q = "(new_dummy_address, [2])"
  let ?st = "\<lambda>v f b ps. \<lparr>nm_tasks = [''out'' \<mapsto> \<lparr>ot_value = v, ot_fresh = f, ot_started = b, ot_alive = True,
      ot_sent = ps\<rparr>], nm_local_addr = Some (SockV4 (Ipv4Addr 127 0 0 1) 9)\<rparr>"
  note simps = nat_recv_def nat_write_def nat_get_sender_def nat_insert_def watch_send_def task_write_def
    nat_map_new_def
  have "?run [] nat_map_new" by (rule nr_start)
  then have "?run ([] @ [?p]) (?st ?p False False [])" by (rule nr_recv) (simp add: simps)
  then have "?run (([] @ [?p]) @ [?q]) (?st ?q True False [])" by (rule nr_recv) (simp add: simps)
  then have "?run (([] @ [?p]) @ [?q]) (?st ?q True True [?q])"
    by (rule nr_write [where x = "Ok ()" and ob = "''out''"]) (simp add: simps)
  then have r: "?run (([] @ [?p]) @ [?q]) (?st ?q False True [?q, ?q])"
    by (rule nr_write [where x = "Ok ()" and ob = "''out''"]) (simp add: simps)
  from socks5_datagrams_routed [OF r, of "''out''"] r show ?thesis by auto
qed


section \<open>The HTTP disguise\<close>

text \<open>
  C33: the first write through the disguise completes, over a transport that takes bytes in any
  pieces and delays, and what has gone out is the head of an HTTP request that declares the length
  of the data, followed by the data; later writes go to the transport as they are.
\<close>
theorem obfs_first_write:
  assumes "writer_live w" "obfs_request H rnd host (length m) = Ok req"
  shows "\<exists>n h. send_run (obfs_poll_write H rnd) n [m] (http_obfs_new host (r, w)) = Some h \<and>
    wr_sent (ho_tx h) = wr_sent w @ req @ m \<and>
    (\<forall>H' rnd' buf. fst (obfs_poll_write H' rnd' buf h) = fst (poll_write buf (ho_tx h)) \<and>
       ho_tx (snd (obfs_poll_write H' rnd' buf h)) = snd (poll_write buf (ho_tx h)))"
proof -
  from obfs_first_write_sends [OF assms, of r] obtain n h where
    "send_run (obfs_poll_write H rnd) n [m] (http_obfs_new host (r, w)) = Some h"
    "wr_sent (ho_tx h) = wr_sent w @ req @ m" "ho_write_state h = OwStream" by blast
  then show ?thesis by (intro exI [of _ n] exI [of _ h]) (simp add: obfs_poll_write_def split: prod.splits)
qed

text \<open>A request that the library builds from no headers.\<close>

theorem obfs_first_write_witness:
  "\<exists>n h. send_run (obfs_poll_write \<lparr>hl_request = (\<lambda>u hs. Some (''GET'', ''/'', [])), hl_show_addr = (\<lambda>a. ''a.b''),
      hl_base64 = (\<lambda>b. '''')\<rparr> \<lparr>or_salt = [], or_minor = 1, or_patch = 2\<rparr>) n [[7]]
      (http_obfs_new (DomainNameAddress ''a.b'' 80) ([], idle_writer [WAccept 3, WPending])) = Some h \<and>
    wr_sent (ho_tx h) = as_bytes ''GET / HTTP/1.1'' @ [13, 10, 13, 10, 7]"
proof -
  let ?H = "\<lparr>hl_request = (\<lambda>u hs. Some (''GET'', ''/'', [])), hl_show_addr = (\<lambda>a. ''a.b''), hl_base64 = (\<lambda>b. '''')\<rparr>"
  have "obfs_request ?H \<lparr>or_salt = [], or_minor = 1, or_patch = 2\<rparr> (DomainNameAddress ''a.b'' 80) (length [7 :: u8]) =
      Ok (as_bytes ''GET / HTTP/1.1'' @ [13, 10, 13, 10])"
    by (simp add: obfs_request_def as_bytes_def line_end_def)
  moreover have "writer_live (idle_writer [WAccept 3, WPending])"
    by (simp add: writer_live_def idle_writer_def)
  ultimately have "\<exists>n h. send_run (obfs_poll_write ?H \<lparr>or_salt = [], or_minor = 1, or_patch = 2\<rparr>) n [[7]]
      (http_obfs_new (DomainNameAddress ''a.b'' 80) ([], idle_writer [WAccept 3, WPending])) = Some h \<and>
    wr_sent (ho_tx h) = wr_sent (idle_writer [WAccept 3, WPending]) @
      (as_bytes ''GET / HTTP/1.1'' @ [13, 10, 13, 10]) @ [7]"
    using obfs_first_write by blast
  then show ?thesis by (simp add: idle_writer_def)
qed

text \<open>
  A peer that closes before its answer is complete makes the reader spin: the poll does not return.
\<close>
theorem obfs_reader_spins_at_end:
  assumes "ho_read_state h = OrHead" "ho_rx h = []"
  shows "obfs_poll_read cap [] h = None"
  using assms obfs_head_eof [of "[]" cap] by (simp add: obfs_poll_read_def)

section \<open>The dispatch of connections\<close>

text \<open>
  C40: how a server dispatches what it accepts, when it is built from a configuration without geosite
  and geoip files. For every destination there is one tag, the one the rules say of it, the default
  being the configured one or the first outbound (\<open>rules_route\<close>): for IPv4 the outbound of the longest
  matching network, for names the first matching rule group, for IPv6 what is said of its low 32 bits.
  All paths go by this tag: a SOCKS5 \<open>CONNECT\<close> and a transparent connection to the destination are
  relayed over the stream the outbound's chain builds to it, with the counters of the inbound and the
  outbound, an HTTP \<open>CONNECT\<close> tunnel likewise unless the outbound is a black hole, and the client of
  other HTTP requests gets that stream, or an error for a black hole. A tag without an outbound panics
  on every path. A transparent inbound with a target of its own connects there directly.
\<close>
theorem connections_are_dispatched:
  assumes "\<forall>out \<in> set (cf_outbounds cf). \<exists>cs. outbound_ok cf out cs" and "cf_outbounds cf \<noteq> []"
    and "cf_default_outbound cf = [] \<or> cf_default_outbound cf \<in> ob_tag ` set (cf_outbounds cf)"
    and "matchers_ok L dm rm"
    and "routing_ok L (cf_domain_routing_rules cf) (cf_ip_routing_rules cf)"
    and "cf_geosite_rules cf = []" "cf_geoip_rules cf = []"
    and "build_server E L C checks cf = Some (Ok sv)" "inb \<in> set (cf_inbounds cf)"
  shows "dom (sv_inner_map sv) = ob_tag ` set (cf_outbounds cf) \<and>
    (\<exists>t. rules_route L dm rm (cf_domain_routing_rules cf) (cf_ip_routing_rules cf) (server_default cf) a t \<and>
      (\<forall>chunk udp_bind peer_ip s s'.
        socks5_init chunk udp_bind (if ib_enable_udp inb then Some (sock_addr_new peer_ip 0) else None) s =
          Some (Ok (a, None), s') \<longrightarrow>
        serve_inbound L N chunk udp_bind sv inb peer_ip SOCKS_VERSION s =
          Some (map_res (\<lambda>plan. ServeTcp plan s') (dispatched N sv (ib_tag inb) a t))) \<and>
      (\<forall>door local. a = SocketAddress local \<and> dk_target_addr door = None \<longrightarrow>
        serve_dokodemo N sv door local = Some (dispatched N sv ''dokodemo'' a t)) \<and>
      http_tunnel L N sv (ib_tag inb) a =
        Some (if \<exists>c. sv_inner_map sv t = Some c \<and> is_black_hole c then Ok None
              else map_res Some (dispatched N sv (ib_tag inb) a t)) \<and>
      (\<forall>p scheme auth. scheme \<notin> {Some ''https'', Some ''wss''} \<and>
        address_from_str p (case after_at auth of Some x \<Rightarrow> x | None \<Rightarrow> auth) = Inr a \<longrightarrow>
        http_connect p L N sv scheme (Some auth) =
          Some (case sv_inner_map sv t of
              Some c \<Rightarrow> if is_black_hole c then Err (IoError Other ''HTTP inbound target URI is in blackhole'')
                       else build_tcp N c a
            | None \<Rightarrow> Panic))) \<and>
    (\<forall>door local. dk_target_addr door = Some a \<longrightarrow> serve_dokodemo N sv door local =
      Some (map_res (\<lambda>io. \<lparr>rp_outbound = '''', rp_stream = io, rp_counters = None,
        rp_buffer_size = sv_relay_buffer_size sv\<rparr>) (connect_tcp N a)))"
proof -
  from built_server_routes [OF assms(1-8), of a] obtain t where
    t: "match_addr L (sv_router sv) a = Some (Ok t)"
      "rules_route L dm rm (cf_domain_routing_rules cf) (cf_ip_routing_rules cf) (server_default cf) a t"
      "dom (sv_inner_map sv) = ob_tag ` set (cf_outbounds cf)" "sv_inbounds sv = cf_inbounds cf" by blast
  have inb: "inb \<in> set (sv_inbounds sv)" "ib_tag inb \<in> ib_tag ` set (sv_inbounds sv)"
    using t(4) assms(9) by simp_all
  show ?thesis
  proof (intro conjI exI [of _ t] allI impI)
    fix door :: dokodemo_door and local assume "a = SocketAddress local \<and> dk_target_addr door = None"
    then show "serve_dokodemo N sv door local = Some (dispatched N sv ''dokodemo'' a t)"
      using serve_dokodemo_dispatched [of L sv local t door N] t(1) by simp
  next
    fix door :: dokodemo_door and local assume "dk_target_addr door = Some a"
    then show "serve_dokodemo N sv door local =
      Some (map_res (\<lambda>io. \<lparr>rp_outbound = '''', rp_stream = io, rp_counters = None,
        rp_buffer_size = sv_relay_buffer_size sv\<rparr>) (connect_tcp N a))"
      by (cases "connect_tcp N a") (simp_all add: serve_dokodemo_def)
  next
    fix p :: "string \<Rightarrow> socket_addr option" and scheme auth
    assume "scheme \<notin> {Some ''https'', Some ''wss''} \<and>
      address_from_str p (case after_at auth of Some x \<Rightarrow> x | None \<Rightarrow> auth) = Inr a"
    then show "http_connect p L N sv scheme (Some auth) =
      Some (case sv_inner_map sv t of
          Some c \<Rightarrow> if is_black_hole c then Err (IoError Other ''HTTP inbound target URI is in blackhole'')
                   else build_tcp N c a
        | None \<Rightarrow> Panic)"
      using http_connect_dispatched [of L sv a t scheme p auth N] t(1) by blast
  qed (use t(2,3) in \<open>simp_all only: serve_inbound_dispatched [OF t(1) inb(1)]
      http_tunnel_dispatched [OF t(1) inb(2)]\<close>)
qed

theorem connections_are_dispatched_witness:
  "\<exists>sv c. build_server demo_tls_env eq_router_lib empty_files True demo_config = Some (Ok sv) \<and>
    sv_inner_map sv ''out'' = Some c \<and>
    serve_dokodemo demo_network sv \<lparr>dk_tproxy = False, dk_addr = new_dummy_address, dk_target_addr = None\<rparr>
        (SockV4 (Ipv4Addr 10 1 2 3) 80) =
      Some (map_res (plan_of sv ''dokodemo'' ''out'')
        (build_tcp demo_network c (SocketAddress (SockV4 (Ipv4Addr 10 1 2 3) 80))))"
proof -
  let ?sock = "SockV4 (Ipv4Addr 10 1 2 3) 80"
  let ?door = "\<lparr>dk_tproxy = False, dk_addr = new_dummy_address, dk_target_addr = None\<rparr>"
  have d: "cf_outbounds demo_config \<noteq> []" "cf_default_outbound demo_config = [] \<or>
      cf_default_outbound demo_config \<in> ob_tag ` set (cf_outbounds demo_config)"
    "cf_geosite_rules demo_config = []" "cf_geoip_rules demo_config = []" by simp_all
  from build_server_correct [OF demo_config_ok(1) d(1,2) eq_router_lib_ok demo_config_ok(3) d(3,4) demo_config_loads]
  obtain sv where sv: "build_server demo_tls_env eq_router_lib empty_files True demo_config = Some (Ok sv)" by blast
  have inb: "\<lparr>ib_addr = new_dummy_address, ib_enable_udp = False, ib_tag = ''in''\<rparr> \<in> set (cf_inbounds demo_config)"
    by simp
  have key: "socket_addr_v4_to_u32 (Ipv4Addr 10 1 2 3) = 0x0A010203"
    by (simp add: socket_addr_v4_to_u32_def of_be_def)
  have lpm: "lpm (rule_map (v4_table eq_router_lib [\<lparr>ir_tag = ''out'', cidr_rules = [''10.0.0.0/8'']\<rparr>]))
      (key_bits (0x0A010203 :: u32)) = Some ''out''"
    by code_simp
  have route: "t = ''out''" if "rules_route eq_router_lib (\<lambda>r t s. r = s) (\<lambda>e s. e = s)
      (cf_domain_routing_rules demo_config) (cf_ip_routing_rules demo_config) (server_default demo_config)
      (SocketAddress ?sock) t" for t
    using that by (simp add: key lpm network_tag_def)
  from connections_are_dispatched [OF demo_config_ok(1) d(1,2) eq_router_lib_ok demo_config_ok(3) d(3,4) sv inb,
      of "SocketAddress ?sock" demo_network] obtain t where
    t: "dom (sv_inner_map sv) = ob_tag ` set (cf_outbounds demo_config)"
      "rules_route eq_router_lib (\<lambda>r t s. r = s) (\<lambda>e s. e = s)
        (cf_domain_routing_rules demo_config) (cf_ip_routing_rules demo_config) (server_default demo_config)
        (SocketAddress ?sock) t"
      "\<forall>door local. SocketAddress ?sock = SocketAddress local \<and> dk_target_addr door = None \<longrightarrow>
        serve_dokodemo demo_network sv door local =
          Some (dispatched demo_network sv ''dokodemo'' (SocketAddress ?sock) t)"
    by (elim conjE exE)
  have "''out'' \<in> dom (sv_inner_map sv)" unfolding t(1) by simp
  then obtain c where "sv_inner_map sv ''out'' = Some c" by blast
  moreover from t(3) [rule_format, of ?sock ?door] route [OF t(2)]
  have "serve_dokodemo demo_network sv ?door ?sock =
      Some (dispatched demo_network sv ''dokodemo'' (SocketAddress ?sock) ''out'')" by simp
  ultimately show ?thesis using sv by (simp add: dispatched_def)
qed

end
