(* ===== verification/Websocket.thy ===== *)
theory Websocket
  imports Datagram Address_Text
begin

text \<open>
  The WebSocket hop: \<open>src/proxy/websocket/mod.rs\<close> and \<open>ws_early_data.rs\<close>. The tungstenite library is
  the transport here: it delivers and takes whole messages, as a script says. Building the HTTP
  request is the \<open>http\<close> crate's; \<open>hn\<close> is its normal form of header names.
\<close>

section \<open>A stream over messages\<close>

datatype ws_message = WsBinary bytes | WsText string | WsPing bytes | WsPong bytes | WsClose

datatype ws_event = WePending | WeMessage ws_message | WeError string

text \<open>
  What the library answers to \<open>poll_ready\<close>, and to \<open>start_send\<close> once it is ready; it is ready when
  the script is empty.
\<close>

datatype ws_send_event = WaPending | WaReadyError string | WaSendError string | WaReady

record ws_stream =
  ws_rx :: "ws_event list"
  ws_tx :: "ws_send_event list"
  ws_sent :: "ws_message list"
  ws_flush_res :: "unit poll"
  ws_close_res :: "unit poll"
  ws_read_buffer :: "bytes option"

definition ws_stream_new ::
  "ws_event list \<Rightarrow> ws_send_event list \<Rightarrow> unit poll \<Rightarrow> unit poll \<Rightarrow> ws_stream" where
  "ws_stream_new rx tx fl cl =
     \<lparr>ws_rx = rx, ws_tx = tx, ws_sent = [], ws_flush_res = fl, ws_close_res = cl, ws_read_buffer = None\<rparr>"

text \<open>The first branch of the loop: deliver what is buffered.\<close>

definition ws_put :: "nat \<Rightarrow> bytes \<Rightarrow> ws_stream \<Rightarrow> (unit poll \<times> bytes) \<times> ws_stream" where
  "ws_put n read_buffer s =
     (if length read_buffer \<le> n then ((Ready (Ok ()), read_buffer), s\<lparr>ws_read_buffer := None\<rparr>)
      else ((Ready (Ok ()), take n read_buffer), s\<lparr>ws_read_buffer := Some (drop n read_buffer)\<rparr>))"

definition ws_poll_read ::
  "(ws_message \<Rightarrow> string) \<Rightarrow> nat \<Rightarrow> ws_stream \<Rightarrow> (unit poll \<times> bytes) \<times> ws_stream" where
  "ws_poll_read show_message n s =
     (case ws_read_buffer s of
        Some read_buffer \<Rightarrow> ws_put n read_buffer s
      | None \<Rightarrow>
          (case ws_rx s of
             [] \<Rightarrow> ((Ready (Err (new_error ''websocket stream drained'')), []), s)
           | e # es \<Rightarrow>
               (let s = s\<lparr>ws_rx := es\<rparr> in
                case e of
                  WePending \<Rightarrow> ((Pending, []), s)
                | WeError msg \<Rightarrow> ((Ready (Err (new_error msg)), []), s)
                | WeMessage (WsBinary binary) \<Rightarrow>
                    if length binary < n then ((Ready (Ok ()), binary), s)
                    else ws_put n binary s
                | WeMessage WsClose \<Rightarrow> ((Ready (Ok ()), []), s)
                | WeMessage other \<Rightarrow>
                    ((Ready (Err (new_error (''invalid message type '' @ show_message other))), []), s))))"

definition ws_poll_write :: "bytes \<Rightarrow> ws_stream \<Rightarrow> nat poll \<times> ws_stream" where
  "ws_poll_write buf s =
     (case ws_tx s of
        [] \<Rightarrow> (Ready (Ok (length buf)), s\<lparr>ws_sent := ws_sent s @ [WsBinary buf]\<rparr>)
      | e # es \<Rightarrow>
          (let s = s\<lparr>ws_tx := es\<rparr> in
           case e of
             WaPending \<Rightarrow> (Pending, s)
           | WaReadyError msg \<Rightarrow> (Ready (Err (IoError Other msg)), s)
           | WaSendError msg \<Rightarrow> (Ready (Err (IoError Other msg)), s)
           | WaReady \<Rightarrow> (Ready (Ok (length buf)), s\<lparr>ws_sent := ws_sent s @ [WsBinary buf]\<rparr>)))"

definition ws_poll_flush :: "ws_stream \<Rightarrow> unit poll" where
  "ws_poll_flush s = ws_flush_res s"

text \<open>The result of sending the close message is dropped.\<close>

definition ws_poll_shutdown :: "ws_stream \<Rightarrow> unit poll \<times> ws_stream" where
  "ws_poll_shutdown s =
     (case ws_tx s of
        [] \<Rightarrow> (ws_close_res s, s\<lparr>ws_sent := ws_sent s @ [WsClose]\<rparr>)
      | e # es \<Rightarrow>
          (let s = s\<lparr>ws_tx := es\<rparr> in
           case e of
             WaPending \<Rightarrow> (Pending, s)
           | WaReadyError msg \<Rightarrow> (Ready (Err (IoError Other msg)), s)
           | WaSendError msg \<Rightarrow> (ws_close_res s, s)
           | WaReady \<Rightarrow> (ws_close_res s, s\<lparr>ws_sent := ws_sent s @ [WsClose]\<rparr>)))"

section \<open>The request\<close>

record http_req =
  hq_uri :: string
  hq_headers :: "(string \<times> string) list"

text \<open>
  The library: the authority of a URI, the random key, whether it accepts a header, the normal form
  of header names and the encoding of early data.
\<close>

record ws_lib =
  wl_authority :: "string \<Rightarrow> string option"
  wl_key :: string
  wl_header_ok :: "string \<Rightarrow> string \<Rightarrow> bool"
  wl_header_name :: "string \<Rightarrow> string"
  wl_base64 :: "bytes \<Rightarrow> string"

definition ws_req :: "ws_lib \<Rightarrow> string \<Rightarrow> nat \<Rightarrow> string \<Rightarrow> (string \<times> string) list \<Rightarrow> http_req res" where
  "ws_req W uri max_early_data early_data_header_name headers =
     (case wl_authority W uri of
        None \<Rightarrow> Panic
      | Some authority \<Rightarrow>
          (let host = (case after_at authority of Some h \<Rightarrow> h | None \<Rightarrow> authority);
               hs = [(''Host'', host), (''Connection'', ''Upgrade''), (''Upgrade'', ''websocket''),
                     (''Sec-WebSocket-Version'', ''13''), (''Sec-WebSocket-Key'', wl_key W)];
               hs = hs @ filter (\<lambda>(k, v). k \<noteq> ''Host'') headers;
               hs = hs @ (if max_early_data > 0 then [(early_data_header_name, ''s'')] else [])
           in if list_all (\<lambda>(k, v). wl_header_ok W k v) hs
              then Ok \<lparr>hq_uri = uri, hq_headers = hs\<rparr> else Panic))"

section \<open>Early data\<close>

text \<open>
  The handshake is a future; here it is pending for a number of polls and then has a result, the
  status of the response and the stream, and panics when it is polled after that.
\<close>

record ws_future =
  wf_pending :: nat
  wf_result :: "(nat \<times> ws_stream) res"
  wf_done :: bool

definition ws_future_poll :: "(nat \<Rightarrow> string) \<Rightarrow> ws_future \<Rightarrow> ws_stream poll \<times> ws_future" where
  "ws_future_poll show_status f =
     (if wf_done f then (Ready Panic, f)
      else if wf_pending f > 0 then (Pending, f\<lparr>wf_pending := wf_pending f - 1\<rparr>)
      else (Ready (bind_res (wf_result f) (\<lambda>(status, s).
              if status \<noteq> 101 then Err (new_error (''bad status: '' @ show_status status)) else Ok s)),
            f\<lparr>wf_done := True\<rparr>))"

record 'io early_stream =
  ew_io :: "'io option"
  ew_stream :: "ws_stream option"
  ew_req :: "http_req option"
  ew_future :: "ws_future option"
  ew_early_waker :: bool
  ew_flush_waker :: bool
  ew_header_name :: string
  ew_early_data_len :: nat
  ew_written :: bool

text \<open>
  The field \<open>stream\<close> of the code holds the transport until the handshake and the WebSocket stream
  after it: \<open>ew_io\<close> and \<open>ew_stream\<close>. The wakers only say whether a task waits.
\<close>

definition early_stream_new :: "'io \<Rightarrow> http_req \<Rightarrow> string \<Rightarrow> nat \<Rightarrow> 'io early_stream" where
  "early_stream_new io req early_data_header_name early_data_len =
     \<lparr>ew_io = Some io, ew_stream = None, ew_req = Some req, ew_future = None, ew_early_waker = False,
      ew_flush_waker = False, ew_header_name = early_data_header_name,
      ew_early_data_len = early_data_len, ew_written = False\<rparr>"

fun set_header :: "(string \<Rightarrow> string) \<Rightarrow> string \<Rightarrow> string \<Rightarrow> (string \<times> string) list \<Rightarrow> (string \<times> string) list option" where
  "set_header hn name v [] = None"
| "set_header hn name v ((k, x) # hs) =
     (if hn k = hn name then Some ((k, v) # hs) else map_option (Cons (k, x)) (set_header hn name v hs))"

text \<open>
  The first polls of \<open>poll_write\<close>: the request with the early data in its header starts the
  handshake, which \<open>handshake\<close>, the library, makes a future of.
\<close>

definition early_start ::
  "ws_lib \<Rightarrow> ('io \<Rightarrow> http_req \<Rightarrow> ws_future) \<Rightarrow> bytes \<Rightarrow> 'io early_stream \<Rightarrow> 'io early_stream res" where
  "early_start W handshake buf s =
     bind_res (unwrap (ew_req s)) (\<lambda>req.
       let len = min (ew_early_data_len s) (length buf);
           (req, s) =
             (case set_header (wl_header_name W) (ew_header_name s) (wl_base64 W (take len buf)) (hq_headers req) of
                Some hs \<Rightarrow> (req\<lparr>hq_headers := hs\<rparr>, s\<lparr>ew_early_data_len := len\<rparr>)
              | None \<Rightarrow> (req, s))
       in bind_res (unwrap (ew_io s)) (\<lambda>io.
            Ok (s\<lparr>ew_req := None, ew_io := None, ew_future := Some (handshake io req)\<rparr>)))"

definition early_finish ::
  "(nat \<Rightarrow> string) \<Rightarrow> ws_future \<Rightarrow> 'io early_stream \<Rightarrow> nat poll \<times> 'io early_stream" where
  "early_finish show_status f s =
     (case ws_future_poll show_status f of
        (Pending, f) \<Rightarrow> (Pending, s\<lparr>ew_future := Some f\<rparr>)
      | (Ready (Ok stream), f) \<Rightarrow>
          (Ready (Ok (ew_early_data_len s)),
           s\<lparr>ew_future := Some f, ew_stream := Some stream, ew_written := True,
             ew_early_waker := False, ew_flush_waker := False\<rparr>)
      | (Ready (Err e), f) \<Rightarrow> (Ready (Err e), s\<lparr>ew_future := Some f\<rparr>)
      | (Ready Panic, f) \<Rightarrow> (Ready Panic, s\<lparr>ew_future := Some f\<rparr>))"

definition early_poll_write ::
  "ws_lib \<Rightarrow> (nat \<Rightarrow> string) \<Rightarrow> ('io \<Rightarrow> http_req \<Rightarrow> ws_future) \<Rightarrow> bytes \<Rightarrow> 'io early_stream \<Rightarrow>
     nat poll \<times> 'io early_stream" where
  "early_poll_write W show_status handshake buf s =
     (if \<not> ew_written s then
        (case ew_future s of
           Some f \<Rightarrow> early_finish show_status f s
         | None \<Rightarrow>
             (case early_start W handshake buf s of
                Ok s \<Rightarrow> (case ew_future s of
                    Some f \<Rightarrow> early_finish show_status f s
                  | None \<Rightarrow> (Ready Panic, s))
              | Err e \<Rightarrow> (Ready (Err e), s)
              | Panic \<Rightarrow> (Ready Panic, s)))
      else (case ew_stream s of
              None \<Rightarrow> (Ready Panic, s)
            | Some t \<Rightarrow> (case ws_poll_write buf t of (p, t) \<Rightarrow> (p, s\<lparr>ew_stream := Some t\<rparr>))))"

definition early_poll_read ::
  "(ws_message \<Rightarrow> string) \<Rightarrow> nat \<Rightarrow> 'io early_stream \<Rightarrow> (unit poll \<times> bytes) \<times> 'io early_stream" where
  "early_poll_read show_message n s =
     (if \<not> ew_written s then ((Pending, []), s\<lparr>ew_early_waker := True\<rparr>)
      else (case ew_stream s of
              None \<Rightarrow> ((Ready Panic, []), s)
            | Some t \<Rightarrow> (case ws_poll_read show_message n t of (out, t) \<Rightarrow> (out, s\<lparr>ew_stream := Some t\<rparr>))))"

definition early_poll_flush :: "'io early_stream \<Rightarrow> unit poll \<times> 'io early_stream" where
  "early_poll_flush s =
     (if \<not> ew_written s then (Pending, s\<lparr>ew_flush_waker := True\<rparr>)
      else (case ew_stream s of None \<Rightarrow> (Ready Panic, s) | Some t \<Rightarrow> (ws_poll_flush t, s)))"

text \<open>Before the first write has completed a shutdown waits as a flush does.\<close>

definition early_poll_shutdown :: "'io early_stream \<Rightarrow> unit poll \<times> 'io early_stream" where
  "early_poll_shutdown s =
     (if \<not> ew_written s then early_poll_flush s
      else (case ew_stream s of
              None \<Rightarrow> (Ready Panic, s)
            | Some t \<Rightarrow> (case ws_poll_shutdown t of (p, t) \<Rightarrow> (p, s\<lparr>ew_stream := Some t\<rparr>))))"

section \<open>The stream carries what was written\<close>

text \<open>The bytes of a script that ends with a close message and has no empty message and no error.\<close>

fun ws_payload :: "ws_event list \<Rightarrow> bytes option" where
  "ws_payload (WePending # es) = ws_payload es"
| "ws_payload (WeMessage (WsBinary m) # es) =
     (if m = [] then None else map_option (\<lambda>ds. m @ ds) (ws_payload es))"
| "ws_payload (WeMessage WsClose # es) = Some []"
| "ws_payload _ = None"

definition ws_source :: "bytes \<Rightarrow> ws_stream \<Rightarrow> bool" where
  "ws_source bs s \<longleftrightarrow>
     (\<exists>ds. ws_payload (ws_rx s) = Some ds \<and>
        (case ws_read_buffer s of None \<Rightarrow> bs = ds | Some b \<Rightarrow> b \<noteq> [] \<and> bs = b @ ds))"

lemma ws_put_yields:
  assumes "b \<noteq> []" "ws_payload (ws_rx s) = Some ds" "0 < n" "ws_put n b s = ((p, cs), s')"
  shows "p = Ready (Ok ()) \<and> length cs \<le> n \<and> cs \<noteq> [] \<and> ws_rx s' = ws_rx s \<and>
    (\<exists>es. b @ ds = cs @ es \<and> ws_source es s')"
proof (cases "length b \<le> n")
  case True
  with assms show ?thesis by (auto simp: ws_put_def ws_source_def)
next
  case False
  then have "p = Ready (Ok ()) \<and> cs = take n b \<and> s' = s\<lparr>ws_read_buffer := Some (drop n b)\<rparr>"
    using assms(4) by (simp add: ws_put_def)
  with False assms(1-3) show ?thesis
    by (auto simp: ws_source_def intro!: exI [of _ "drop n b @ ds"])
qed

interpretation ws_in: byte_source "ws_poll_read show_message" ws_source "\<lambda>s. length (ws_rx s)" for show_message
proof
  fix bs s n out s'
  assume src: "ws_source bs s" and n: "0 < n" and r: "ws_poll_read show_message n s = (out, s')"
  obtain p cs where out: "out = (p, cs)" by fastforce
  from src obtain ds where ds: "ws_payload (ws_rx s) = Some ds"
    "case ws_read_buffer s of None \<Rightarrow> bs = ds | Some b \<Rightarrow> b \<noteq> [] \<and> bs = b @ ds" by (auto simp: ws_source_def)
  show "fst out = Pending \<and> ws_source bs s' \<and> length (ws_rx s') < length (ws_rx s) \<or>
    (\<exists>cs ds. out = (Ready (Ok ()), cs) \<and> bs = cs @ ds \<and> length cs \<le> n \<and> (cs = [] \<longrightarrow> bs = []) \<and>
       (cs \<noteq> [] \<longrightarrow> ws_source ds s' \<and> length (ws_rx s') \<le> length (ws_rx s)))"
  proof (cases "ws_read_buffer s")
    case (Some b)
    with r out have "ws_put n b s = ((p, cs), s')" by (simp add: ws_poll_read_def)
    with ws_put_yields [of b s ds n p cs s'] Some ds n out show ?thesis by auto
  next
    case None
    then have bs: "bs = ds" using ds(2) by simp
    show ?thesis
    proof (cases "ws_rx s" rule: ws_payload.cases)
      case (1 es)
      with None r out ds bs show ?thesis by (auto simp: ws_poll_read_def ws_source_def)
    next
      case (2 m es)
      with ds(1) obtain ds' where m: "m \<noteq> []" "ws_payload es = Some ds'" "ds = m @ ds'"
        by (auto split: if_splits)
      show ?thesis
      proof (cases "length m < n")
        case True
        with None 2 r out m bs show ?thesis
          by (auto simp: ws_poll_read_def ws_source_def)
      next
        case False
        with None 2 r out have "ws_put n m (s\<lparr>ws_rx := es\<rparr>) = ((p, cs), s')" by (simp add: ws_poll_read_def)
        with ws_put_yields [of m "s\<lparr>ws_rx := es\<rparr>" ds' n p cs s'] 2 m n out bs show ?thesis by auto
      qed
    next
      case (3 es)
      with None r out ds bs show ?thesis by (auto simp: ws_poll_read_def)
    qed (use ds(1) in simp_all)
  qed
qed

definition ws_live :: "ws_stream \<Rightarrow> bool" where
  "ws_live s \<longleftrightarrow> set (ws_tx s) \<subseteq> {WaPending, WaReady}"

lemma ws_sends_all:
  "ws_live s \<Longrightarrow> \<exists>n s'. send_run ws_poll_write n ms s = Some s' \<and> ws_sent s' = ws_sent s @ map WsBinary ms"
proof (induction "length (ws_tx s) + length ms" arbitrary: ms s rule: less_induct)
  case less
  show ?case
  proof (cases ms)
    case Nil
    then show ?thesis by (intro exI [of _ 0] exI [of _ s]) simp
  next
    case (Cons m ms')
    have "\<exists>p s1. ws_poll_write m s = (p, s1) \<and> ws_live s1 \<and>
      (p = Pending \<and> length (ws_tx s1) < length (ws_tx s) \<and> ws_sent s1 = ws_sent s \<or>
       p = Ready (Ok (length m)) \<and> length (ws_tx s1) \<le> length (ws_tx s) \<and>
       ws_sent s1 = ws_sent s @ [WsBinary m])"
      using less.prems by (cases "ws_tx s") (auto simp: ws_poll_write_def ws_live_def)
    then obtain p s1 where w: "ws_poll_write m s = (p, s1)" "ws_live s1"
      "p = Pending \<and> length (ws_tx s1) < length (ws_tx s) \<and> ws_sent s1 = ws_sent s \<or>
       p = Ready (Ok (length m)) \<and> length (ws_tx s1) \<le> length (ws_tx s) \<and>
       ws_sent s1 = ws_sent s @ [WsBinary m]" by (elim exE conjE)
    from w(3) show ?thesis
    proof (elim disjE conjE)
      assume p: "p = Pending" "length (ws_tx s1) < length (ws_tx s)" "ws_sent s1 = ws_sent s"
      then have "length (ws_tx s1) + length ms < length (ws_tx s) + length ms" by simp
      from less.hyps [OF this w(2)] obtain n s' where
        "send_run ws_poll_write n ms s1 = Some s'" "ws_sent s' = ws_sent s1 @ map WsBinary ms" by blast
      with w(1) p Cons show ?thesis by (intro exI [of _ "Suc n"] exI [of _ s']) simp
    next
      assume p: "p = Ready (Ok (length m))" "length (ws_tx s1) \<le> length (ws_tx s)"
        "ws_sent s1 = ws_sent s @ [WsBinary m]"
      then have "length (ws_tx s1) + length ms' < length (ws_tx s) + length ms" using Cons by simp
      from less.hyps [OF this w(2)] obtain n s' where
        "send_run ws_poll_write n ms' s1 = Some s'" "ws_sent s' = ws_sent s1 @ map WsBinary ms'" by blast
      with w(1) p Cons show ?thesis by (intro exI [of _ "Suc n"] exI [of _ s']) simp
    qed
  qed
qed

text \<open>A receiver of messages, delayed anywhere, that end with a close.\<close>

lemma ws_payload_messages:
  "filter (\<lambda>e. e \<noteq> WePending) es = map WeMessage (map WsBinary ms @ [WsClose]) \<Longrightarrow>
     \<forall>m \<in> set ms. m \<noteq> [] \<Longrightarrow> ws_payload es = Some (concat ms)"
proof (induction es arbitrary: ms rule: ws_payload.induct)
  case (2 m es)
  then show ?case by (cases ms) auto
next
  case (3 es)
  then show ?case by (cases ms) auto
qed (auto simp: Cons_eq_map_conv append_eq_Cons_conv Cons_eq_append_conv split: if_splits)

section \<open>Early data\<close>

definition early_inv :: "'io early_stream \<Rightarrow> bool" where
  "early_inv s \<longleftrightarrow>
     (if ew_written s then ew_stream s \<noteq> None
      else if ew_future s = None then ew_req s \<noteq> None \<and> ew_io s \<noteq> None else True)"

lemma early_inv_new: "early_inv (early_stream_new io req name n)"
  by (simp add: early_inv_def early_stream_new_def)

lemma early_start_Ok:
  assumes "early_inv s" "\<not> ew_written s" "ew_future s = None"
  shows "\<exists>s' f. early_start W handshake buf s = Ok s' \<and> ew_future s' = Some f \<and> \<not> ew_written s' \<and>
    (\<exists>io req. f = handshake io req)"
  using assms
  by (cases "ew_req s"; cases "ew_io s")
    (auto simp: early_inv_def early_start_def Let_def split: option.splits)

lemma early_finish_inv:
  "early_finish show_status f s = (p, s') \<Longrightarrow> \<not> ew_written s \<Longrightarrow>
     early_inv s' \<and> (p = Ready Panic \<longrightarrow> wf_done f \<or> wf_result f = Panic)"
  by (auto simp: early_finish_def early_inv_def ws_future_poll_def res_simps
      split: if_splits res.splits prod.splits poll.splits)

text \<open>
  No operation reaches \<open>unreachable!()\<close> or unwraps a missing value: a write panics only when the
  handshake itself does or is polled again after it has failed, and the others never do.
\<close>

lemma early_write_inv:
  assumes "early_inv s" "early_poll_write W show_status handshake buf s = (p, s')"
  shows "early_inv s' \<and> (p = Ready Panic \<longrightarrow>
    (\<exists>f. (ew_future s = Some f \<or> (\<exists>io req. f = handshake io req)) \<and> (wf_done f \<or> wf_result f = Panic)))"
proof (cases "ew_written s")
  case True
  with assms show ?thesis
    by (auto simp: early_poll_write_def early_inv_def ws_poll_write_def Let_def
        split: prod.splits list.splits ws_send_event.splits)
next
  case False
  show ?thesis
  proof (cases "ew_future s")
    case None
    from early_start_Ok [OF assms(1) False None, of W handshake buf] obtain s1 f where
      s1: "early_start W handshake buf s = Ok s1" "ew_future s1 = Some f" "\<not> ew_written s1"
        "\<exists>io req. f = handshake io req" by blast
    with assms(2) False None have "early_finish show_status f s1 = (p, s')"
      by (simp add: early_poll_write_def)
    from early_finish_inv [OF this s1(3)] s1(4) show ?thesis by blast
  next
    case (Some f)
    with assms(2) False have "early_finish show_status f s = (p, s')" by (simp add: early_poll_write_def)
    from early_finish_inv [OF this False] Some show ?thesis by blast
  qed
qed

lemma early_read_inv:
  assumes "early_inv s" "early_poll_read show_message n s = ((p, bs), s')"
  shows "early_inv s' \<and> p \<noteq> Ready Panic"
  using assms
  by (auto simp: early_poll_read_def early_inv_def ws_poll_read_def ws_put_def Let_def
      split: if_splits prod.splits option.splits list.splits ws_event.splits ws_message.splits)

lemma early_flush_inv:
  "early_inv s \<Longrightarrow> early_poll_flush s = (p, s') \<Longrightarrow> early_inv s'"
  by (auto simp: early_poll_flush_def early_inv_def split: if_splits option.splits)

text \<open>
  The first write of a connection carries the beginning of its data in the handshake and answers
  with the number of bytes carried.
\<close>

fun poll_until :: "('s \<Rightarrow> 'a poll \<times> 's) \<Rightarrow> nat \<Rightarrow> 's \<Rightarrow> ('a res \<times> 's) option" where
  "poll_until f 0 s = None"
| "poll_until f (Suc n) s = (case f s of (Pending, s) \<Rightarrow> poll_until f n s | (Ready x, s) \<Rightarrow> Some (x, s))"

lemma early_finish_run:
  assumes "ew_future s = Some \<lparr>wf_pending = k, wf_result = Ok (101, t), wf_done = False\<rparr>" "\<not> ew_written s"
  shows "\<exists>s'. poll_until (early_poll_write W show_status handshake buf) (Suc k) s =
      Some (Ok (ew_early_data_len s), s') \<and> ew_written s' \<and> ew_stream s' = Some t"
  using assms
proof (induction k arbitrary: s)
  case 0
  then show ?case by (simp add: early_poll_write_def early_finish_def ws_future_poll_def)
next
  case (Suc k)
  let ?s = "s\<lparr>ew_future := Some \<lparr>wf_pending = k, wf_result = Ok (101, t), wf_done = False\<rparr>\<rparr>"
  have "early_poll_write W show_status handshake buf s = (Pending, ?s)"
    using Suc.prems by (simp add: early_poll_write_def early_finish_def ws_future_poll_def)
  with Suc.IH [of ?s] Suc.prems(2) show ?case by simp
qed

lemma early_first_write:
  assumes "set_header (wl_header_name W) name (wl_base64 W (take n buf)) (hq_headers req) = Some hs"
    and "n = min max_early (length buf)"
    and "handshake io (req\<lparr>hq_headers := hs\<rparr>) = \<lparr>wf_pending = k, wf_result = Ok (101, t), wf_done = False\<rparr>"
  shows "\<exists>s'. poll_until (early_poll_write W show_status handshake buf) (Suc k)
      (early_stream_new io req name max_early) = Some (Ok n, s') \<and> ew_written s' \<and> ew_stream s' = Some t"
proof -
  let ?s = "early_stream_new io req name max_early"
  let ?s1 = "?s\<lparr>ew_early_data_len := n, ew_req := None, ew_io := None,
    ew_future := Some \<lparr>wf_pending = k, wf_result = Ok (101, t), wf_done = False\<rparr>\<rparr>"
  have "early_start W handshake buf ?s = Ok ?s1"
    using assms by (simp add: early_start_def early_stream_new_def Let_def)
  then have "early_poll_write W show_status handshake buf ?s = early_poll_write W show_status handshake buf ?s1"
    by (simp add: early_poll_write_def early_stream_new_def)
  then have "poll_until (early_poll_write W show_status handshake buf) (Suc k) ?s =
      poll_until (early_poll_write W show_status handshake buf) (Suc k) ?s1" by simp
  with early_finish_run [of ?s1 k t W show_status handshake buf] show ?thesis
    by (simp add: early_stream_new_def)
qed

lemma set_header_found:
  "(name, x) \<in> set hs \<Longrightarrow> \<exists>hs' k. set_header hn name v hs = Some hs' \<and> hn k = hn name \<and> (k, v) \<in> set hs'"
proof (induction hn name v hs rule: set_header.induct)
  case (2 hn name v k x hs)
  then show ?case by (cases "hn k = hn name") (auto, metis list.set_intros(2))
qed simp

lemma ws_req_early_header:
  "ws_req W uri n name kvs = Ok req \<Longrightarrow> 0 < n \<Longrightarrow> (name, ''s'') \<in> set (hq_headers req)"
  by (auto simp: ws_req_def Let_def split: option.splits if_splits)

section \<open>Properties\<close>

text \<open>
  C34: Whatever one WebSocket stream sends, with the library slow at any point, the peer's stream
  reads back: the messages written, closed by a close message and delayed anywhere on the way,
  deliver their bytes in order to any sequence of reads, and then the end.
\<close>
theorem websocket_session:
  assumes "ws_live s" "ws_sent s = []" "\<forall>m \<in> set ms. m \<noteq> []"
  shows "\<exists>k s'. send_run ws_poll_write k ms s = Some s' \<and>
    (\<forall>t ns. ws_read_buffer t = None \<longrightarrow>
       filter (\<lambda>e. e \<noteq> WePending) (ws_rx t) = map WeMessage (ws_sent s' @ [WsClose]) \<longrightarrow>
       (\<forall>n \<in> set ns. 0 < n) \<longrightarrow> length (concat ms) + length (ws_rx t) < length ns \<longrightarrow>
       read_run (ws_poll_read show_message) ns t = (concat ms, True))"
proof -
  from ws_sends_all [OF assms(1), of ms] assms(2) obtain k s' where
    s': "send_run ws_poll_write k ms s = Some s'" "ws_sent s' = map WsBinary ms" by auto
  have "read_run (ws_poll_read show_message) ns t = (concat ms, True)"
    if t: "ws_read_buffer t = None"
        "filter (\<lambda>e. e \<noteq> WePending) (ws_rx t) = map WeMessage (ws_sent s' @ [WsClose])"
      and ns: "\<forall>n \<in> set ns. 0 < n" "length (concat ms) + length (ws_rx t) < length ns" for t ns
  proof (rule ws_in.read_all)
    show "ws_source (concat ms) t"
      using t s'(2) assms(3) ws_payload_messages [of "ws_rx t" ms] by (simp add: ws_source_def)
  qed (use ns in simp_all)
  with s'(1) show ?thesis by blast
qed

lemma websocket_session_witness:
  "\<exists>k s'. send_run ws_poll_write k [[1, 2, 3], [4]]
      (ws_stream_new [] [WaPending] Pending Pending) = Some s' \<and>
    (\<forall>t ns. ws_read_buffer t = None \<longrightarrow>
       filter (\<lambda>e. e \<noteq> WePending) (ws_rx t) = map WeMessage (ws_sent s' @ [WsClose]) \<longrightarrow>
       (\<forall>n \<in> set ns. 0 < n) \<longrightarrow> length (concat [[1, 2, 3], [4 :: u8]]) + length (ws_rx t) < length ns \<longrightarrow>
       read_run (ws_poll_read (\<lambda>_. ''?'')) ns t = ([1, 2, 3, 4], True))"
  using websocket_session [of "ws_stream_new [] [WaPending] Pending Pending" "[[1, 2, 3], [4]]" "\<lambda>_. ''?''"]
  by (simp add: ws_live_def ws_stream_new_def)

text \<open>
  C35: An early-data connection starts its handshake at the first write: the request carries the
  encoding of the first bytes, as many as configured, in the configured header, and once the server
  has switched protocols the write answers with just their number and the stream is the server's.
\<close>
theorem early_data_sent:
  assumes "ws_req W uri max_early name kvs = Ok req" "0 < max_early" "n = min max_early (length buf)"
    and "handshake = (\<lambda>io req. \<lparr>wf_pending = k, wf_result = Ok (101, server req), wf_done = False\<rparr>)"
  shows "\<exists>s' hs h. poll_until (early_poll_write W show_status handshake buf) (Suc k)
      (early_stream_new io req name max_early) = Some (Ok n, s') \<and>
    ew_stream s' = Some (server (req\<lparr>hq_headers := hs\<rparr>)) \<and>
    wl_header_name W h = wl_header_name W name \<and> (h, wl_base64 W (take n buf)) \<in> set hs"
proof -
  from set_header_found [OF ws_req_early_header [OF assms(1,2)]] obtain hs h where
    h: "set_header (wl_header_name W) name (wl_base64 W (take n buf)) (hq_headers req) = Some hs"
      "wl_header_name W h = wl_header_name W name" "(h, wl_base64 W (take n buf)) \<in> set hs" by blast
  have "\<exists>s'. poll_until (early_poll_write W show_status handshake buf) (Suc k)
      (early_stream_new io req name max_early) = Some (Ok n, s') \<and> ew_written s' \<and>
      ew_stream s' = Some (server (req\<lparr>hq_headers := hs\<rparr>))"
    by (rule early_first_write [OF h(1) assms(3)]) (simp add: assms(4))
  with h(2,3) show ?thesis by blast
qed

definition demo_ws_lib :: ws_lib where
  "demo_ws_lib =
     \<lparr>wl_authority = Some, wl_key = ''key'', wl_header_ok = (\<lambda>_ _. True), wl_header_name = id,
      wl_base64 = map (\<lambda>b. char_of (unat b))\<rparr>"

lemma early_data_sent_witness:
  "\<exists>s' hs h. poll_until (early_poll_write demo_ws_lib (\<lambda>_. '''')
        (\<lambda>io req. \<lparr>wf_pending = 1, wf_result = Ok (101, ws_stream_new [] [] Pending Pending), wf_done = False\<rparr>)
        [97, 98, 99]) 2
      (early_stream_new () \<lparr>hq_uri = ''h'', hq_headers =
         [(''Host'', ''h''), (''Connection'', ''Upgrade''), (''Upgrade'', ''websocket''),
          (''Sec-WebSocket-Version'', ''13''), (''Sec-WebSocket-Key'', ''key''), (''Early'', ''s'')]\<rparr>
        ''Early'' 2) = Some (Ok 2, s') \<and> (h, ''ab'') \<in> set (hs :: (string \<times> string) list)"
proof -
  let ?req = "\<lparr>hq_uri = ''h'', hq_headers =
     [(''Host'', ''h''), (''Connection'', ''Upgrade''), (''Upgrade'', ''websocket''),
      (''Sec-WebSocket-Version'', ''13''), (''Sec-WebSocket-Key'', ''key''), (''Early'', ''s'')]\<rparr>"
  have "ws_req demo_ws_lib ''h'' 2 ''Early'' [] = Ok ?req" by code_simp
  moreover have "wl_base64 demo_ws_lib (take 2 [97, 98, 99]) = ''ab''" by code_simp
  ultimately show ?thesis
    using early_data_sent [of demo_ws_lib "''h''" 2 "''Early''" "[]" ?req 2 "[97, 98, 99]" _ 1
        "\<lambda>_. ws_stream_new [] [] Pending Pending" "\<lambda>_. ''''" "()", OF _ _ _ refl]
    by (fastforce simp: numeral_2_eq_2 simp del: poll_until.simps)
qed

end
