(* ===== verification/Http2.thy ===== *)
theory Http2
  imports Datagram Ss_Cipher
begin

text \<open>
  The HTTP/2 and gRPC hops: \<open>src/proxy/h2/mod.rs\<close> and \<open>src/proxy/grpc/mod.rs\<close>. The h2 library is the
  transport: its receiving half delivers DATA frames, its sending half grants capacity, as scripts
  say. \<open>unreleased\<close> counts the bytes received that have not been released to the flow control, which
  lets the peer send no more than a window of them; releasing more than that is an error.
\<close>

datatype h2_event = HePending | HeData bytes | HeError

record recv_stream =
  h2_rx :: "h2_event list"
  h2_unreleased :: nat

definition poll_data :: "recv_stream \<Rightarrow> h2_event option poll \<times> recv_stream" where
  "poll_data r =
     (case h2_rx r of
        [] \<Rightarrow> (Ready (Ok None), r)
      | HePending # es \<Rightarrow> (Pending, r\<lparr>h2_rx := es\<rparr>)
      | HeData d # es \<Rightarrow>
          (Ready (Ok (Some (HeData d))), r\<lparr>h2_rx := es, h2_unreleased := h2_unreleased r + length d\<rparr>)
      | HeError # es \<Rightarrow> (Ready (Ok (Some HeError)), r\<lparr>h2_rx := es\<rparr>))"

definition release_capacity :: "nat \<Rightarrow> recv_stream \<Rightarrow> unit res \<times> recv_stream" where
  "release_capacity n r =
     (if n \<le> h2_unreleased r then (Ok (), r\<lparr>h2_unreleased := h2_unreleased r - n\<rparr>)
      else (Err (IoError ConnectionReset ''release capacity too big''), r))"

text \<open>
  The sending half: \<open>CapOk n\<close> grants \<open>n\<close> bytes, \<open>CapNone\<close> is a closed or failed stream. A send may be
  refused.
\<close>

datatype cap_event = CapPending | CapOk nat bool | CapNone

record send_stream =
  h2_tx :: "cap_event list"
  h2_sent :: "(bytes \<times> bool) list"
  h2_reserved :: nat

definition poll_capacity :: "send_stream \<Rightarrow> cap_event poll \<times> send_stream" where
  "poll_capacity w =
     (case h2_tx w of
        [] \<Rightarrow> (Ready (Ok (CapOk (h2_reserved w) True)), w)
      | CapPending # es \<Rightarrow> (Pending, w\<lparr>h2_tx := es\<rparr>)
      | e # es \<Rightarrow> (Ready (Ok e), w\<lparr>h2_tx := es\<rparr>))"

definition send_data :: "bytes \<Rightarrow> bool \<Rightarrow> bool \<Rightarrow> send_stream \<Rightarrow> unit res \<times> send_stream" where
  "send_data bs end_of_stream ok w =
     (if ok then (Ok (), w\<lparr>h2_sent := h2_sent w @ [(bs, end_of_stream)]\<rparr>)
      else (Err (IoError BrokenPipe ''''), w))"

text \<open>Both streams shut down alike.\<close>

definition h2_poll_shutdown :: "send_stream \<Rightarrow> unit poll \<times> send_stream" where
  "h2_poll_shutdown w =
     (case poll_capacity (w\<lparr>h2_reserved := 0\<rparr>) of
        (Pending, w) \<Rightarrow> (Pending, w)
      | (Ready (Ok (CapOk n ok)), w) \<Rightarrow> (case send_data [] True ok w of (x, w) \<Rightarrow> (Ready x, w))
      | (Ready _, w) \<Rightarrow> (Ready (Err (IoError BrokenPipe ''broken pipe'')), w))"

section \<open>HTTP/2\<close>

record http2_stream =
  hs_recv :: recv_stream
  hs_send :: send_stream
  hs_buffer :: bytes

definition http2_stream_new :: "recv_stream \<Rightarrow> send_stream \<Rightarrow> http2_stream" where
  "http2_stream_new recv send = \<lparr>hs_recv = recv, hs_send = send, hs_buffer = []\<rparr>"

text \<open>\<open>poll_read\<close> with room for \<open>n\<close> bytes: what the buffer still holds is not released.\<close>

definition http2_poll_read :: "nat \<Rightarrow> http2_stream \<Rightarrow> (unit poll \<times> bytes) \<times> http2_stream" where
  "http2_poll_read n s =
     (if hs_buffer s \<noteq> [] then
        (let to_read = min n (length (hs_buffer s))
         in ((Ready (Ok ()), take to_read (hs_buffer s)), s\<lparr>hs_buffer := drop to_read (hs_buffer s)\<rparr>))
      else (case poll_data (hs_recv s) of
              (Pending, r) \<Rightarrow> ((Pending, []), s\<lparr>hs_recv := r\<rparr>)
            | (Ready (Ok (Some (HeData data))), r) \<Rightarrow>
                (let to_read = min n (length data)
                 in case release_capacity to_read r of
                      (x, r) \<Rightarrow> ((Ready x, take to_read data),
                        s\<lparr>hs_recv := r, hs_buffer := hs_buffer s @ drop to_read data\<rparr>))
            | (Ready _, r) \<Rightarrow> ((Ready (Ok ()), []), s\<lparr>hs_recv := r\<rparr>)))"

definition http2_poll_write :: "bytes \<Rightarrow> http2_stream \<Rightarrow> nat poll \<times> http2_stream" where
  "http2_poll_write buf s =
     (case poll_capacity ((hs_send s)\<lparr>h2_reserved := length buf\<rparr>) of
        (Pending, w) \<Rightarrow> (Pending, s\<lparr>hs_send := w\<rparr>)
      | (Ready (Ok (CapOk to_write ok)), w) \<Rightarrow>
          if length buf < to_write then (Ready Panic, s\<lparr>hs_send := w\<rparr>)
          else (case send_data (take to_write buf) False ok w of
                  (x, w) \<Rightarrow> (Ready (map_res (\<lambda>_. to_write) x), s\<lparr>hs_send := w\<rparr>))
      | (Ready _, w) \<Rightarrow> (Ready (Err (IoError BrokenPipe ''broken pipe'')), s\<lparr>hs_send := w\<rparr>))"

text \<open>Nothing is held back, so there is nothing to flush.\<close>

definition http2_poll_flush :: "http2_stream \<Rightarrow> unit poll" where
  "http2_poll_flush s = Ready (Ok ())"

definition http2_poll_shutdown :: "http2_stream \<Rightarrow> unit poll \<times> http2_stream" where
  "http2_poll_shutdown s = (case h2_poll_shutdown (hs_send s) of (p, w) \<Rightarrow> (p, s\<lparr>hs_send := w\<rparr>))"

text \<open>The request: one of the hosts at random, the configured headers except the host.\<close>

record http2_req =
  h2q_authority :: string
  h2q_path :: string
  h2q_method :: string
  h2q_headers :: "(string \<times> string) list"

definition http2_request ::
  "(string \<Rightarrow> string \<Rightarrow> bool) \<Rightarrow> (string \<Rightarrow> string \<Rightarrow> bool) \<Rightarrow> nat \<Rightarrow> string list \<Rightarrow>
     (string \<times> string) list \<Rightarrow> string \<Rightarrow> string \<Rightarrow> http2_req res" where
  "http2_request uri_ok header_ok random hs kvs meth pq =
     (if hs = [] then Panic
      else let uri_idx = random mod length hs in
        if \<not> uri_ok (hs ! uri_idx) pq then Err (new_error ''invalid uri'')
        else let kvs = filter (\<lambda>(k, v). k \<noteq> ''Host'') kvs in
          if list_all (\<lambda>(k, v). header_ok k v) kvs
          then Ok \<lparr>h2q_authority = hs ! uri_idx, h2q_path = pq, h2q_method = meth, h2q_headers = kvs\<rparr>
          else Panic)"

section \<open>gRPC\<close>

text \<open>
  The variable-length integers of the prost library: decoding undoes encoding, in 1 to 10 bytes.
\<close>

record varint_lib =
  encode_varint :: "nat \<Rightarrow> bytes"
  decode_varint :: "bytes \<Rightarrow> (nat \<times> bytes) res"

definition varint_ok :: "varint_lib \<Rightarrow> bool" where
  "varint_ok V \<longleftrightarrow>
     (\<forall>n < 2 ^ 64. \<forall>r. decode_varint V (encode_varint V n @ r) = Ok (n, r) \<and>
        0 < length (encode_varint V n) \<and> length (encode_varint V n) \<le> 10)"

definition grpc_request :: "(string \<Rightarrow> string \<Rightarrow> bool) \<Rightarrow> string \<Rightarrow> string \<Rightarrow> http2_req res" where
  "grpc_request uri_ok authority pq =
     (if \<not> uri_ok authority pq then Err (new_error ''invalid uri'')
      else Ok \<lparr>h2q_authority = authority, h2q_path = pq, h2q_method = ''POST'',
                h2q_headers = [(''content-type'', ''application/grpc''), (''user-agent'', ''grpc-go/1.46.0'')]\<rparr>)"

record grpc_stream =
  gs_resp :: "nat \<times> recv_stream res"
  gs_recv :: "recv_stream option"
  gs_send :: send_stream
  gs_buffer :: bytes
  gs_payload_len :: nat

text \<open>\<open>gs_resp\<close> is the response's future: pending for a number of polls, then a result.\<close>

definition grpc_stream_new :: "nat \<times> recv_stream res \<Rightarrow> send_stream \<Rightarrow> grpc_stream" where
  "grpc_stream_new resp send =
     \<lparr>gs_resp = resp, gs_recv = None, gs_send = send, gs_buffer = [], gs_payload_len = 0\<rparr>"

definition encode_buf :: "varint_lib \<Rightarrow> bytes \<Rightarrow> bytes" where
  "encode_buf V data =
     (let buf = replicate 5 0 @ [0x0a] @ encode_varint V (length data);
          payload_len = to_be 4 (unat (of_nat (length buf - 5 + length data) :: u32))
      in copy_at buf 1 payload_len @ data)"

definition reserve_send_capacity :: "varint_lib \<Rightarrow> bytes \<Rightarrow> send_stream \<Rightarrow> send_stream" where
  "reserve_send_capacity V data w =
     w\<lparr>h2_reserved := 6 + length (encode_varint V (length data)) + length data\<rparr>"

text \<open>
  The loop over one DATA frame, with a room of \<open>n\<close> bytes: the payload length, what is left of the
  frame and the bytes delivered so far. Its result is the error, if any, with these three and what
  goes to the buffer.
\<close>

function grpc_loop ::
  "varint_lib \<Rightarrow> nat \<Rightarrow> nat \<Rightarrow> bytes \<Rightarrow> bytes \<Rightarrow> unit res \<times> nat \<times> bytes \<times> bytes \<times> bytes" where
  "grpc_loop V n payload_len data dst =
     (if payload_len > 0 \<or> length data > 6 then
        (case (if payload_len = 0 then decode_varint V (drop 6 data) else Ok (payload_len, data)) of
           Ok (payload_len, data) \<Rightarrow>
             (let to_read = min payload_len (min (n - length dst) (length data)) in
              if to_read = 0 then (Ok (), payload_len, [], dst, data)
              else grpc_loop V n (payload_len - to_read) (drop to_read data) (dst @ take to_read data))
         | Err e \<Rightarrow> (Err e, 0, data, dst, [])
         | Panic \<Rightarrow> (Panic, 0, data, dst, []))
      else (Ok (), payload_len, data, dst, []))"
  by pat_completeness auto
termination
  by (relation "measure (\<lambda>(V, n, payload_len, data, dst). n - length dst)")
    (auto simp: min_less_iff_disj neq_Nil_conv)

declare grpc_loop.simps [simp del]

text \<open>
  \<open>poll_read\<close> with room for \<open>n\<close> bytes. The buffer is delivered as it is; \<open>checks\<close> says whether the
  subtraction from the payload length is checked.
\<close>

definition grpc_drain :: "bool \<Rightarrow> nat \<Rightarrow> grpc_stream \<Rightarrow> (unit poll \<times> bytes) \<times> grpc_stream" where
  "grpc_drain checks n s =
     (let to_read = min n (length (gs_buffer s));
          data = take to_read (gs_buffer s);
          s = s\<lparr>gs_buffer := drop to_read (gs_buffer s)\<rparr>
      in if to_read \<le> gs_payload_len s
         then ((Ready (Ok ()), data), s\<lparr>gs_payload_len := gs_payload_len s - to_read\<rparr>)
         else if checks then ((Ready Panic, []), s)
         else ((Ready (Ok ()), data), s\<lparr>gs_payload_len := 2 ^ 64 + gs_payload_len s - to_read\<rparr>))"

definition grpc_read_frame ::
  "varint_lib \<Rightarrow> nat \<Rightarrow> recv_stream \<Rightarrow> grpc_stream \<Rightarrow> (unit poll \<times> bytes) \<times> grpc_stream" where
  "grpc_read_frame V n r s =
     (case poll_data r of
        (Pending, r) \<Rightarrow> ((Pending, []), s\<lparr>gs_recv := Some r\<rparr>)
      | (Ready (Ok (Some (HeData data))), r) \<Rightarrow>
          (case grpc_loop V n (gs_payload_len s) data [] of
             (x, payload_len, left, dst, rest) \<Rightarrow>
               let s = s\<lparr>gs_payload_len := payload_len, gs_buffer := gs_buffer s @ rest, gs_recv := Some r\<rparr> in
               case x of
                 Ok u \<Rightarrow> (case release_capacity (length data - length left) r of
                           (y, r) \<Rightarrow> ((Ready y, dst), s\<lparr>gs_recv := Some r\<rparr>))
               | Err e \<Rightarrow> ((Ready (Err e), dst), s)
               | Panic \<Rightarrow> ((Ready Panic, dst), s))
      | (Ready _, r) \<Rightarrow> ((Ready (Ok ()), []), s\<lparr>gs_recv := Some r\<rparr>))"

definition grpc_poll_read ::
  "varint_lib \<Rightarrow> bool \<Rightarrow> nat \<Rightarrow> grpc_stream \<Rightarrow> (unit poll \<times> bytes) \<times> grpc_stream" where
  "grpc_poll_read V checks n s =
     (case gs_recv s of
        None \<Rightarrow>
          (case gs_resp s of
             (Suc k, x) \<Rightarrow> ((Pending, []), s\<lparr>gs_resp := (k, x)\<rparr>)
           | (0, Ok r) \<Rightarrow>
               if gs_buffer s \<noteq> [] then grpc_drain checks n (s\<lparr>gs_recv := Some r\<rparr>)
               else grpc_read_frame V n r (s\<lparr>gs_recv := Some r\<rparr>)
           | (0, Err e) \<Rightarrow> ((Ready (Err e), []), s)
           | (0, Panic) \<Rightarrow> ((Ready Panic, []), s))
      | Some r \<Rightarrow>
          if gs_buffer s \<noteq> [] then grpc_drain checks n s else grpc_read_frame V n r s)"

text \<open>\<open>poll_write\<close> sends the whole message and answers with the capacity that was granted.\<close>

definition grpc_poll_write :: "varint_lib \<Rightarrow> bytes \<Rightarrow> grpc_stream \<Rightarrow> nat poll \<times> grpc_stream" where
  "grpc_poll_write V buf s =
     (case poll_capacity (reserve_send_capacity V buf (gs_send s)) of
        (Pending, w) \<Rightarrow> (Pending, s\<lparr>gs_send := w\<rparr>)
      | (Ready (Ok (CapOk to_write ok)), w) \<Rightarrow>
          (case send_data (encode_buf V buf) False ok w of
             (x, w) \<Rightarrow> (Ready (map_res (\<lambda>_. to_write) x), s\<lparr>gs_send := w\<rparr>))
      | (Ready _, w) \<Rightarrow> (Ready (Err (IoError BrokenPipe ''broken pipe'')), s\<lparr>gs_send := w\<rparr>))"

definition grpc_poll_flush :: "grpc_stream \<Rightarrow> unit poll" where
  "grpc_poll_flush s = Ready (Ok ())"

definition grpc_poll_shutdown :: "grpc_stream \<Rightarrow> unit poll \<times> grpc_stream" where
  "grpc_poll_shutdown s = (case h2_poll_shutdown (gs_send s) of (p, w) \<Rightarrow> (p, s\<lparr>gs_send := w\<rparr>))"

section \<open>The HTTP/2 reader is a byte stream\<close>

text \<open>Data frames that are not empty, delayed anywhere, then the end or a reset.\<close>

fun h2_payload :: "h2_event list \<Rightarrow> bytes option" where
  "h2_payload [] = Some []"
| "h2_payload (HePending # es) = h2_payload es"
| "h2_payload (HeData d # es) = (if d = [] then None else map_option (\<lambda>ds. d @ ds) (h2_payload es))"
| "h2_payload (HeError # es) = Some []"

definition h2_source :: "bytes \<Rightarrow> http2_stream \<Rightarrow> bool" where
  "h2_source bs s \<longleftrightarrow> (\<exists>ds. h2_payload (h2_rx (hs_recv s)) = Some ds \<and> bs = hs_buffer s @ ds)"

lemma http2_read_data:
  assumes "hs_buffer s = []" "h2_rx (hs_recv s) = HeData d # es"
  shows "http2_poll_read n s = ((Ready (Ok ()), take n d),
    s\<lparr>hs_recv := (hs_recv s)\<lparr>h2_rx := es, h2_unreleased := h2_unreleased (hs_recv s) + (length d - n)\<rparr>,
      hs_buffer := drop n d\<rparr>)"
proof -
  have "min n (length d) \<le> h2_unreleased (hs_recv s) + length d" by simp
  moreover have "h2_unreleased (hs_recv s) + length d - min n (length d) =
      h2_unreleased (hs_recv s) + (length d - n)" by simp
  moreover have "take (min n (length d)) d = take n d" "drop (min n (length d)) d = drop n d"
    by (simp_all add: min_def)
  ultimately show ?thesis using assms
    by (simp add: http2_poll_read_def poll_data_def release_capacity_def Let_def)
qed

interpretation h2_in: byte_source http2_poll_read h2_source "\<lambda>s. length (h2_rx (hs_recv s))"
proof
  fix bs s n out s'
  assume src: "h2_source bs s" and n: "0 < n" and r: "http2_poll_read n s = (out, s')"
  from src obtain ds where ds: "h2_payload (h2_rx (hs_recv s)) = Some ds" "bs = hs_buffer s @ ds"
    by (auto simp: h2_source_def)
  show "fst out = Pending \<and> h2_source bs s' \<and> length (h2_rx (hs_recv s')) < length (h2_rx (hs_recv s)) \<or>
    (\<exists>cs ds. out = (Ready (Ok ()), cs) \<and> bs = cs @ ds \<and> length cs \<le> n \<and> (cs = [] \<longrightarrow> bs = []) \<and>
       (cs \<noteq> [] \<longrightarrow> h2_source ds s' \<and> length (h2_rx (hs_recv s')) \<le> length (h2_rx (hs_recv s))))"
  proof (cases "hs_buffer s = []")
    case False
    let ?k = "min n (length (hs_buffer s))"
    from False r have "out = (Ready (Ok ()), take ?k (hs_buffer s))"
      "s' = s\<lparr>hs_buffer := drop ?k (hs_buffer s)\<rparr>" by (auto simp: http2_poll_read_def Let_def)
    with False n ds show ?thesis
      by (auto simp: h2_source_def simp del: take_take intro!: exI [of _ "drop ?k (hs_buffer s) @ ds"])
  next
    case True
    note step = r True ds n
    show ?thesis
    proof (cases "h2_rx (hs_recv s)")
      case Nil
      with step show ?thesis by (auto simp: http2_poll_read_def poll_data_def)
    next
      case (Cons e es)
      show ?thesis
      proof (cases e)
        case (HeData d)
        with Cons ds(1) obtain ds' where d: "d \<noteq> []" "h2_payload es = Some ds'" "ds = d @ ds'"
          by (auto split: if_splits)
        have "hs_recv s' = (hs_recv s)\<lparr>h2_rx := es, h2_unreleased := h2_unreleased (hs_recv s) + (length d - n)\<rparr>"
          "out = (Ready (Ok ()), take n d)" "hs_buffer s' = drop n d"
          using r http2_read_data [OF True, of d es n] Cons HeData by auto
        with d n ds(2) True Cons show ?thesis
          by (auto simp: h2_source_def intro!: exI [of _ "drop n d @ ds'"])
      qed (use step Cons in \<open>auto simp: http2_poll_read_def poll_data_def h2_source_def\<close>)
    qed
  qed
qed

section \<open>The receive window\<close>

text \<open>No read gives back the part of a frame that went to the buffer.\<close>

lemma http2_unreleased_grows:
  "http2_poll_read n s = (out, s') \<Longrightarrow> h2_unreleased (hs_recv s) \<le> h2_unreleased (hs_recv s')"
  by (auto simp: http2_poll_read_def poll_data_def release_capacity_def Let_def
      split: if_splits list.splits h2_event.splits)

lemma http2_unreleased_fold:
  "h2_unreleased (hs_recv s) \<le> h2_unreleased (hs_recv (fold (\<lambda>n s. snd (http2_poll_read n s)) ns s))"
proof (induction ns arbitrary: s)
  case (Cons n ns)
  obtain out s' where r: "http2_poll_read n s = (out, s')" by fastforce
  from http2_unreleased_grows [OF this] Cons [of s'] r show ?case by simp
qed simp

section \<open>gRPC messages in data frames\<close>

lemma encode_buf_split:
  "drop 6 (encode_buf V m @ r) = encode_varint V (length m) @ m @ r"
  "length (encode_buf V m) = 6 + length (encode_varint V (length m)) + length m"
  by (simp_all add: encode_buf_def Let_def copy_at_def)

lemma grpc_loop_message:
  assumes "varint_ok V" "m \<noteq> []" "length m < 2 ^ 64"
  shows "grpc_loop V n 0 (encode_buf V m @ r) dst =
    (let to_read = min (length m) (n - length dst) in
     if to_read = 0 then (Ok (), length m, [], dst, m @ r)
     else grpc_loop V n (length m - to_read) (drop to_read (m @ r)) (dst @ take to_read (m @ r)))"
proof -
  have "6 < length (encode_buf V m @ r)" using assms(2) by (simp add: encode_buf_split)
  moreover have "decode_varint V (drop 6 (encode_buf V m @ r)) = Ok (length m, m @ r)"
    using assms(1,3) unfolding encode_buf_split varint_ok_def by blast
  moreover have "min (length m) (min (n - length dst) (length (m @ r))) = min (length m) (n - length dst)"
    by simp
  ultimately show ?thesis
    unfolding grpc_loop.simps [of V n 0 "encode_buf V m @ r"] Let_def
    by (simp only: if_P simp_thms res.case prod.case)
qed

lemma grpc_loop_messages:
  "varint_ok V \<Longrightarrow> \<forall>m \<in> set ms. m \<noteq> [] \<and> length m < 2 ^ 64 \<Longrightarrow> length dst + length (concat ms) \<le> n \<Longrightarrow>
     grpc_loop V n 0 (concat (map (encode_buf V) ms)) dst = (Ok (), 0, [], dst @ concat ms, [])"
proof (induction ms arbitrary: dst)
  case Nil
  then show ?case by (simp add: grpc_loop.simps [of V n 0 "[]"])
next
  case (Cons m ms)
  then have m: "m \<noteq> []" "length m < 2 ^ 64" "min (length m) (n - length dst) = length m" "length m \<noteq> 0"
    by auto
  have "grpc_loop V n 0 (concat (map (encode_buf V) ms)) (dst @ m) = (Ok (), 0, [], (dst @ m) @ concat ms, [])"
    using Cons.prems by (intro Cons.IH) auto
  then show ?case
    by (simp add: grpc_loop_message [OF Cons.prems(1) m(1,2)] Let_def m(3,4) del: length_0_conv)
qed

text \<open>A message larger than the room: what the frame has after the room goes to the buffer.\<close>

lemma grpc_loop_small_room:
  assumes "varint_ok V" "0 < n" "n < length m" "length m < 2 ^ 64"
  shows "grpc_loop V n 0 (encode_buf V m @ r) [] = (Ok (), length m - n, [], take n m, drop n m @ r)"
proof -
  have "m \<noteq> []" using assms by auto
  have "grpc_loop V n 0 (encode_buf V m @ r) [] = grpc_loop V n (length m - n) (drop n m @ r) (take n m)"
    using assms by (simp add: grpc_loop_message [OF assms(1) \<open>m \<noteq> []\<close> assms(4)] Let_def)
  also have "\<dots> = (Ok (), length m - n, [], take n m, drop n m @ r)"
    using assms by (subst grpc_loop.simps) (simp add: Let_def)
  finally show ?thesis .
qed

section \<open>Properties\<close>

text \<open>
  An HTTP/2 stream delivers to its reader, whatever room the reads offer, exactly the bytes of
  the data frames up to the end of the stream.
\<close>
theorem http2_reads_all:
  assumes "hs_buffer s = []" "h2_payload (h2_rx (hs_recv s)) = Some bs"
    and "\<forall>n \<in> set ns. 0 < n" "length bs + length (h2_rx (hs_recv s)) < length ns"
  shows "read_run http2_poll_read ns s = (bs, True)"
  using assms by (intro h2_in.read_all) (auto simp: h2_source_def)

lemma http2_reads_all_witness:
  "read_run http2_poll_read (replicate 6 2)
     (http2_stream_new \<lparr>h2_rx = [HePending, HeData [1, 2, 3]], h2_unreleased = 0\<rparr>
        \<lparr>h2_tx = [], h2_sent = [], h2_reserved = 0\<rparr>) = ([1, 2, 3], True)"
  by (rule http2_reads_all) (simp_all add: http2_stream_new_def)

text \<open>
  C36: The bytes of a data frame that do not fit the reader's room are never released: the receive
  window of an HTTP/2 stream shrinks by them for good, whatever is read later.
\<close>
theorem http2_window_shrinks:
  assumes "hs_buffer s = []" "h2_rx (hs_recv s) = HeData d # es"
  shows "h2_unreleased (hs_recv s) + (length d - n) \<le>
    h2_unreleased (hs_recv (fold (\<lambda>n s. snd (http2_poll_read n s)) (n # ns) s))"
proof -
  have "h2_unreleased (hs_recv (snd (http2_poll_read n s))) = h2_unreleased (hs_recv s) + (length d - n)"
    using assms by (simp add: http2_read_data)
  then show ?thesis using http2_unreleased_fold [of "snd (http2_poll_read n s)" ns] by simp
qed

lemma http2_window_shrinks_witness:
  "3 \<le> h2_unreleased (hs_recv (fold (\<lambda>n s. snd (http2_poll_read n s)) [2, 2, 2, 2]
     (http2_stream_new \<lparr>h2_rx = [HeData [1, 2, 3, 4, 5]], h2_unreleased = 0\<rparr>
        \<lparr>h2_tx = [], h2_sent = [], h2_reserved = 0\<rparr>)))"
  using http2_window_shrinks [of "http2_stream_new \<lparr>h2_rx = [HeData [1, 2, 3, 4, 5]], h2_unreleased = 0\<rparr>
        \<lparr>h2_tx = [], h2_sent = [], h2_reserved = 0\<rparr>" "[1, 2, 3, 4, 5]" "[]" 2 "[2, 2, 2]"]
  by (simp add: http2_stream_new_def)

text \<open>
  C37: A DATA frame made of any number of whole gRPC messages, as the writer encodes them, delivers
  their payloads in order when the reader has room for them, and is released to the flow control.
\<close>
theorem grpc_messages_delivered:
  assumes "varint_ok V" "\<forall>m \<in> set ms. m \<noteq> [] \<and> length m < 2 ^ 64" "length (concat ms) \<le> n"
    and "gs_recv s = Some r" "gs_buffer s = []" "gs_payload_len s = 0"
    and "h2_rx r = HeData (concat (map (encode_buf V) ms)) # es"
  shows "grpc_poll_read V checks n s =
    ((Ready (Ok ()), concat ms), s\<lparr>gs_recv := Some (r\<lparr>h2_rx := es\<rparr>)\<rparr>)"
  using assms grpc_loop_messages [OF assms(1,2), of "[]" n]
  by (cases r; cases s)
    (simp add: grpc_poll_read_def grpc_read_frame_def poll_data_def release_capacity_def Let_def)

definition fixed_varint :: varint_lib where
  "fixed_varint =
     \<lparr>encode_varint = to_be 8,
      decode_varint = (\<lambda>bs. if length bs < 8 then Err (new_error '''') else Ok (of_be (take 8 bs), drop 8 bs))\<rparr>"

lemma fixed_varint_ok: "varint_ok fixed_varint"
  by (simp add: varint_ok_def fixed_varint_def of_be_to_be)

abbreviation demo_grpc :: "bytes \<Rightarrow> grpc_stream" where
  "demo_grpc frame \<equiv>
     (grpc_stream_new (0, Panic) \<lparr>h2_tx = [], h2_sent = [], h2_reserved = 0\<rparr>)
       \<lparr>gs_recv := Some \<lparr>h2_rx = [HeData frame], h2_unreleased = 0\<rparr>\<rparr>"

lemma grpc_messages_delivered_witness:
  "fst (grpc_poll_read fixed_varint True 5
     (demo_grpc (concat (map (encode_buf fixed_varint) [[1, 2], [3, 4, 5]])))) =
   (Ready (Ok ()), [1, 2, 3, 4, 5])"
  by (subst grpc_messages_delivered [OF fixed_varint_ok, where ms = "[[1, 2], [3, 4, 5]]" and es = "[]"
        and r = "\<lparr>h2_rx = [HeData (concat (map (encode_buf fixed_varint) [[1, 2], [3, 4, 5]]))],
                    h2_unreleased = 0\<rparr>"])
    (simp_all add: grpc_stream_new_def)

text \<open>
  C38: A gRPC message that is larger than the reader's room, with another message behind it in the
  frame: the next read delivers the rest of the payload followed by the raw encoding of the second
  message, header and length included, or panics where subtractions are checked.
\<close>
theorem grpc_large_message:
  assumes "varint_ok V" "0 < n" "n < length m" "length m < 2 ^ 64" "m' \<noteq> []"
    and "gs_recv s = Some r" "gs_buffer s = []" "gs_payload_len s = 0"
    and "h2_rx r = HeData (encode_buf V m @ encode_buf V m') # es"
    and "length (drop n m @ encode_buf V m') \<le> k"
  shows "\<exists>s'. grpc_poll_read V checks n s = ((Ready (Ok ()), take n m), s') \<and>
    fst (grpc_poll_read V checks k s') =
      (if checks then (Ready Panic, []) else (Ready (Ok ()), drop n m @ encode_buf V m'))"
proof -
  let ?s = "s\<lparr>gs_payload_len := length m - n, gs_buffer := drop n m @ encode_buf V m',
    gs_recv := Some (r\<lparr>h2_rx := es\<rparr>)\<rparr>"
  have "grpc_poll_read V checks n s = ((Ready (Ok ()), take n m), ?s)"
    using assms(6-9) grpc_loop_small_room [OF assms(1-4), of "encode_buf V m'"]
    by (cases r; cases s)
      (simp add: grpc_poll_read_def grpc_read_frame_def poll_data_def release_capacity_def Let_def)
  moreover have "fst (grpc_poll_read V checks k ?s) =
      (if checks then (Ready Panic, []) else (Ready (Ok ()), drop n m @ encode_buf V m'))"
    using assms(3,10) by (auto simp: grpc_poll_read_def grpc_drain_def Let_def encode_buf_split)
  ultimately show ?thesis by blast
qed

lemma grpc_large_message_witness:
  "\<exists>s'. grpc_poll_read fixed_varint False 1
      (demo_grpc (encode_buf fixed_varint [1, 2] @ encode_buf fixed_varint [3])) =
      ((Ready (Ok ()), [1]), s') \<and>
    fst (grpc_poll_read fixed_varint False 16 s') = (Ready (Ok ()), 2 # encode_buf fixed_varint [3])"
proof -
  have "length (drop 1 [1, 2] @ encode_buf fixed_varint [3]) \<le> 16"
    by (simp add: encode_buf_split fixed_varint_def)
  from grpc_large_message [OF fixed_varint_ok, of 1 "[1, 2]" "[3]"
      "demo_grpc (encode_buf fixed_varint [1, 2] @ encode_buf fixed_varint [3])"
      "\<lparr>h2_rx = [HeData (encode_buf fixed_varint [1, 2] @ encode_buf fixed_varint [3])], h2_unreleased = 0\<rparr>"
      "[]" 16 False, OF _ _ _ _ _ _ _ _ this]
  show ?thesis by (simp add: grpc_stream_new_def)
qed

text \<open>
  C39: A gRPC write sends its whole buffer but answers with the capacity granted. When all that it
  reserved is granted, the answer exceeds the buffer; when less than the buffer is granted, a caller
  that goes on after the answer sends the bytes behind it twice.
\<close>
theorem grpc_write_count:
  "(h2_tx (gs_send s) = [] \<longrightarrow>
     (\<exists>k s'. grpc_poll_write V buf s = (Ready (Ok k), s') \<and> length buf < k \<and>
        h2_sent (gs_send s') = h2_sent (gs_send s) @ [(encode_buf V buf, False)])) \<and>
   (h2_tx (gs_send s) = CapOk k True # CapOk j True # es \<longrightarrow>
     (\<exists>s' s''. grpc_poll_write V buf s = (Ready (Ok k), s') \<and>
        grpc_poll_write V (drop k buf) s' = (Ready (Ok j), s'') \<and>
        h2_sent (gs_send s'') =
          h2_sent (gs_send s) @ [(encode_buf V buf, False), (encode_buf V (drop k buf), False)]))"
  by (auto simp: grpc_poll_write_def poll_capacity_def send_data_def reserve_send_capacity_def)

lemma grpc_write_count_witness:
  "\<exists>k s'. grpc_poll_write fixed_varint [1, 2] (demo_grpc []) = (Ready (Ok k), s') \<and> 2 < k \<and>
     h2_sent (gs_send s') = [(encode_buf fixed_varint [1, 2], False)]"
  using grpc_write_count [of "demo_grpc []" fixed_varint "[1, 2]" 0 0 "[]"]
  by (simp add: grpc_stream_new_def numeral_2_eq_2)

end
