(* ===== verification/Hops.thy ===== *)
theory Hops
  imports Config Trojan Ss_Udp Vmess_Stream Websocket Http2
begin

text \<open>
  The hops of a chain as it connects: the \<open>build_tcp\<close> and \<open>build_udp\<close> of every stream builder
  (\<open>src/proxy/*/mod.rs\<close>, \<open>src/proxy/tls/tls_stream.rs\<close>) over the streams they wrap. A connection is
  described by what was built, from the socket to the outermost hop; the answers of the network and
  of the libraries are a parameter. The last section says which of these towers carry a byte stream
  and which carry datagrams.
\<close>

section \<open>Connections\<close>

datatype tower =
    TcpSocket address
  | UdpSocket address
  | VmessLayer vmess_option tower
  | TrojanHeader bytes tower
  | TrojanDatagrams tower
  | SsStream address cipher_kind bytes tower
  | SsDatagrams address cipher_kind bytes tower
  | TlsLayer tls_stream_builder tower
  | WsLayer http_req tower
  | WsEarlyLayer http_req string nat tower
  | ObfsLayer address tower
  | Http2Layer http2_req tower
  | GrpcLayer http2_req tower

text \<open>
  The answers: connecting and writing, whether a TLS connector gives a connection's configuration (its
  failure is unwrapped), the TLS handshake (the text of its error), the WebSocket
  handshake (the status of the response), the three steps of an HTTP/2 connection, and the library
  functions the requests are built with.
\<close>

record 'b hop_lib =
  hl_connect_tcp :: "address \<Rightarrow> unit res"
  hl_connect_udp :: "address \<Rightarrow> unit res"
  hl_write :: "bytes \<Rightarrow> tower \<Rightarrow> unit res"
  hl_tls_env :: tls_env
  hl_tls_configure :: "tls_connector \<Rightarrow> bool"
  hl_tls :: "tls_stream_builder \<Rightarrow> tower \<Rightarrow> string option"
  hl_ws :: "http_req \<Rightarrow> tower \<Rightarrow> nat res"
  hl_status :: "nat \<Rightarrow> string"
  hl_ws_lib :: ws_lib
  hl_h2_handshake :: "tower \<Rightarrow> unit res"
  hl_h2_request :: "http2_req \<Rightarrow> tower \<Rightarrow> unit res"
  hl_h2_response :: "http2_req \<Rightarrow> tower \<Rightarrow> unit res"
  hl_uri_ok :: "string \<Rightarrow> string \<Rightarrow> bool"
  hl_header_ok :: "string \<Rightarrow> string \<Rightarrow> bool"
  hl_random :: nat
  hl_md5 :: "bytes \<Rightarrow> bytes"
  hl_sha224 :: "bytes \<Rightarrow> bytes"
  hl_context :: "'b ping_pong_bloom"

section \<open>The hops that speak a protocol of their own\<close>

text \<open>A VMess stream is made for two of the security numbers only.\<close>

definition vmess_layer :: "vmess_option \<Rightarrow> tower \<Rightarrow> tower res" where
  "vmess_layer opt io =
     (if vo_security_num opt \<in> {AES_128_GCM_SECURITY_NUM, CHACHA20POLY1305_SECURITY_NUM}
      then Ok (VmessLayer opt io) else Panic)"

definition vmess_hop_tcp :: "vmess_option \<Rightarrow> tower \<Rightarrow> tower res" where
  "vmess_hop_tcp opt io = vmess_layer opt io"

definition vmess_hop_udp :: "vmess_option \<Rightarrow> bool \<Rightarrow> tower \<Rightarrow> tower res" where
  "vmess_hop_udp opt build_tcp_inside io = vmess_layer (opt\<lparr>vo_is_udp := \<not> build_tcp_inside\<rparr>) io"

text \<open>Trojan writes its request to the stream and hands on the stream itself.\<close>

definition trojan_header :: "'b hop_lib \<Rightarrow> request_header \<Rightarrow> tower \<Rightarrow> tower res" where
  "trojan_header H h io = map_res (\<lambda>_. TrojanHeader (request_bytes h) io) (hl_write H (request_bytes h) io)"

definition trojan_hop_tcp :: "'b hop_lib \<Rightarrow> trojan_stream_builder \<Rightarrow> tower \<Rightarrow> tower res" where
  "trojan_hop_tcp H b io = trojan_header H (TcpConnect (tb_password b) (tb_addr b)) io"

definition trojan_hop_udp :: "'b hop_lib \<Rightarrow> trojan_stream_builder \<Rightarrow> bool \<Rightarrow> tower \<Rightarrow> tower res" where
  "trojan_hop_udp H b build_tcp_inside io =
     (if build_tcp_inside then trojan_header H (TcpConnect (tb_password b) (tb_addr b)) io
      else map_res TrojanDatagrams (trojan_header H (UdpAssociate (tb_password b)) io))"

text \<open>Shadowsocks encrypts first and writes the address through the encrypted stream.\<close>

definition ss_hop_tcp :: "'b hop_lib \<Rightarrow> 'b shadowsocks_builder \<Rightarrow> tower \<Rightarrow> tower res" where
  "ss_hop_tcp H b io =
     (let stream = SsStream (sb_addr b) (sb_method b) (sb_key b) io
      in map_res (\<lambda>_. stream) (hl_write H (write_to_buf (sb_addr b) []) stream))"

definition ss_hop_udp :: "'b hop_lib \<Rightarrow> 'b shadowsocks_builder \<Rightarrow> bool \<Rightarrow> tower \<Rightarrow> tower res" where
  "ss_hop_udp H b build_tcp_inside io =
     (if build_tcp_inside then ss_hop_tcp H b io
      else Ok (SsDatagrams (sb_addr b) (sb_method b) (sb_key b) io))"

section \<open>The hops that carry a byte stream only\<close>

definition tls_hop_tcp :: "'b hop_lib \<Rightarrow> tls_stream_builder \<Rightarrow> tower \<Rightarrow> tower res" where
  "tls_hop_tcp H b io =
     (if \<not> hl_tls_configure H (tb_connector b) then Panic
      else case hl_tls H b io of
             None \<Rightarrow> Ok (TlsLayer b io)
           | Some e \<Rightarrow> Err (new_error e))"

definition ws_hop_tcp ::
  "'b hop_lib \<Rightarrow> string \<Rightarrow> nat \<Rightarrow> string \<Rightarrow> (string \<times> string) list \<Rightarrow> tower \<Rightarrow> tower res" where
  "ws_hop_tcp H uri max_early_data early_data_header_name headers io =
     bind_res (ws_req (hl_ws_lib H) uri max_early_data early_data_header_name headers) (\<lambda>req.
       if max_early_data > 0 then Ok (WsEarlyLayer req early_data_header_name max_early_data io)
       else bind_res (hl_ws H req io) (\<lambda>status.
         if status \<noteq> 101 then Err (new_error (''bad status: '' @ hl_status H status))
         else Ok (WsLayer req io)))"

definition obfs_hop_tcp :: "address \<Rightarrow> tower \<Rightarrow> tower res" where
  "obfs_hop_tcp host io = Ok (ObfsLayer host io)"

definition http2_hop_tcp ::
  "'b hop_lib \<Rightarrow> string list \<Rightarrow> (string \<times> string) list \<Rightarrow> string \<Rightarrow> string \<Rightarrow> tower \<Rightarrow> tower res" where
  "http2_hop_tcp H hs kvs meth pq io =
     bind_res (hl_h2_handshake H io) (\<lambda>_.
     bind_res (http2_request (hl_uri_ok H) (hl_header_ok H) (hl_random H) hs kvs meth pq) (\<lambda>req.
     bind_res (hl_h2_request H req io) (\<lambda>_.
     bind_res (hl_h2_response H req io) (\<lambda>_. Ok (Http2Layer req io)))))"

text \<open>gRPC does not wait for the response; its stream does.\<close>

definition grpc_hop_tcp :: "'b hop_lib \<Rightarrow> string \<Rightarrow> string \<Rightarrow> tower \<Rightarrow> tower res" where
  "grpc_hop_tcp H host pq io =
     bind_res (hl_h2_handshake H io) (\<lambda>_.
     bind_res (grpc_request (hl_uri_ok H) host pq) (\<lambda>req.
     bind_res (hl_h2_request H req io) (\<lambda>_. Ok (GrpcLayer req io))))"

text \<open>For datagrams each of them is built when a stream is asked of it, and left out otherwise.\<close>

definition tls_hop_udp :: "'b hop_lib \<Rightarrow> tls_stream_builder \<Rightarrow> bool \<Rightarrow> tower \<Rightarrow> tower res" where
  "tls_hop_udp H b build_tcp_inside io = (if build_tcp_inside then tls_hop_tcp H b io else Ok io)"

definition ws_hop_udp ::
  "'b hop_lib \<Rightarrow> string \<Rightarrow> nat \<Rightarrow> string \<Rightarrow> (string \<times> string) list \<Rightarrow> bool \<Rightarrow> tower \<Rightarrow> tower res" where
  "ws_hop_udp H uri max_early_data early_data_header_name headers build_tcp_inside io =
     (if build_tcp_inside then ws_hop_tcp H uri max_early_data early_data_header_name headers io else Ok io)"

definition obfs_hop_udp :: "address \<Rightarrow> bool \<Rightarrow> tower \<Rightarrow> tower res" where
  "obfs_hop_udp host build_tcp_inside io = (if build_tcp_inside then obfs_hop_tcp host io else Ok io)"

definition http2_hop_udp ::
  "'b hop_lib \<Rightarrow> string list \<Rightarrow> (string \<times> string) list \<Rightarrow> string \<Rightarrow> string \<Rightarrow> bool \<Rightarrow> tower \<Rightarrow> tower res" where
  "http2_hop_udp H hs kvs meth pq build_tcp_inside io =
     (if build_tcp_inside then http2_hop_tcp H hs kvs meth pq io else Ok io)"

definition grpc_hop_udp :: "'b hop_lib \<Rightarrow> string \<Rightarrow> string \<Rightarrow> bool \<Rightarrow> tower \<Rightarrow> tower res" where
  "grpc_hop_udp H host pq build_tcp_inside io =
     (if build_tcp_inside then grpc_hop_tcp H host pq io else Ok io)"

definition direct_hop_tcp :: "tower \<Rightarrow> tower res" where
  "direct_hop_tcp io = Ok io"

definition direct_hop_udp :: "bool \<Rightarrow> tower \<Rightarrow> tower res" where
  "direct_hop_udp build_tcp_inside io = Ok io"

text \<open>\<open>unimplemented!()\<close>: a chain with a black hole refuses connections before.\<close>

definition black_hole_hop_tcp :: "tower \<Rightarrow> tower res" where
  "black_hole_hop_tcp io = Panic"

definition black_hole_hop_udp :: "bool \<Rightarrow> tower \<Rightarrow> tower res" where
  "black_hole_hop_udp build_tcp_inside io = Panic"

section \<open>The network of a chain\<close>

fun build_hop_tcp :: "'b hop_lib \<Rightarrow> stream_builder \<Rightarrow> tower \<Rightarrow> tower res" where
  "build_hop_tcp H (VmessBuilder opt) = vmess_hop_tcp opt"
| "build_hop_tcp H (TrojanStreamBuilder a pw) = trojan_hop_tcp H (trojan_new (hl_sha224 H) a pw False)"
| "build_hop_tcp H (TlsStreamBuilder b) = tls_hop_tcp H b"
| "build_hop_tcp H (BinaryWsStreamBuilder uri n name hs) = ws_hop_tcp H uri n name hs"
| "build_hop_tcp H BlackHoleStreamBuilder = black_hole_hop_tcp"
| "build_hop_tcp H DirectStreamBuilder = direct_hop_tcp"
| "build_hop_tcp H (ShadowsocksBuilder a pw k) =
     ss_hop_tcp H (shadowsocks_new_from_config (hl_md5 H) a pw k (hl_context H))"
| "build_hop_tcp H (GrpcStreamBuilder host pq) = grpc_hop_tcp H host pq"
| "build_hop_tcp H (SimpleObfsStreamBuilder host) = obfs_hop_tcp host"
| "build_hop_tcp H (Http2StreamBuilder hs kvs meth pq) = http2_hop_tcp H hs kvs meth pq"

fun build_hop_udp :: "'b hop_lib \<Rightarrow> stream_builder \<Rightarrow> bool \<Rightarrow> tower \<Rightarrow> tower res" where
  "build_hop_udp H (VmessBuilder opt) = vmess_hop_udp opt"
| "build_hop_udp H (TrojanStreamBuilder a pw) = trojan_hop_udp H (trojan_new (hl_sha224 H) a pw False)"
| "build_hop_udp H (TlsStreamBuilder b) = tls_hop_udp H b"
| "build_hop_udp H (BinaryWsStreamBuilder uri n name hs) = ws_hop_udp H uri n name hs"
| "build_hop_udp H BlackHoleStreamBuilder = black_hole_hop_udp"
| "build_hop_udp H DirectStreamBuilder = direct_hop_udp"
| "build_hop_udp H (ShadowsocksBuilder a pw k) =
     ss_hop_udp H (shadowsocks_new_from_config (hl_md5 H) a pw k (hl_context H))"
| "build_hop_udp H (GrpcStreamBuilder host pq) = grpc_hop_udp H host pq"
| "build_hop_udp H (SimpleObfsStreamBuilder host) = obfs_hop_udp host"
| "build_hop_udp H (Http2StreamBuilder hs kvs meth pq) = http2_hop_udp H hs kvs meth pq"

definition hop_network :: "'b hop_lib \<Rightarrow> tower network" where
  "hop_network H =
     \<lparr>net_tls = hl_tls_env H,
      connect_tcp = (\<lambda>a. map_res (\<lambda>_. TcpSocket a) (hl_connect_tcp H a)),
      connect_udp = (\<lambda>a. map_res (\<lambda>_. UdpSocket a) (hl_connect_udp H a)),
      hop_tcp = build_hop_tcp H, hop_udp = build_hop_udp H\<rparr>"

section \<open>What a tower carries\<close>

text \<open>
  What goes over the wire at each level: every layer expects a byte stream below it, except the
  Shadowsocks datagrams, which are packets of their own. A layer over the wrong kind carries nothing
  its peer could read.
\<close>

datatype stream_kind = ByteStream | Datagrams

fun kind_of :: "tower \<Rightarrow> stream_kind option" where
  "kind_of (TcpSocket a) = Some ByteStream"
| "kind_of (UdpSocket a) = Some Datagrams"
| "kind_of (VmessLayer opt io) =
     (if kind_of io = Some ByteStream then Some (if vo_is_udp opt then Datagrams else ByteStream) else None)"
| "kind_of (TrojanDatagrams io) = (if kind_of io = Some ByteStream then Some Datagrams else None)"
| "kind_of (SsDatagrams a k key io) = (if kind_of io = Some Datagrams then Some Datagrams else None)"
| "kind_of (TrojanHeader h io) = (if kind_of io = Some ByteStream then Some ByteStream else None)"
| "kind_of (SsStream a k key io) = (if kind_of io = Some ByteStream then Some ByteStream else None)"
| "kind_of (TlsLayer b io) = (if kind_of io = Some ByteStream then Some ByteStream else None)"
| "kind_of (WsLayer req io) = (if kind_of io = Some ByteStream then Some ByteStream else None)"
| "kind_of (WsEarlyLayer req name n io) = (if kind_of io = Some ByteStream then Some ByteStream else None)"
| "kind_of (ObfsLayer host io) = (if kind_of io = Some ByteStream then Some ByteStream else None)"
| "kind_of (Http2Layer req io) = (if kind_of io = Some ByteStream then Some ByteStream else None)"
| "kind_of (GrpcLayer req io) = (if kind_of io = Some ByteStream then Some ByteStream else None)"

text \<open>
  The operations that are implemented down to the socket, reading and writing bytes first and
  datagrams second: the traits \<open>UdpRead\<close> and \<open>UdpWrite\<close> default to \<open>unimplemented!()\<close>, which most
  streams keep, and the datagram streams leave \<open>AsyncRead\<close> and \<open>AsyncWrite\<close> unimplemented.
\<close>

fun stream_ops :: "tower \<Rightarrow> bool \<times> bool" where
  "stream_ops (TcpSocket a) = (True, False)"
| "stream_ops (UdpSocket a) = (True, True)"
| "stream_ops (VmessLayer opt io) = (fst (stream_ops io), fst (stream_ops io))"
| "stream_ops (TrojanDatagrams io) = (False, fst (stream_ops io))"
| "stream_ops (SsDatagrams a k key io) = (False, snd (stream_ops io))"
| "stream_ops (TrojanHeader h io) = stream_ops io"
| "stream_ops (SsStream a k key io) = (fst (stream_ops io), False)"
| "stream_ops (TlsLayer b io) = (fst (stream_ops io), False)"
| "stream_ops (WsLayer req io) = (fst (stream_ops io), False)"
| "stream_ops (WsEarlyLayer req name n io) = (fst (stream_ops io), False)"
| "stream_ops (ObfsLayer host io) = (fst (stream_ops io), False)"
| "stream_ops (Http2Layer req io) = (fst (stream_ops io), False)"
| "stream_ops (GrpcLayer req io) = (fst (stream_ops io), False)"

lemmas hop_defs = vmess_layer_def vmess_hop_tcp_def vmess_hop_udp_def trojan_header_def trojan_hop_tcp_def
  trojan_hop_udp_def ss_hop_tcp_def ss_hop_udp_def tls_hop_tcp_def tls_hop_udp_def ws_hop_tcp_def
  ws_hop_udp_def obfs_hop_tcp_def obfs_hop_udp_def http2_hop_tcp_def http2_hop_udp_def grpc_hop_tcp_def
  grpc_hop_udp_def direct_hop_tcp_def direct_hop_udp_def black_hole_hop_tcp_def black_hole_hop_udp_def

lemma kind_of_inside:
  assumes "build_hop_udp H b True io = Ok t \<or> build_hop_tcp H b io = Ok t" "\<forall>opt. b = VmessBuilder opt \<longrightarrow> \<not> vo_is_udp opt"
  shows "kind_of io = Some ByteStream \<Longrightarrow> kind_of t = Some ByteStream"
    and "fst (stream_ops io) \<Longrightarrow> fst (stream_ops t)"
  using assms by (cases b; auto simp: hop_defs res_simps Let_def split: if_splits option.splits)+

lemma kind_of_outside:
  assumes "build_hop_udp H b False io = Ok t"
  shows "is_uot (builder_protocol_type b) \<Longrightarrow>
      kind_of t = (if kind_of io = Some ByteStream then Some Datagrams else None) \<and>
      (fst (stream_ops io) \<longrightarrow> snd (stream_ops t))"
    and "\<not> is_uot (builder_protocol_type b) \<Longrightarrow>
      (kind_of io = Some Datagrams \<longrightarrow> kind_of t = Some Datagrams) \<and>
      (kind_of io = None \<longrightarrow> kind_of t = None) \<and> (snd (stream_ops io) \<longrightarrow> snd (stream_ops t))"
  using assms by (cases b; auto simp: hop_defs res_simps Let_def split: if_splits option.splits)+

section \<open>The markers fit the hops\<close>

fun tcp_marks :: "bool list \<Rightarrow> bool list" where
  "tcp_marks [] = []"
| "tcp_marks (u # us) = (True \<in> set us) # tcp_marks us"

lemma length_tcp_marks [simp]: "length (tcp_marks us) = length us"
  by (induction us) auto

lemma tcp_marks_Nil_iff [simp]: "tcp_marks us = [] \<longleftrightarrow> us = []"
  by (cases us) auto

lemma tcp_marks_nth: "i < length us \<Longrightarrow> tcp_marks us ! i \<longleftrightarrow> (\<exists>j. i < j \<and> j < length us \<and> us ! j)"
proof (induction us arbitrary: i)
  case (Cons u us)
  show ?case
  proof (cases i)
    case 0
    have "True \<in> set us \<longleftrightarrow> (\<exists>k < length us. us ! k)" by (auto simp: in_set_conv_nth)
    also have "\<dots> \<longleftrightarrow> (\<exists>j. 0 < j \<and> j < length (u # us) \<and> (u # us) ! j)"
      by (metis Suc_less_eq gr0_conv_Suc length_Cons nth_Cons_Suc zero_less_Suc)
    finally show ?thesis using 0 by simp
  next
    case (Suc k)
    have "(\<exists>j. k < j \<and> j < length us \<and> us ! j) \<longleftrightarrow> (\<exists>j. Suc k < j \<and> j < length (u # us) \<and> (u # us) ! j)"
      by (metis Suc_less_eq Suc_lessE length_Cons nth_Cons_Suc)
    with Suc Cons show ?thesis by simp
  qed
qed simp

lemma build_udp_marker_marks:
  "build_udp_marker_impl [] (rev tys) = tcp_marks (map is_uot tys)"
proof (rule nth_equalityI)
  show "length (build_udp_marker_impl [] (rev tys)) = length (tcp_marks (map is_uot tys))"
    by (simp add: build_udp_marker_impl_def)
  fix i assume "i < length (build_udp_marker_impl [] (rev tys))"
  then have "i < length tys" by (simp add: build_udp_marker_impl_def)
  then show "build_udp_marker_impl [] (rev tys) ! i = tcp_marks (map is_uot tys) ! i"
    by (auto simp: build_udp_marker_impl_nth tcp_marks_nth)
qed

definition plain_builder :: "stream_builder \<Rightarrow> bool" where
  "plain_builder b \<longleftrightarrow> (\<forall>opt. b = VmessBuilder opt \<longrightarrow> \<not> vo_is_udp opt)"

lemma to_chainable_plain: "to_chainable_stream_builder E c addr = Ok b \<Longrightarrow> plain_builder b"
  by (cases c) (auto simp: plain_builder_def res_simps split: if_splits)

lemma run_tcp_hops:
  "run_hops (build_hop_tcp H) bs io = Ok t \<Longrightarrow> \<forall>b \<in> set bs. plain_builder b \<Longrightarrow>
     kind_of io = Some ByteStream \<Longrightarrow> fst (stream_ops io) \<Longrightarrow>
     kind_of t = Some ByteStream \<and> fst (stream_ops t)"
proof (induction bs arbitrary: io)
  case (Cons b bs)
  then obtain io' where io': "build_hop_tcp H b io = Ok io'" "run_hops (build_hop_tcp H) bs io' = Ok t"
    by (auto simp: res_simps)
  have "\<forall>opt. b = VmessBuilder opt \<longrightarrow> \<not> vo_is_udp opt" using Cons.prems(2) by (auto simp: plain_builder_def)
  from kind_of_inside [OF disjI2 [OF io'(1)] this] Cons.IH [OF io'(2)] Cons.prems show ?case by simp
qed simp

lemma run_udp_hops:
  "run_hops (\<lambda>(b, m). build_hop_udp H b m) (zip bs (tcp_marks (map is_uot (map builder_protocol_type bs)))) io = Ok t \<Longrightarrow>
     \<forall>b \<in> set bs. plain_builder b \<Longrightarrow>
     (if \<exists>b \<in> set bs. is_uot (builder_protocol_type b)
      then kind_of io = Some ByteStream \<and> fst (stream_ops io)
      else kind_of io \<noteq> Some ByteStream \<and> snd (stream_ops io)) \<Longrightarrow>
     snd (stream_ops t) \<and> kind_of t = (if kind_of io = None then None else Some Datagrams)"
proof (induction bs arbitrary: io)
  case Nil
  then show ?case by (cases "kind_of io") (auto intro: stream_kind.exhaust)
next
  case (Cons b bs)
  let ?later = "\<exists>b \<in> set bs. is_uot (builder_protocol_type b)"
  have later: "True \<in> (is_uot \<circ> builder_protocol_type) ` set bs \<longleftrightarrow> ?later" by force
  from Cons.prems(1) obtain io' where io': "build_hop_udp H b ?later io = Ok io'"
    "run_hops (\<lambda>(b, m). build_hop_udp H b m) (zip bs (tcp_marks (map is_uot (map builder_protocol_type bs)))) io' = Ok t"
    by (auto simp: res_simps later)
  note IH = Cons.IH [OF io'(2)]
  show ?case
  proof (cases ?later)
    case True
    have "\<forall>opt. b = VmessBuilder opt \<longrightarrow> \<not> vo_is_udp opt" using Cons.prems(2) by (auto simp: plain_builder_def)
    with True io'(1) kind_of_inside [of H b io io'] Cons.prems(2,3) IH show ?thesis by simp
  next
    case False
    with io'(1) have f: "build_hop_udp H b False io = Ok io'" by simp
    show ?thesis
    proof (cases "is_uot (builder_protocol_type b)")
      case True
      with kind_of_outside(1) [OF f] Cons.prems(2,3) False IH show ?thesis by auto
    next
      case not_uot: False
      have "kind_of io = None \<or> kind_of io = Some Datagrams"
        using Cons.prems(3) False not_uot by (cases "kind_of io") (auto intro: stream_kind.exhaust)
      with kind_of_outside(2) [OF f not_uot] Cons.prems(2,3) False not_uot IH show ?thesis by auto
    qed
  qed
qed

section \<open>The tunnels of a configured chain\<close>

lemma hop_of_plain: "plain_builder (hop_of E c a)"
  by (auto simp: hop_of_def plain_builder_def dest: to_chainable_plain split: res.splits)

lemma tunnel_plain: "b \<in> set (tunnel E cs dst) \<Longrightarrow> plain_builder b"
  by (induction cs) (auto intro: hop_of_plain)

lemma chain_plain:
  assumes "chain_of E cs ch"
  shows "\<forall>b \<in> set (ch_builders ch). plain_builder b"
proof -
  from assms have "ch_builders ch = tunnel E cs new_dummy_address \<or>
      ch_builders ch = butlast (tunnel E cs new_dummy_address)"
    unfolding chain_of_def by metis
  then show ?thesis using tunnel_plain in_set_butlastD by metis
qed

text \<open>A TCP connection through a chain, and one for datagrams, as a run over the builders of all hops.\<close>

lemma build_tcp_runs:
  assumes ch: "chain_of E cs ch" and t: "build_tcp N ch dst = Ok t"
  shows "\<exists>bs a io. (\<forall>b \<in> set bs. plain_builder b) \<and> connect_tcp N a = Ok io \<and> run_hops (hop_tcp N) bs io = Ok t"
proof -
  let ?bs = "ch_builders ch" and ?a = "case remote_addr ch of Some r \<Rightarrow> r | None \<Rightarrow> dst"
  from t obtain io io' where io: "connect_tcp N ?a = Ok io" "run_hops (hop_tcp N) ?bs io = Ok io'"
    "(case last_builder ch of
        Some b \<Rightarrow> bind_res (to_chainable_stream_builder (net_tls N) b (Some dst)) (\<lambda>b. hop_tcp N b io')
      | None \<Rightarrow> Ok io') = Ok t"
    by (auto simp: build_tcp_def res_simps split: if_splits)
  note plain = chain_plain [OF ch]
  show ?thesis
  proof (cases "last_builder ch")
    case None
    with io plain show ?thesis by auto
  next
    case (Some c)
    with io(3) obtain b where b: "to_chainable_stream_builder (net_tls N) c (Some dst) = Ok b" "hop_tcp N b io' = Ok t"
      by (auto simp: res_simps)
    with io plain to_chainable_plain [OF b(1)] show ?thesis
      by (intro exI [of _ "?bs @ [b]"] exI [of _ ?a] exI [of _ io]) (auto simp: run_hops_append)
  qed
qed

lemma build_udp_runs:
  assumes ch: "chain_of E cs ch" and cs: "cs \<noteq> []" and t: "build_udp N ch dst = Ok t"
  shows "\<exists>bs a io. map builder_protocol_type bs = map get_protocol_type cs \<and> (\<forall>b \<in> set bs. plain_builder b) \<and>
    (if \<exists>c \<in> set (tl cs). is_uot (get_protocol_type c) then connect_tcp N a else connect_udp N a) = Ok io \<and>
    run_hops (\<lambda>(b, m). hop_udp N b m)
      (zip bs (tcp_marks (map is_uot (map get_protocol_type cs)))) io = Ok t"
proof -
  let ?bs = "ch_builders ch" and ?a = "case remote_addr ch of Some r \<Rightarrow> r | None \<Rightarrow> dst"
  let ?ms = "tcp_marks (map is_uot (map get_protocol_type cs))"
  have ms: "build_udp_marker ch = ?ms" using ch by (simp add: chain_of_def build_udp_marker_marks)
  obtain c0 cs' where cs0: "cs = c0 # cs'" using cs by (cases cs) auto
  have first: "(case build_udp_marker ch of [] \<Rightarrow> Panic | m # ms \<Rightarrow> if m then connect_tcp N ?a else connect_udp N ?a) =
      (if \<exists>c \<in> set (tl cs). is_uot (get_protocol_type c) then connect_tcp N ?a else connect_udp N ?a)"
    unfolding ms cs0 by (auto simp: image_iff)
  let ?connect = "if \<exists>c \<in> set (tl cs). is_uot (get_protocol_type c) then connect_tcp N ?a else connect_udp N ?a"
  let ?last = "\<lambda>io'. case last_builder ch of
        Some b \<Rightarrow>
          bind_res (to_chainable_stream_builder (net_tls N) b
                      (if is_uot (get_protocol_type b) then Some dst else last_udp_addr ch))
            (\<lambda>sb. hop_udp N sb (last ?ms) io')
      | None \<Rightarrow> Ok io'"
  have "bind_res ?connect (\<lambda>io. bind_res (run_hops (\<lambda>(b, m). hop_udp N b m) (zip ?bs ?ms) io) ?last) = Ok t"
    using t unfolding build_udp_def Let_def first unfolding ms by (simp only: split: if_splits) simp_all
  then obtain io io' where io: "?connect = Ok io"
    "run_hops (\<lambda>(b, m). hop_udp N b m) (zip ?bs ?ms) io = Ok io'" "?last io' = Ok t"
    unfolding bind_res_Ok_iff by blast
  note plain = chain_plain [OF ch]
  show ?thesis
  proof (cases "last_builder ch")
    case None
    with ch have "?bs = tunnel E cs dst" "chain_loads E cs" by (auto simp: chain_of_def split: if_splits)
    then have "map builder_protocol_type ?bs = map get_protocol_type cs" by simp
    with None io plain show ?thesis by (intro exI [of _ ?bs] exI [of _ ?a] exI [of _ io]) simp
  next
    case (Some c)
    with ch have c: "c = last cs" "?bs = butlast (tunnel E cs dst)" "chain_loads E cs"
      by (auto simp: chain_of_def split: if_splits)
    from Some io(3) obtain b where b:
      "to_chainable_stream_builder (net_tls N) c (if is_uot (get_protocol_type c) then Some dst else last_udp_addr ch) = Ok b"
      "hop_udp N b (last ?ms) io' = Ok t" by (auto simp: res_simps)
    have "length ?ms \<noteq> 0" using cs by simp
    then have len: "length ?bs = length (butlast ?ms)" "?ms \<noteq> []" using c(2) by auto
    then have z: "zip (?bs @ [b]) ?ms = zip ?bs ?ms @ [(b, last ?ms)]"
      using zip_append [of ?bs "butlast ?ms" "[b]" "[last ?ms]"] zip_append [of ?bs "butlast ?ms" "[]" "[last ?ms]"]
      by simp
    have "map builder_protocol_type (?bs @ [b]) = map get_protocol_type (butlast cs) @ [get_protocol_type (last cs)]"
      unfolding c(2) map_append butlast_tunnel_types [OF cs c(3)] using c(1) to_chainable_type [OF b(1)] by simp
    also have "\<dots> = map get_protocol_type (butlast cs @ [last cs])" by simp
    finally have "map builder_protocol_type (?bs @ [b]) = map get_protocol_type cs"
      by (simp only: append_butlast_last_id [OF cs])
    moreover have "run_hops (\<lambda>(b, m). hop_udp N b m) (zip (?bs @ [b]) ?ms) io = Ok t"
      unfolding z run_hops_append using io(2) b(2) by simp
    ultimately show ?thesis using io(1) plain to_chainable_plain [OF b(1)]
      by (intro exI [of _ "?bs @ [b]"] exI [of _ ?a] exI [of _ io]) auto
  qed
qed

lemma tcp_tunnel_kind:
  assumes "chain_of E cs ch" "build_tcp (hop_network H) ch dst = Ok t"
  shows "kind_of t = Some ByteStream \<and> fst (stream_ops t)"
proof -
  from build_tcp_runs [OF assms] obtain bs a io where
    bs: "\<forall>b \<in> set bs. plain_builder b" and io: "io = TcpSocket a" "run_hops (build_hop_tcp H) bs io = Ok t"
    by (auto simp: hop_network_def res_simps)
  from run_tcp_hops [OF io(2) bs] io(1) show "kind_of t = Some ByteStream \<and> fst (stream_ops t)" by simp
qed

lemma udp_tunnel_kind:
  assumes "chain_of E (c # cs) ch" "build_udp (hop_network H) ch dst = Ok t"
  shows "kind_of t = (if is_uot (get_protocol_type c) \<and> \<not> (\<exists>d \<in> set cs. is_uot (get_protocol_type d))
        then None else Some Datagrams) \<and> snd (stream_ops t)"
proof -
  from build_udp_runs [OF assms(1) _ assms(2)] obtain bs a io where
    types: "map builder_protocol_type bs = map get_protocol_type (c # cs)" and bs: "\<forall>b \<in> set bs. plain_builder b"
    and base: "(if \<exists>d \<in> set cs. is_uot (get_protocol_type d) then connect_tcp (hop_network H) a
       else connect_udp (hop_network H) a) = Ok io"
    and runs: "run_hops (\<lambda>(b, m). hop_udp (hop_network H) b m)
      (zip bs (tcp_marks (map is_uot (map get_protocol_type (c # cs))))) io = Ok t"
    unfolding list.sel by blast
  have io: "io = (if \<exists>d \<in> set cs. is_uot (get_protocol_type d) then TcpSocket a else UdpSocket a)"
    using base by (auto simp: hop_network_def res_simps split: if_splits)
  have run: "run_hops (\<lambda>(b, m). build_hop_udp H b m)
      (zip bs (tcp_marks (map is_uot (map builder_protocol_type bs)))) io = Ok t"
    using runs unfolding types by (simp only: hop_network_def network.simps)
  from types obtain b bs' where b: "bs = b # bs'" "builder_protocol_type b = get_protocol_type c"
    "map builder_protocol_type bs' = map get_protocol_type cs" by (cases bs) auto
  have later: "(\<exists>d \<in> set bs'. is_uot (builder_protocol_type d)) \<longleftrightarrow> (\<exists>d \<in> set cs. is_uot (get_protocol_type d))"
    using arg_cong [OF b(3), of "\<lambda>xs. \<exists>x \<in> set xs. is_uot x"] by simp
  show "kind_of t = (if is_uot (get_protocol_type c) \<and> \<not> (\<exists>d \<in> set cs. is_uot (get_protocol_type d))
        then None else Some Datagrams) \<and> snd (stream_ops t)"
  proof (cases "is_uot (get_protocol_type c) \<and> \<not> (\<exists>d \<in> set cs. is_uot (get_protocol_type d))")
    case False
    with run_udp_hops [OF run bs] io b(1,2) later show ?thesis by auto
  next
    case True
    have "True \<notin> set (map is_uot (map builder_protocol_type bs'))" using True later by auto
    with run b(1) obtain io' where io': "build_hop_udp H b False io = Ok io'"
      "run_hops (\<lambda>(b, m). build_hop_udp H b m)
        (zip bs' (tcp_marks (map is_uot (map builder_protocol_type bs')))) io' = Ok t"
      by (auto simp: res_simps simp del: set_map)
    have "kind_of io' = None \<and> snd (stream_ops io')"
      using kind_of_outside(1) [OF io'(1)] True b(2) io by simp
    with run_udp_hops [OF io'(2)] bs b(1) later True show ?thesis by simp
  qed
qed

text \<open>
  C15: The tunnels of a configured chain carry what their layers expect. A TCP connection is a byte
  stream all the way, with reading and writing implemented at every layer. A connection for datagrams
  ends in a layer whose datagram operations are implemented down to the socket, and it carries
  datagrams, except when the first hop is the last one that carries datagrams over a stream (a lone
  VMess or Trojan server): then the hop is built over a UDP socket and its stream protocol is sent in
  datagrams.
\<close>
theorem tunnel_kinds:
  assumes "chain_of E (c # cs) ch"
  shows "(\<forall>t. build_tcp (hop_network H) ch dst = Ok t \<longrightarrow>
      kind_of t = Some ByteStream \<and> fst (stream_ops t)) \<and>
    (\<forall>t. build_udp (hop_network H) ch dst = Ok t \<longrightarrow>
      kind_of t = (if is_uot (get_protocol_type c) \<and> \<not> (\<exists>d \<in> set cs. is_uot (get_protocol_type d))
                   then None else Some Datagrams) \<and> snd (stream_ops t))"
  using tcp_tunnel_kind [OF assms] udp_tunnel_kind [OF assms] by blast

definition demo_hops :: "unit hop_lib" where
  "demo_hops =
     \<lparr>hl_connect_tcp = (\<lambda>a. Ok ()), hl_connect_udp = (\<lambda>a. Ok ()), hl_write = (\<lambda>bs io. Ok ()),
      hl_tls_env = demo_tls_env, hl_tls_configure = (\<lambda>c. True), hl_tls = (\<lambda>b io. None), hl_ws = (\<lambda>req io. Ok 101), hl_status = (\<lambda>n. ''''),
      hl_ws_lib = demo_ws_lib, hl_h2_handshake = (\<lambda>io. Ok ()), hl_h2_request = (\<lambda>req io. Ok ()),
      hl_h2_response = (\<lambda>req io. Ok ()), hl_uri_ok = (\<lambda>h p. True), hl_header_ok = (\<lambda>k v. True),
      hl_random = 0, hl_md5 = (\<lambda>bs. replicate 16 0), hl_sha224 = (\<lambda>bs. replicate 28 0),
      hl_context = \<lparr>blooms = [], bloom_count = [], item_count = 0, current = 0\<rparr>\<rparr>"

lemma tunnel_kinds_witness:
  "\<exists>t. build_udp (hop_network demo_hops)
      \<lparr>ch_builders = [], remote_addr = Some (DomainNameAddress ''a.b'' 443), last_udp_addr = None,
       build_udp_marker = [False],
       last_builder = Some (VmessConfig \<lparr>vc_addr = DomainNameAddress ''a.b'' 443, vc_uuid = [],
         vc_security_num = 3, vc_tag = ''v''\<rparr>),
       is_full_cone = True, is_black_hole = False\<rparr> (DomainNameAddress ''d'' 53) = Ok t \<and>
    kind_of t = None \<and> snd (stream_ops t)"
proof -
  let ?c = "VmessConfig \<lparr>vc_addr = DomainNameAddress ''a.b'' 443, vc_uuid = [], vc_security_num = 3, vc_tag = ''v''\<rparr>"
  let ?ch = "\<lparr>ch_builders = [], remote_addr = Some (DomainNameAddress ''a.b'' 443), last_udp_addr = None,
    build_udp_marker = [False], last_builder = Some ?c, is_full_cone = True, is_black_hole = False\<rparr>"
  have "chain_of demo_tls_env [?c] ?ch" by (simp add: chain_of_def build_udp_marker_marks [of "[_]", simplified])
  from tunnel_kinds [OF this, of demo_hops "DomainNameAddress ''d'' 53"] show ?thesis
    by (simp add: build_udp_def hop_network_def demo_hops_def vmess_hop_udp_def vmess_layer_def
        AES_128_GCM_SECURITY_NUM_def)
qed

end
