(* ===== verification/Startup.thy ===== *)
theory Startup
  imports Instances Server
begin

text \<open>
  From the command line to a running server: \<open>src/main.rs\<close>, the listeners that
  \<open>src/config/server_builder.rs\<close> opens, and the transparent listener of
  \<open>src/proxy/dokodemo_door/mod.rs\<close> as the system calls it makes. Parsing the arguments, reading the
  file, the system calls and the actix server are parameters.
\<close>

section \<open>The transparent listener\<close>

datatype sys_call =
    CreateSocket bool
  | SetNonblocking
  | SetReuseAddress
  | SetIpv6Transparent bool
  | SetIpTransparent bool
  | BindSocket socket_addr
  | ListenSocket int

text \<open>The calls are made in order up to the first that fails.\<close>

fun run_calls :: "(sys_call \<Rightarrow> io_error option) \<Rightarrow> sys_call list \<Rightarrow> sys_call list \<times> unit res" where
  "run_calls os [] = ([], Ok ())"
| "run_calls os (c # cs) =
     (case os c of
        Some e \<Rightarrow> ([c], Err e)
      | None \<Rightarrow> (case run_calls os cs of (made, x) \<Rightarrow> (c # made, x)))"

fun is_sock_v6 :: "socket_addr \<Rightarrow> bool" where
  "is_sock_v6 (SockV4 ip p) = False"
| "is_sock_v6 (SockV6 ip p f s) = True"

definition door_calls :: "bool \<Rightarrow> socket_addr \<Rightarrow> bool \<Rightarrow> u32 \<Rightarrow> sys_call list" where
  "door_calls linux a tproxy backlog =
     [CreateSocket (is_sock_v6 a), SetNonblocking] @
     (if linux then [SetReuseAddress, if is_sock_v6 a then SetIpv6Transparent tproxy else SetIpTransparent tproxy]
      else []) @
     [BindSocket a, ListenSocket (sint backlog)]"

definition build_dokodemo_door_listener ::
  "bool \<Rightarrow> (sys_call \<Rightarrow> io_error option) \<Rightarrow> dokodemo_door \<Rightarrow> u32 \<Rightarrow> sys_call list \<times> unit res" where
  "build_dokodemo_door_listener linux os door backlog =
     (case dk_addr door of
        SocketAddress a \<Rightarrow> run_calls os (door_calls linux a (dk_tproxy door) backlog)
      | DomainNameAddress h p \<Rightarrow> ([], Err (new_error ''unsupported dokodemo door listen addr type.'')))"

section \<open>Starting the server\<close>

text \<open>
  A service of the server: the doors first, each with the target taken from its configuration, then
  the inbounds with their counters. Registering a listener and binding an address may fail.
\<close>

datatype registered =
    DoorService dokodemo_door
  | InboundService inbounds "(string \<times> string) option"

definition inbound_counters :: "('m, 'r) config_server \<Rightarrow> inbounds \<Rightarrow> (string \<times> string) option res" where
  "inbound_counters sv inb =
     (if sv_enable_api_server sv then
        bind_res (find_counter sv (counter_name ''inbound'' (ib_tag inb) ''downlink'')) (\<lambda>in_down.
        bind_res (find_counter sv (counter_name ''inbound'' (ib_tag inb) ''uplink'')) (\<lambda>in_up.
          Ok (Some (in_up, in_down))))
      else Ok None)"

fun start_doors ::
  "bool \<Rightarrow> (sys_call \<Rightarrow> io_error option) \<Rightarrow> (dokodemo_door \<Rightarrow> unit res) \<Rightarrow> u32 \<Rightarrow> dokodemo_door list \<Rightarrow>
     registered list res" where
  "start_doors linux os listen backlog [] = Ok []"
| "start_doors linux os listen backlog (door # doors) =
     bind_res (snd (build_dokodemo_door_listener linux os door backlog)) (\<lambda>_.
     bind_res (listen door) (\<lambda>_.
     bind_res (start_doors linux os listen backlog doors) (\<lambda>services. Ok (DoorService door # services))))"

fun start_inbounds ::
  "('m, 'r) config_server \<Rightarrow> (string \<Rightarrow> unit res) \<Rightarrow> (socket_addr \<Rightarrow> string) \<Rightarrow> inbounds list \<Rightarrow> registered list res" where
  "start_inbounds sv bind_addr show_sock [] = Ok []"
| "start_inbounds sv bind_addr show_sock (inb # inbs) =
     bind_res (inbound_counters sv inb) (\<lambda>counters.
     bind_res (bind_addr (address_display show_sock (ib_addr inb))) (\<lambda>_.
     bind_res (start_inbounds sv bind_addr show_sock inbs) (\<lambda>services.
       Ok (InboundService inb counters # services))))"

record started =
  st_api :: "socket_addr res option"
  st_backlog :: u32
  st_services :: "registered list"

text \<open>
  The system as the server meets it: whether Linux, the system calls, registering a listener,
  binding an address, the printer of socket addresses, and serving. The API server is a task of its
  own; its address must be a socket address or the task panics.
\<close>

record host =
  ho_linux :: bool
  ho_os :: "sys_call \<Rightarrow> io_error option"
  ho_listen :: "dokodemo_door \<Rightarrow> unit res"
  ho_bind :: "string \<Rightarrow> unit res"
  ho_show :: "socket_addr \<Rightarrow> string"
  ho_serve :: "started \<Rightarrow> unit res"

definition server_start :: "host \<Rightarrow> ('m, 'r) config_server \<Rightarrow> started res" where
  "server_start hst sv =
     bind_res (start_doors (ho_linux hst) (ho_os hst) (ho_listen hst) (sv_backlog sv) (sv_dokodemo sv)) (\<lambda>doors.
     bind_res (start_inbounds sv (ho_bind hst) (ho_show hst) (sv_inbounds sv)) (\<lambda>inbs.
       Ok \<lparr>st_api = (if sv_enable_api_server sv then Some (get_sock_addr (sv_api_server_addr sv)) else None),
           st_backlog = sv_backlog sv, st_services = doors @ inbs\<rparr>))"

definition server_run :: "host \<Rightarrow> ('m, 'r) config_server \<Rightarrow> unit res" where
  "server_run hst sv = bind_res (server_start hst sv) (ho_serve hst)"

section \<open>The entry point\<close>

definition config_read_from_file ::
  "(string \<Rightarrow> string res) \<Rightarrow> (string \<Rightarrow> config res) \<Rightarrow> string \<Rightarrow> config res" where
  "config_read_from_file read_to_string from_toml filename = bind_res (read_to_string filename) from_toml"

text \<open>\<open>-c filename\<close> and \<open>-t\<close>; \<open>E\<close> is where the TLS hops find their certificates. No result when building the server does not end.\<close>

definition main_run ::
  "tls_env \<Rightarrow> (string \<Rightarrow> config res) \<Rightarrow> ('m, 'r) router_lib \<Rightarrow> ('s, 'w) coded_input \<Rightarrow> bool \<Rightarrow> host \<Rightarrow> string \<Rightarrow> bool \<Rightarrow>
     unit res option" where
  "main_run E read_config L C checks hst filename validate =
     (if validate then Some (map_res (\<lambda>c. ()) (read_config filename))
      else case read_config filename of
             Ok c \<Rightarrow> map_option (\<lambda>sv. bind_res sv (server_run hst)) (build_server E L C checks c)
           | Err e \<Rightarrow> Some (Err e)
           | Panic \<Rightarrow> Some Panic)"

section \<open>Starting\<close>

lemma run_calls_all: "\<forall>c \<in> set cs. os c = None \<Longrightarrow> run_calls os cs = (cs, Ok ())"
  by (induction cs) auto

text \<open>The calls made are a prefix of the planned ones, all but the last successful.\<close>

lemma run_calls_prefix:
  "run_calls os cs = (made, x) \<Longrightarrow>
     (\<exists>rest. cs = made @ rest \<and> (x = Ok () \<longrightarrow> rest = [])) \<and> x \<noteq> Panic \<and> (\<forall>c \<in> set (butlast made). os c = None)"
proof (induction cs arbitrary: made x)
  case (Cons c cs)
  show ?case
  proof (cases "os c")
    case None
    obtain m y where m: "run_calls os cs = (m, y)" by fastforce
    with None Cons.prems have "made = c # m" "x = y" by auto
    with Cons.IH [OF m] None show ?thesis by auto
  qed (use Cons.prems in auto)
qed simp

lemma inbound_counters_Ok:
  "inb \<in> set (sv_inbounds sv) \<Longrightarrow> inbound_counters sv inb =
     Ok (if sv_enable_api_server sv
         then Some (counter_name ''inbound'' (ib_tag inb) ''uplink'', counter_name ''inbound'' (ib_tag inb) ''downlink'')
         else None)"
  by (auto simp: inbound_counters_def find_counter_def counter_keys_def)

lemma start_doors_Ok:
  assumes "\<forall>c. os c = None" "\<forall>d. listen d = Ok ()" "\<forall>d \<in> set doors. \<exists>a. dk_addr d = SocketAddress a"
  shows "start_doors linux os listen backlog doors = Ok (map DoorService doors)"
  using assms by (induction doors) (auto simp: build_dokodemo_door_listener_def run_calls_all)

lemma start_inbounds_Ok:
  assumes "\<forall>a. bind_addr a = Ok ()" "set inbs \<subseteq> set (sv_inbounds sv)"
  shows "start_inbounds sv bind_addr show_sock inbs = Ok (map (\<lambda>inb. InboundService inb
     (if sv_enable_api_server sv
      then Some (counter_name ''inbound'' (ib_tag inb) ''uplink'', counter_name ''inbound'' (ib_tag inb) ''downlink'')
      else None)) inbs)"
  using assms by (induction inbs) (auto simp: inbound_counters_Ok)

lemma build_server_fields:
  "build_server E L C checks cf = Some (Ok sv) \<Longrightarrow>
     sv_backlog sv = cf_backlog cf \<and> sv_inbounds sv = cf_inbounds cf \<and> sv_dokodemo sv = cf_dokodemo cf \<and>
     sv_enable_api_server sv = cf_enable_api_server cf \<and> sv_api_server_addr sv = cf_api_server_addr cf"
  by (auto simp: build_server_def config_server_new_def Let_def res_simps split: res.splits if_splits)

text \<open>
  C16: A readable configuration whose outbounds, default and rules are sound, which uses no geosite or
  geoip file and whose doors have socket addresses, on a system that grants every call. When the
  certificates of all the TLS hops its outbounds name load, the program comes up: it serves exactly the
  configured doors and inbounds, in this order, every inbound with its own two counters when the API is
  enabled, at the configured backlog, and no lookup of the start panics. When a trust store or a
  configured authority file cannot be read, the program panics instead.
\<close>
theorem program_starts:
  assumes "read_config filename = Ok cf"
    and "\<forall>out \<in> set (cf_outbounds cf). \<exists>cs. outbound_ok cf out cs" and "cf_outbounds cf \<noteq> []"
    and "cf_default_outbound cf = [] \<or> cf_default_outbound cf \<in> ob_tag ` set (cf_outbounds cf)"
    and "matchers_ok L dm rm" "routing_ok L (cf_domain_routing_rules cf) (cf_ip_routing_rules cf)"
    and "cf_geosite_rules cf = []" "cf_geoip_rules cf = []"
    and "\<forall>door \<in> set (cf_dokodemo cf). \<exists>a. dk_addr door = SocketAddress a"
    and "\<forall>c. ho_os hst c = None" "\<forall>door. ho_listen hst door = Ok ()" "\<forall>a. ho_bind hst a = Ok ()"
  shows "if outbounds_load E cf (cf_outbounds cf)
    then \<exists>st. main_run E read_config L C checks hst filename False = Some (ho_serve hst st) \<and>
      st_backlog st = cf_backlog cf \<and>
      st_services st = map DoorService (cf_dokodemo cf) @
        map (\<lambda>inb. InboundService inb
          (if cf_enable_api_server cf
           then Some (counter_name ''inbound'' (ib_tag inb) ''uplink'', counter_name ''inbound'' (ib_tag inb) ''downlink'')
           else None)) (cf_inbounds cf)
    else main_run E read_config L C checks hst filename False = Some Panic"
proof (cases "outbounds_load E cf (cf_outbounds cf)")
  case False
  from build_server_Panic [OF assms(2) this, of L C checks] False assms(1) show ?thesis
    by (simp add: main_run_def)
next
  case True
  from build_server_correct [OF assms(2-8) True] obtain sv where
    sv: "build_server E L C checks cf = Some (Ok sv)" by blast
  note f = build_server_fields [OF sv]
  have doors: "start_doors (ho_linux hst) (ho_os hst) (ho_listen hst) (sv_backlog sv) (sv_dokodemo sv) =
      Ok (map DoorService (cf_dokodemo cf))"
    using start_doors_Ok [of "ho_os hst" "ho_listen hst" "cf_dokodemo cf"] assms(9-11) f by simp
  have inbs: "start_inbounds sv (ho_bind hst) (ho_show hst) (sv_inbounds sv) =
      Ok (map (\<lambda>inb. InboundService inb
        (if cf_enable_api_server cf
         then Some (counter_name ''inbound'' (ib_tag inb) ''uplink'', counter_name ''inbound'' (ib_tag inb) ''downlink'')
         else None)) (cf_inbounds cf))"
    using start_inbounds_Ok [of "ho_bind hst" "sv_inbounds sv" sv] assms(12) f by simp
  obtain st where "server_start hst sv = Ok st" and st: "st_backlog st = cf_backlog cf"
    "st_services st = map DoorService (cf_dokodemo cf) @
      map (\<lambda>inb. InboundService inb
        (if cf_enable_api_server cf
         then Some (counter_name ''inbound'' (ib_tag inb) ''uplink'', counter_name ''inbound'' (ib_tag inb) ''downlink'')
         else None)) (cf_inbounds cf)"
    using doors inbs f by (simp add: server_start_def)
  then have "main_run E read_config L C checks hst filename False = Some (ho_serve hst st)"
    using assms(1) sv by (simp add: main_run_def server_run_def)
  with st True show ?thesis by (simp only: if_True) blast
qed

definition demo_host :: host where
  "demo_host =
     \<lparr>ho_linux = True, ho_os = (\<lambda>c. None), ho_listen = (\<lambda>d. Ok ()), ho_bind = (\<lambda>a. Ok ()),
      ho_show = (\<lambda>a. []), ho_serve = (\<lambda>st. Ok ())\<rparr>"

lemma program_starts_witness:
  "(\<exists>st. main_run demo_tls_env (\<lambda>f. Ok demo_config) eq_router_lib empty_files True demo_host ''config.toml'' False =
      Some (ho_serve demo_host st) \<and>
    st_services st = map (\<lambda>inb. InboundService inb None) (cf_inbounds demo_config)) \<and>
   main_run (demo_tls_env\<lparr>te_platform := UnixPlatform (Some ''ca.pem'') (\<lambda>f. Err (new_error f)) (\<lambda>pem. Ok [pem])\<rparr>)
     (\<lambda>f. Ok demo_config) eq_router_lib empty_files True demo_host ''config.toml'' False = Some Panic"
proof -
  have d: "cf_outbounds demo_config \<noteq> []" "cf_default_outbound demo_config = [] \<or>
      cf_default_outbound demo_config \<in> ob_tag ` set (cf_outbounds demo_config)"
    "cf_geosite_rules demo_config = []" "cf_geoip_rules demo_config = []"
    "\<forall>door \<in> set (cf_dokodemo demo_config). \<exists>a. dk_addr door = SocketAddress a"
    "cf_dokodemo demo_config = []" "\<not> cf_enable_api_server demo_config"
    by (simp_all add: demo_config_def)
  let ?E = "demo_tls_env\<lparr>te_platform := UnixPlatform (Some ''ca.pem'') (\<lambda>f. Err (new_error f)) (\<lambda>pem. Ok [pem])\<rparr>"
  have "\<not> tls_loads ?E None" by (simp add: tls_loads_def load_native_certs_unix_def)
  then have "\<not> outbounds_load ?E demo_config (cf_outbounds demo_config)"
    using demo_outbounds(1) by (auto simp: outbounds_load_def chain_loads_def demo_tls_def)
  with program_starts [OF _ demo_config_ok(1) d(1,2) eq_router_lib_ok demo_config_ok(3) d(3,4,5),
      of "\<lambda>f. Ok demo_config" "''config.toml''" demo_host ?E empty_files True]
    program_starts [OF _ demo_config_ok(1) d(1,2) eq_router_lib_ok demo_config_ok(3) d(3,4,5),
      of "\<lambda>f. Ok demo_config" "''config.toml''" demo_host demo_tls_env empty_files True]
  show ?thesis using d(6,7) by (auto simp: demo_host_def demo_config_loads)
qed

text \<open>
  With \<open>-t\<close> the configuration is read and nothing else: it is called valid whatever building the
  server would say, an unknown tag in a chain included.
\<close>

lemma validation_reads_only:
  "read_config filename = Ok cf \<Longrightarrow> build_server E L C checks cf = Some (Err e) \<Longrightarrow>
     main_run E read_config L C checks hst filename True = Some (Ok ()) \<and>
     main_run E read_config L C checks hst filename False = Some (Err e)"
  by (simp add: main_run_def)

end
