(* ===== verification/Ss_Session.thy ===== *)
theory Ss_Session
  imports Ss_Stream
begin

text \<open>
  Two ends of a Shadowsocks connection: what \<open>CryptoStream::new\<close> and the writes of one end put on
  the wire, and what the reads of an end with the same key make of it.
\<close>

lemma fresh_salt_Some:
  "fresh_salt bl n rng p = Some (salt, rng', p') \<Longrightarrow>
     length salt = n \<and> (\<exists>q. check_nonce_and_set bl salt q = (False, p'))"
proof (induction bl n rng p rule: fresh_salt.induct)
  case (1 bl n rng p)
  then show ?case
    by (auto simp: fresh_salt.simps [of bl n rng p] dest: random_iv_or_salt_Some
        split: option.splits prod.splits bool.splits)
qed

text \<open>The sending end, between messages.\<close>

definition crypto_idle ::
  "aead_lib \<Rightarrow> cipher_kind \<Rightarrow> bytes \<Rightarrow> bytes \<times> nat \<Rightarrow> crypto_stream \<Rightarrow> bool" where
  "crypto_idle lib k sub c s \<longleftrightarrow>
     (\<exists>e. cs_enc s = EncAead e \<and> ew_idle lib k sub c (e, cs_writer s))"

definition crypto_busy ::
  "aead_lib \<Rightarrow> cipher_kind \<Rightarrow> bytes \<Rightarrow> bytes \<times> nat \<Rightarrow> bytes \<Rightarrow> nat \<Rightarrow> crypto_stream \<Rightarrow> bool" where
  "crypto_busy lib k sub c m n s \<longleftrightarrow>
     (\<exists>e. cs_enc s = EncAead e \<and> ew_busy lib k sub c m n (e, cs_writer s))"

interpretation crypto_out: message_sink
  "crypto_poll_write lib" "\<lambda>c m. length m \<le> MAX_PACKET_SIZE" length "ew_enc lib k sub" ew_adv
  "crypto_idle lib k sub" "crypto_busy lib k sub" "\<lambda>s. wr_sent (cs_writer s)"
  "\<lambda>s. length (wr_script (cs_writer s))" for lib k sub
proof
  fix c s p assume "crypto_idle lib k sub c s"
  then show "crypto_busy lib k sub c p 0 s"
    by (auto simp: crypto_idle_def crypto_busy_def ew_busy_def)
next
  fix m c n s out s'
  assume m: "length m \<le> MAX_PACKET_SIZE" and b: "crypto_busy lib k sub c m n s"
    and r: "crypto_poll_write lib m s = (out, s')"
  from b obtain e where e: "cs_enc s = EncAead e" "ew_busy lib k sub c m n (e, cs_writer s)"
    by (auto simp: crypto_busy_def)
  obtain q e' w' where q: "poll_write_encrypted lib m (e, cs_writer s) = (q, (e', w'))"
    by (metis surj_pair)
  have o: "out = q" "s' = s\<lparr>cs_enc := EncAead e', cs_writer := w'\<rparr>"
    using r e(1) q by (simp_all add: crypto_poll_write_def)
  from poll_write_encrypted_sends [OF m e(2) q] show
    "(\<exists>n'. out = Pending \<and> n \<le> n' \<and> crypto_busy lib k sub c m n' s' \<and>
        length (wr_script (cs_writer s')) < length (wr_script (cs_writer s)) \<and>
        wr_sent (cs_writer s') = wr_sent (cs_writer s) @ take (n' - n) (drop n (ew_enc lib k sub c m))) \<or>
     out = Ready (Ok (length m)) \<and> crypto_idle lib k sub (ew_adv c m) s' \<and>
     wr_sent (cs_writer s') = wr_sent (cs_writer s) @ drop n (ew_enc lib k sub c m)"
    by (simp add: o ew_sends_def crypto_busy_def crypto_idle_def)
qed

lemma crypto_stream_new_idle:
  assumes "aead_ok lib" "hkdf_ok hkdf" "k \<noteq> CK_None" "length key = key_len k"
    and w: "writer_live w"
    and new: "crypto_stream_new hkdf bl cap_of (r, w) key k rng p = Some (a, rng', p')"
  obtains salt c where "a = Ok c" "fresh_salt bl (salt_len k) rng p = Some (salt, rng', p')"
    "crypto_idle lib k (sub_key hkdf k key salt) (salt, 0) c" "cs_writer c = w"
    "cs_reader c = r" "cs_status c = WaitIv [] (cap_of (salt_len k)) k key"
proof -
  from assms(3) new obtain salt where f: "fresh_salt bl (salt_len k) rng p = Some (salt, rng', p')"
    and a: "a = map_res (\<lambda>enc. \<lparr>cs_reader = r, cs_writer = w, cs_dec = None, cs_enc = EncAead enc,
        cs_status = WaitIv [] (cap_of (salt_len k)) k key\<rparr>) (encrypted_writer_new hkdf k key salt)"
    by (auto simp: crypto_stream_new_def Let_def split: option.splits)
  from a assms aead_cipher_new_at [OF assms(2,3,4), of salt] fresh_salt_Some [OF f] f show ?thesis
    by (intro that [of _ salt])
      (auto simp: encrypted_writer_new_def crypto_idle_def ew_idle_def tag_len_def)
qed

text \<open>The sender: whatever its transport does, the salt and the frames go out, and nothing else.\<close>

lemma crypto_sends:
  assumes libs: "aead_ok lib" "hkdf_ok hkdf" "k \<noteq> CK_None" "length key = key_len k"
    and w: "writer_live w" and ms: "ms \<noteq> []" "\<And>m. m \<in> set ms \<Longrightarrow> length m \<le> MAX_PACKET_SIZE"
    and new: "crypto_stream_new hkdf bl cap_of (r, w) key k rng p = Some (a, rng', p')"
  shows "\<exists>c salt n c'. a = Ok c \<and> fresh_salt bl (salt_len k) rng p = Some (salt, rng', p') \<and>
    send_run (crypto_poll_write lib) n ms c = Some c' \<and>
    wr_sent (cs_writer c') = wr_sent w @ salt @ frames lib k (sub_key hkdf k key salt) 0 ms"
proof -
  from crypto_stream_new_idle [OF libs w new] obtain salt c where
    c: "a = Ok c" "fresh_salt bl (salt_len k) rng p = Some (salt, rng', p')" "crypto_idle lib k (sub_key hkdf k key salt) (salt, 0) c"
      "cs_writer c = w" by metis
  have "\<exists>n c'. send_run (crypto_poll_write lib) n ms c = Some c' \<and>
      wr_sent (cs_writer c') = wr_sent (cs_writer c) @
        enc_all (ew_enc lib k (sub_key hkdf k key salt)) ew_adv (salt, 0) ms"
    by (rule crypto_out.send_all [OF all_ok_const c(3)]) (rule ms(2))
  then obtain n c' where
    "send_run (crypto_poll_write lib) n ms c = Some c'"
    "wr_sent (cs_writer c') = wr_sent w @ enc_all (ew_enc lib k (sub_key hkdf k key salt)) ew_adv (salt, 0) ms"
    using c(4) by metis
  moreover obtain m ms' where "ms = m # ms'" using ms(1) by (cases ms) auto
  ultimately show ?thesis using c(1,2) by (metis enc_all_frames)
qed

text \<open>The receiver: however the bytes are cut, the messages come out, and then the end.\<close>

lemma crypto_receives:
  assumes libs: "aead_ok lib" "hkdf_ok hkdf" "k \<noteq> CK_None" "length key = key_len k"
    and ms: "\<And>m. m \<in> set ms \<Longrightarrow> length m \<le> MAX_PACKET_SIZE"
    and r: "clean r" "rx_bytes r = salt @ frames lib k (sub_key hkdf k key salt) 0 ms"
    and salt: "length salt = salt_len k" "\<not> fst (check_nonce_and_set bl salt q)"
    and c: "cs_reader c = r" "cs_status c = WaitIv [] (salt_len k) k key"
    and ns: "chunky chunk" "\<And>n. n \<in> set ns \<Longrightarrow> 0 < n" "length (concat ms) + rx_size r < length ns"
  shows "read_run (crypto_poll_read lib hkdf bl chunk broken) ns (c, q) = (concat ms, True)"
proof (rule crypto_in.read_all [OF _ ns(2)])
  show "chunky chunk \<and> crypto_source lib hkdf bl k key salt (concat ms) (c, q)"
    using assms by (auto simp: crypto_source_def)
qed (use ns c in simp_all)

text \<open>The two together, the receiver being a new stream of the same method and key.\<close>

lemma crypto_session:
  assumes libs: "aead_ok lib" "hkdf_ok hkdf" "k \<noteq> CK_None" "length key = key_len k"
    and ms: "ms \<noteq> []" "\<And>m. m \<in> set ms \<Longrightarrow> length m \<le> MAX_PACKET_SIZE"
    and snd_new: "crypto_stream_new hkdf bl cap_of (ra, wa) key k rng p = Some (Ok a, rng', p')"
      "writer_live wa" "wr_sent wa = []"
    and sent: "send_run (crypto_poll_write lib) n ms a = Some a'"
    and rcv_new: "crypto_stream_new hkdf bl (\<lambda>n. n) (rb, wb) key k rng2 q = Some (Ok b, rng2', q')"
      "clean rb" "rx_bytes rb = wr_sent (cs_writer a')"
      "\<not> fst (check_nonce_and_set bl (take (salt_len k) (rx_bytes rb)) q')"
    and room: "chunky chunk" "\<And>n. n \<in> set ns \<Longrightarrow> 0 < n" "length (concat ms) + rx_size rb < length ns"
  shows "read_run (crypto_poll_read lib hkdf bl chunk broken) ns (b, q') = (concat ms, True)"
proof -
  have "\<And>m. m \<in> set ms \<Longrightarrow> length m \<le> MAX_PACKET_SIZE" by (rule ms(2))
  from crypto_sends [OF libs snd_new(2) ms(1) this snd_new(1)] snd_new(3) obtain salt n0 c' where
    s0: "fresh_salt bl (salt_len k) rng p = Some (salt, rng', p')" and
    s: "send_run (crypto_poll_write lib) n0 ms a = Some c'"
      "wr_sent (cs_writer c') = salt @ frames lib k (sub_key hkdf k key salt) 0 ms" by auto
  have l: "length salt = salt_len k" using fresh_salt_Some [OF s0] by blast
  have "c' = a'" using send_run_unique [OF s(1) sent] .
  then have rb: "rx_bytes rb = salt @ frames lib k (sub_key hkdf k key salt) 0 ms"
    using s(2) rcv_new(3) by simp
  from libs(3) rcv_new(1) have b: "cs_reader b = rb" "cs_status b = WaitIv [] (salt_len k) k key"
    by (auto simp: crypto_stream_new_def Let_def res_simps split: option.splits)
  show ?thesis
  proof (rule crypto_receives [OF libs ms(2) rcv_new(2) rb l _ b room])
    show "\<not> fst (check_nonce_and_set bl salt q')" using rcv_new(4) rb l by simp
  qed
qed

end
