(* ===== verification/Spec2Isabelle.thy ===== *)
theory Spec2Isabelle
  imports Sessions Websocket Http2 Hops Tls Startup Ss_Session Geoip Insert_Order_Map Router_Proofs Chain
begin

text \<open>
  Verification of the v2ray-rust proxy (\<open>src/src\<close>), a multi-protocol client: it accepts
  connections from applications (SOCKS5, HTTP, transparent), routes each by its target to an
  outbound, and relays it through the outbound's chain of protocol hops.

  Parts and how they interact. A configuration (\<open>config/deserialize.rs\<close>, \<open>config/mod.rs\<close>) gives for
  every outbound a chain of hop builders (\<open>proxy/mod.rs\<close>) and for the routing rules a router
  (\<open>config/route.rs\<close> over the trie of \<open>config/ip_trie.rs\<close> and the map of \<open>config/utils.rs\<close>). An
  accepted connection (\<open>config/server_builder.rs\<close>, \<open>proxy/socks\<close>, \<open>proxy/http\<close>) yields an address
  (\<open>proxy/address.rs\<close>), the router names an outbound for it, the outbound's chain connects and wraps
  the stream hop by hop (Trojan, Shadowsocks, VMess, HTTP disguise, TLS and others), and the relay
  (\<open>common/net\<close>) copies both directions and counts bytes.

  Theories. \<open>Prelude\<close>: bytes, big-endian numbers, results (\<open>Ok\<close>, \<open>Err\<close>, \<open>Panic\<close>), the lemma
  collections. \<open>Codec\<close>: the interface of a binary format. \<open>Async_Io\<close>: transports as scripts of events,
  polls, \<open>read_at_least\<close>, write loops (\<open>common/net/mod.rs\<close>, \<open>common/macro_def.rs\<close>). \<open>Datagram\<close>: the
  contracts of datagram sources, byte sources, sources read in sections, and message sinks, as
  locales that every protocol stream interprets. \<open>Address\<close>, \<open>Address_Text\<close>: \<open>proxy/address.rs\<close>.
  \<open>Relay\<close>: \<open>common/net\<close>. \<open>Ip_Trie\<close>, \<open>Ip_Trie_Proofs\<close>, \<open>Prefix_Table\<close>, \<open>Insert_Order_Map\<close>, \<open>Router\<close>,
  \<open>Router_Proofs\<close>, \<open>Geoip\<close>: routing. \<open>Config_Types\<close>, \<open>Config\<close>, \<open>Config_Deserialize\<close>, \<open>Chain\<close>:
  configuration and chains. \<open>Trojan\<close>: \<open>proxy/trojan\<close>. \<open>Ss_Cipher\<close>, \<open>Ss_Stream\<close>, \<open>Ss_Session\<close>,
  \<open>Ss_Udp\<close>: \<open>proxy/shadowsocks\<close>, \<open>common/aead_helper.rs\<close>. \<open>Udp\<close>: \<open>proxy/udp.rs\<close>. \<open>Vmess_Header\<close>,
  \<open>Vmess_Aead\<close>, \<open>Vmess_Stream\<close>: \<open>proxy/vmess\<close>. \<open>Socks5\<close>: \<open>proxy/socks\<close>. \<open>Simple_Obfs\<close>:
  \<open>proxy/simpleobfs\<close>. \<open>Websocket\<close>: \<open>proxy/websocket\<close>, the stream over messages and the one that sends
  early data. \<open>Http2\<close>: \<open>proxy/h2\<close> and \<open>proxy/grpc\<close>. \<open>Tls\<close>: \<open>proxy/tls\<close>, its certificates and settings,
  which the builder of a TLS hop is made from (\<open>to_chainable_stream_builder\<close> in \<open>Config_Types\<close>): it reads
  the trust store and the configured file, and its panics reach the construction of the chains, of the
  server and the start of the program.
  \<open>Hops\<close>: \<open>build_tcp\<close> and \<open>build_udp\<close> of every hop, and the towers of layers a chain builds with them.
  \<open>Server\<close>: \<open>config/server_builder.rs\<close>, \<open>proxy/http\<close>, \<open>api/mod.rs\<close>. \<open>Startup\<close>: \<open>main.rs\<close>, the
  listeners, \<open>proxy/dokodemo_door\<close>. \<open>Instances\<close>: concrete parameters for the witnesses. \<open>Sessions\<close> and
  this theory: properties that span components. The properties are numbered, each with a witness
  where it has hypotheses.

  State and operations. A struct is a record with a prefix per type (\<open>tr_\<close>, \<open>vr_\<close>, \<open>sk_\<close>), an enum a
  datatype, an integer of the wire a word. A method that polls takes the state and returns the
  answer and the new state. A function made into a generator (\<open>gentian\<close>) has its suspension point as
  an explicit program counter; \<open>return\<close> completes it, after which it answers with its \<open>ret_val\<close>. A
  peer is a script of what it delivers and accepts (\<open>reader\<close>, \<open>writer\<close>), so a theorem about all
  scripts is about every fragmentation and delay; the scripts of the WebSocket and HTTP/2 libraries
  deliver whole messages and frames. \<open>chunk\<close> is the spare capacity of a buffer as the allocator
  leaves it; \<open>checks\<close> tells a build with overflow checks from one without. Random bytes are an
  explicit stream, and \<open>None\<close> says it is used up. Tasks that interleave are step relations
  (\<open>relay_step\<close>, \<open>arelay_step\<close>, \<open>half_step\<close>, \<open>nat_run\<close>, \<open>nat_down\<close>). The traffic counters, which
  connections share and the API may reset, appear in the relay as the values one relay would leave if it
  were alone, in the server by their names; \<open>shared_steps_erase\<close> shows that the data do not depend on
  what others do to them (\<open>shared_step\<close>). A connection through a chain is a
  \<open>tower\<close>: what was built, layer over layer, from the socket up.

  Termination, bounds and fuel. Loops that end are functions with a measure over the scripts or
  buffers. Loops that may not end (SOCKS methods, the head of the disguise, routing through a trie
  that is not well formed) are \<open>partial_function (option)\<close>, and \<open>None\<close> is not returning.
  \<open>copy_run\<close>, \<open>send_run\<close>, \<open>recv_run\<close>, \<open>read_run\<close>, \<open>poll_until\<close>, \<open>hr_run\<close> count polls; the theorems give a
  number that is enough or assert one. \<open>trie4_limit\<close> bounds the nodes of a trie by its 32 bit indices,
  \<open>vmess_max\<close> is the data a VMess chunk carries, \<open>count_room\<close> the number of chunks before the 16 bit
  count overflows.

  Parameters. AEAD ciphers (\<open>aead_ok\<close>: opening undoes sealing, with a tag of 16 bytes), HKDF, HMAC,
  MD5, SHA-224 and SHA-256 (their lengths), AES, CRC, Bloom filters (\<open>bloom_ok\<close>: no false negatives),
  domain matchers and regular expressions (\<open>matchers_ok\<close>), CIDR and socket address parsing, URIs,
  protobuf streams, variable-length integers (\<open>varint_ok\<close>: decoding undoes encoding in at most 10
  bytes), the HTTP request builder, the answers of the network to a chain (\<open>network\<close>, \<open>hop_lib\<close>), the
  platform with its trust store and the TLS library (\<open>tls_env\<close>), Brotli, the system calls of a listener (\<open>host\<close>), the clock. Each is
  instantiated in \<open>Instances\<close> or beside a witness.

  What the lemmas show. Addresses: exact codecs (C1, C2). Routing: the trie is a longest-prefix
  table and lookups end (C10, C13); the router built from a configuration without geosite and geoip
  files decides every address by its rules, IPv6 addresses by their low 32 bits, which is a bug of the
  lookup (C11, C12); a built server dispatches its SOCKS5, transparent and HTTP connections by that
  decision, or panics on a tag that is no outbound (C40). Relay: completion, conservation, no success
  before the end, refinement by the counting relay (C6 to C9). Chains: a chain is the tunnel through its
  hops, or panics when certificates do not load (C14), and what its layers carry fits together except
  for a lone VMess or Trojan hop (C15).
  Start: a sound configuration brings the program up, or panics when certificates do not load (C16),
  which certificates are trusted on macOS (C17),
  server names (C18). Protocols: what one end writes the other end reads, under all fragmentations,
  for Trojan, Shadowsocks, VMess and WebSocket (C3 to C5, C22, C25, C26, C34), early data (C35),
  nonces, replay and keys (C19 to C21, C23, C27, C29), and the frames of HTTP/2 and gRPC with their
  flow control (C36 to C39). Boundary inputs and panics: C28, C38. Inbounds: the SOCKS5 handshake and
  the interleaving of its datagram tasks (C30 to C32), the HTTP disguise (C33), split halves (C24).

  Not modelled: the TLS handshake and record layer, the hyper server and client, the actix runtime and
  its tasks, the gRPC service glue, the parsing of the command line and logging, all of which are
  libraries the sources only call; the \<open>serde\<close> visitors that hand strings to the field parsers, and
  the parsers that only pass them on to a library (UUID, path, method); the trait plumbing
  (\<open>into_box\<close>, \<open>clone_box\<close>, forwarding through references) and the unused \<open>unsplit\<close>; the messages
  generated from \<open>geoip.proto\<close> and \<open>geosite.proto\<close> beyond the fields the router reads. Reading geosite
  and geoip files is modelled in \<open>Router\<close>, but the properties of routing are about configurations that
  name none.
\<close>

section \<open>Addresses\<close>

text \<open>
  C1: the cursor reader accepts exactly the encodings the writer produces: it returns an address
  and a rest precisely when the buffer is the encoding of that address followed by the rest.
\<close>
theorem address_codec_exact:
  "read_from_cursor bs = Ok (a, r) \<longleftrightarrow> wire_ok a \<and> bs = write_to_buf a [] @ r"
  by (simp add: addr.dec_iff encode_address_def)

text \<open>
  C2: the stream reader returns the address a peer sent and consumes exactly its encoding, however
  the transport cuts the bytes into deliveries.
\<close>
theorem read_from_stream_roundtrip:
  assumes "wire_ok a" and "clean r" and "rx_bytes r = write_to_buf a [] @ rest"
  shows "\<exists>r'. read_from_stream r = (Ok a, r') \<and> rx_bytes r' = rest \<and> clean r'"
  using read_from_stream_complete [of a r rest] assms by (simp add: encode_address_def)

theorem read_from_stream_roundtrip_witness:
  "\<exists>r'. read_from_stream [RData [1, 127], RPending, RData [0, 0, 1, 0], RData [80, 9]] =
      (Ok (SocketAddress (SockV4 (Ipv4Addr 127 0 0 1) 80)), r') \<and> rx_bytes r' = [9] \<and> clean r'"
  by (rule read_from_stream_roundtrip) code_simp+

section \<open>Shadowsocks streams\<close>

text \<open>
  C3: a Shadowsocks session delivers exactly what was written. Two streams of the same method and
  key are created; one has written a list of messages over a transport that takes bytes in any
  pieces and delays. When the other one's transport delivers those bytes, in any pieces, and the
  salt has not been seen by its replay filter, its reads, with any nonempty buffers, return the
  concatenation of the messages and then the end of the stream.
\<close>
theorem shadowsocks_session:
  assumes "aead_ok lib" "hkdf_ok hkdf" "k \<noteq> CK_None" "length key = key_len k"
    and "ms \<noteq> []" "\<forall>m \<in> set ms. length m \<le> MAX_PACKET_SIZE"
    and "crypto_stream_new hkdf bl cap_of (ra, wa) key k rng p = Some (Ok a, rng', p')"
      "writer_live wa" "wr_sent wa = []"
    and "send_run (crypto_poll_write lib) n ms a = Some a'"
    and "crypto_stream_new hkdf bl (\<lambda>n. n) (rb, wb) key k rng2 q = Some (Ok b, rng2', q')"
      "clean rb" "rx_bytes rb = wr_sent (cs_writer a')"
      "\<not> fst (check_nonce_and_set bl (take (salt_len k) (rx_bytes rb)) q')"
    and "chunky chunk" "\<forall>n \<in> set ns. 0 < n" "length (concat ms) + rx_size rb < length ns"
  shows "read_run (crypto_poll_read lib hkdf bl chunk broken) ns (b, q') = (concat ms, True)"
  using crypto_session [of lib hkdf k key ms bl cap_of ra wa rng p a rng' p' n a' rb wb rng2 q b
      rng2' q' chunk ns broken] assms by blast

theorem shadowsocks_session_witness:
  "\<exists>w b q'. crypto_stream_new zero_hkdf set_bloom (\<lambda>n. n) ([RData w], idle_writer []) (replicate 16 7)
      Aes128Gcm (replicate 16 2) fresh_filter = Some (Ok b, [], q') \<and>
    read_run (crypto_poll_read plain_aead zero_hkdf set_bloom (\<lambda>b. 64) DrDone) (replicate 120 2)
      (b, q') = (concat [[5, 6], [7]], True)"
proof -
  let ?key = "replicate 16 7 :: bytes" and ?ms = "[[5, 6], [7]] :: bytes list"
  have live: "writer_live (idle_writer [WAccept 3, WPending])"
    by (simp add: writer_live_def idle_writer_def)
  have "(1 :: u8) \<noteq> 0" by simp
  from crypto_stream_new_16 [OF this, of "\<lambda>n. n" "([], idle_writer [WAccept 3, WPending])"] obtain a where
    a: "crypto_stream_new zero_hkdf set_bloom (\<lambda>n. n) ([], idle_writer [WAccept 3, WPending]) ?key
      Aes128Gcm (replicate 16 1) fresh_filter = Some (Ok a, [], seen_filter (replicate 16 1))" by blast
  have "\<exists>c salt n c'. Ok a = Ok c \<and>
      fresh_salt set_bloom (salt_len Aes128Gcm) (replicate 16 1) fresh_filter =
        Some (salt, [], seen_filter (replicate 16 1)) \<and>
      send_run (crypto_poll_write plain_aead) n ?ms c = Some c' \<and>
      wr_sent (cs_writer c') = wr_sent (idle_writer [WAccept 3, WPending]) @ salt @
        frames plain_aead Aes128Gcm (sub_key zero_hkdf Aes128Gcm ?key salt) 0 ?ms"
    by (rule crypto_sends [OF plain_aead_ok zero_hkdf_ok _ _ live _ _ a]) (auto simp: MAX_PACKET_SIZE_def)
  then obtain n a' where s: "send_run (crypto_poll_write plain_aead) n ?ms a = Some a'"
    "wr_sent (cs_writer a') = replicate 16 1 @
        frames plain_aead Aes128Gcm (sub_key zero_hkdf Aes128Gcm ?key (replicate 16 1)) 0 ?ms"
    by (auto simp: salt_len_def idle_writer_def fresh_salt_16)
  let ?w = "wr_sent (cs_writer a')"
  have lw: "length ?w = 87" "?w \<noteq> []" "take 16 ?w = replicate 16 1" using s(2)
    by (auto simp: frame_def length_sealed [OF plain_aead_ok])
  have "(2 :: u8) \<noteq> 0" by simp
  from crypto_stream_new_16 [OF this, of "\<lambda>n. n" "([RData ?w], idle_writer [])"] obtain b where
    b: "crypto_stream_new zero_hkdf set_bloom (\<lambda>n. n) ([RData ?w], idle_writer []) ?key
      Aes128Gcm (replicate 16 2) fresh_filter = Some (Ok b, [], seen_filter (replicate 16 2))" by blast
  have new: "\<not> fst (check_nonce_and_set set_bloom (take (salt_len Aes128Gcm) (rx_bytes [RData ?w]))
      (seen_filter (replicate 16 2)))"
    by (simp add: lw salt_len_def check_seen)
  have "read_run (crypto_poll_read plain_aead zero_hkdf set_bloom (\<lambda>b. 64) DrDone) (replicate 120 2)
      (b, seen_filter (replicate 16 2)) = (concat ?ms, True)"
    by (rule shadowsocks_session [OF plain_aead_ok zero_hkdf_ok _ _ _ _ a live _ s(1) b _ _ new])
      (use lw in \<open>auto simp: MAX_PACKET_SIZE_def idle_writer_def chunky_def\<close>)
  with b show ?thesis by blast
qed

section \<open>Trojan\<close>

text \<open>
  C4: the datagrams a Trojan connection carries arrive whole and in order, with their addresses. One
  end has written a list of datagrams, over a transport that takes bytes in any pieces and delays;
  the other end's transport delivers those bytes in any pieces; its reads return the same list, and
  then the end.
\<close>
theorem trojan_datagram_session:
  assumes "\<forall>p \<in> set ps. packet_ok cap p" and "writer_live w" "wr_sent w = []"
    and "send_run trojan_poll_write n ps (trojan_writer_new, w) = Some s"
    and "clean r" "rx_bytes r = wr_sent (snd s)" "chunky chunk"
  shows "\<exists>k. recv_run (trojan_recv chunk broken cap) k (trojan_reader_new, r) = (ps, True)"
proof -
  have "\<forall>p \<in> set ps. snd p \<noteq> []" using assms(1) by (simp add: packet_ok_def)
  from trojan_sends_all [OF this assms(2)] obtain m s' where
    "send_run trojan_poll_write m ps (trojan_writer_new, w) = Some s'"
    "wr_sent (snd s') = encode_packets ps" unfolding assms(3) append_Nil by (elim exE conjE)
  then have "rx_bytes r = encode_packets ps" using send_run_unique assms(4,6) by metis
  with trojan_source_new [OF assms(5)] assms(1)
  have "trojan_source cap ps (trojan_reader_new, r)" by blast
  with assms(7) show ?thesis by (intro trojan_udp.recv_all) simp
qed

text \<open>
  A Trojan datagram writer whose transport keeps accepting bytes, in any pieces, completes every
  datagram with a payload, and what it has put on the wire is the concatenation of their encodings.
\<close>
theorem trojan_datagrams_sent:
  assumes "\<forall>p \<in> set ps. snd p \<noteq> []" and "writer_live w"
  shows "\<exists>n s. send_run trojan_poll_write n ps (trojan_writer_new, w) = Some s \<and>
    wr_sent (snd s) = wr_sent w @ encode_packets ps"
  using assms by (rule trojan_sends_all)

theorem trojan_datagrams_sent_witness:
  "\<exists>n s. send_run trojan_poll_write n [(SocketAddress (SockV4 (Ipv4Addr 1 2 3 4) 80), [5, 6])]
      (trojan_writer_new, idle_writer [WAccept 3, WPending]) = Some s \<and>
    wr_sent (snd s) = [1, 1, 2, 3, 4, 0, 80, 0, 2, 13, 10, 5, 6]"
proof -
  let ?p = "(SocketAddress (SockV4 (Ipv4Addr 1 2 3 4) 80), [5, 6]) :: packet"
  have "writer_live (idle_writer [WAccept 3, WPending])"
    by (simp add: writer_live_def idle_writer_def)
  from trojan_datagrams_sent [OF _ this, of "[?p]"] have "\<exists>n s. send_run trojan_poll_write n [?p] (trojan_writer_new, idle_writer [WAccept 3, WPending]) = Some s \<and>
    wr_sent (snd s) = wr_sent (idle_writer [WAccept 3, WPending]) @ encode_packets [?p]" by simp
  moreover have "wr_sent (idle_writer [WAccept 3, WPending]) @ encode_packets [?p] =
    [1, 1, 2, 3, 4, 0, 80, 0, 2, 13, 10, 5, 6]"
    by (simp add: idle_writer_def encode_packet_def encode_address_def put_u16_def crlf_def addr_type_defs
        to_be_2)
  ultimately show ?thesis by simp
qed

theorem trojan_datagram_session_witness:
  "\<exists>w k. recv_run (trojan_recv (\<lambda>b. 64) AtDone 100) k (trojan_reader_new, [RPending, RData w]) =
    ([(SocketAddress (SockV4 (Ipv4Addr 1 2 3 4) 80), [5, 6]), (DomainNameAddress ''a'' 53, [7])], True)"
proof -
  let ?ps = "[(SocketAddress (SockV4 (Ipv4Addr 1 2 3 4) 80), [5, 6]), (DomainNameAddress ''a'' 53, [7])] :: packet list"
  have live: "writer_live (idle_writer [WAccept 3, WPending])" "wr_sent (idle_writer [WAccept 3, WPending]) = []"
    by (simp_all add: writer_live_def idle_writer_def)
  have "\<exists>n s. send_run trojan_poll_write n ?ps (trojan_writer_new, idle_writer [WAccept 3, WPending]) = Some s \<and>
      wr_sent (snd s) = wr_sent (idle_writer [WAccept 3, WPending]) @ encode_packets ?ps"
    by (rule trojan_sends_all [OF _ live(1)]) simp
  then obtain n s where
    s: "send_run trojan_poll_write n ?ps (trojan_writer_new, idle_writer [WAccept 3, WPending]) = Some s"
      "wr_sent (snd s) = encode_packets ?ps" unfolding live(2) append_Nil by (elim exE conjE)
  have ok: "\<forall>p \<in> set ?ps. packet_ok 100 p" by (simp add: packet_ok_def)
  have "wr_sent (snd s) \<noteq> []" using encode_packet_min [of "hd ?ps"] by (auto simp: s(2))
  then have "\<exists>k. recv_run (trojan_recv (\<lambda>b. 64) AtDone 100) k
      (trojan_reader_new, [RPending, RData (wr_sent (snd s))]) = (?ps, True)"
    by (intro trojan_datagram_session [OF ok live s(1)]) (simp_all add: chunky_def)
  then show ?thesis by blast
qed

text \<open>
  C5: the server side reads back the request header a client has written, and leaves what follows,
  whatever pieces the client's transport took it in, when the first delivery holds the whole hash.
\<close>
theorem trojan_request_roundtrip:
  assumes "request_hash h = valid_hash" "length valid_hash = 56" "wire_ok (request_addr h)"
    and "writer_live w" "wr_sent w = []"
  shows "\<exists>w'. write_to h w = (Ok (), w') \<and>
    (\<forall>d r0 rest. 56 \<le> length d \<longrightarrow> clean (RData d # r0) \<longrightarrow>
       rx_bytes (RData d # r0) = wr_sent w' @ rest \<longrightarrow>
       (\<exists>r'. read_from lossy valid_hash (RData d # r0) = ((Ok h, r'), []) \<and>
          rx_bytes r' = rest \<and> clean r'))"
proof -
  from write_all_live [OF assms(4), of "request_bytes h"] assms(5) obtain w' where
    w: "write_to h w = (Ok (), w')" "wr_sent w' = request_bytes h" by (auto simp: write_to_def)
  show ?thesis
    by (rule exI [of _ w'], intro conjI allI impI, rule w(1))
      (rule read_from_written [OF assms(1,2,3) _ _ refl], simp_all add: w(2))
qed

theorem trojan_request_roundtrip_witness:
  "\<exists>w'. write_to (TcpConnect (replicate 56 97) (DomainNameAddress ''a.b'' 443))
      (idle_writer [WAccept 3, WPending]) = (Ok (), w') \<and>
    (\<forall>d rest. 56 \<le> length d \<longrightarrow> d = wr_sent w' @ rest \<longrightarrow>
       (\<exists>r'. read_from (\<lambda>_. '''') (replicate 56 97) [RData d] =
          ((Ok (TcpConnect (replicate 56 97) (DomainNameAddress ''a.b'' 443)), r'), [])))"
proof -
  let ?h = "TcpConnect (replicate 56 97) (DomainNameAddress ''a.b'' 443)"
  let ?w = "idle_writer [WAccept 3, WPending]"
  have "request_hash ?h = replicate 56 97" "length (replicate 56 (97 :: u8)) = 56"
    "wire_ok (request_addr ?h)" "writer_live ?w" "wr_sent ?w = []"
    by (simp_all add: writer_live_def idle_writer_def)
  from trojan_request_roundtrip [OF this, of "\<lambda>_. ''''"] obtain w' where
    w: "write_to ?h ?w = (Ok (), w')" and read: "\<forall>d r0 rest. 56 \<le> length d \<longrightarrow> clean (RData d # r0) \<longrightarrow>
       rx_bytes (RData d # r0) = wr_sent w' @ rest \<longrightarrow>
       (\<exists>r'. read_from (\<lambda>_. '''') (replicate 56 97) (RData d # r0) = ((Ok ?h, r'), []) \<and>
          rx_bytes r' = rest \<and> clean r')" by (elim exE conjE)
  have "\<exists>r'. read_from (\<lambda>_. '''') (replicate 56 97) [RData d] = ((Ok ?h, r'), [])"
    if "56 \<le> length d" "d = wr_sent w' @ rest" for d rest
  proof -
    have "clean [RData d]" "rx_bytes [RData d] = wr_sent w' @ rest" using that by auto
    from read [rule_format, OF that(1) this] show ?thesis by blast
  qed
  with w show ?thesis by blast
qed

section \<open>The relay\<close>

text \<open>
  C6: a relay direction completes. A copy between a reader that delivers everything and then ends,
  in any pieces and with any waits, and a writer that keeps accepting bytes, finishes within a
  number of polls bounded by the events of its transports; the writer then has received every byte
  in order and flushed, and the result counts them.
\<close>
theorem relay_copy_completes:
  assumes "clean r" "writer_live w" "0 < cap"
  shows "\<exists>c. copy_run (Suc (rx_size r + length (wr_script w) + length (fl_script w)))
      (copy_with_capacity_and_counter r w cnt cap) = Some (Ok (c_amt c), c) \<and>
    wr_sent (c_writer c) = wr_sent w @ rx_bytes r \<and> c_amt c = cnt + of_nat (length (rx_bytes r)) \<and>
    wr_flushed (c_writer c) = length (wr_sent w @ rx_bytes r)"
proof -
  let ?c = "copy_with_capacity_and_counter r w cnt cap"
  have start: "wr_sent (c_writer ?c) = wr_sent w" "c_amt ?c = cnt"
    by (simp_all add: copy_with_capacity_and_counter_def)
  from copy_run_completes [OF copy_init(1) copy_init(3) [OF assms]] obtain c where
    "copy_run (Suc (rx_size r + length (wr_script w) + length (fl_script w))) ?c = Some (Ok (c_amt c), c)"
    "copy_sane ?c c" "wr_sent (c_writer c) = wr_sent w @ rx_bytes r"
    "wr_flushed (c_writer c) = length (wr_sent w @ rx_bytes r)"
    unfolding copy_init(2) by blast
  then show ?thesis by (auto simp: copy_sane_def start)
qed

theorem relay_copy_completes_witness:
  "\<exists>c. copy_run 8 (copy_with_capacity_and_counter [RData [1, 2, 3], RPending]
      (idle_writer [WAccept 2, WPending]) 0 2) = Some (Ok 3, c) \<and> wr_sent (c_writer c) = [1, 2, 3]"
proof -
  have "clean [RData [1, 2, 3], RPending]" "writer_live (idle_writer [WAccept 2, WPending])"
    "(0 :: nat) < 2" by (simp_all add: writer_live_def idle_writer_def)
  from relay_copy_completes [OF this, of 0] show ?thesis
    by (auto simp: idle_writer_def eval_nat_numeral simp del: copy_run.simps)
qed

text \<open>
  C7: nothing is lost, invented or reordered between the two ends of a relayed connection, in any
  interleaving of the two directions: what a side has received, what sits in the buffer and what the
  other side has still to deliver are together what there was to deliver; the counter is the number
  of bytes passed on; and the buffer never holds more than its capacity.
\<close>
theorem relay_conserves_bytes:
  assumes "relay_step\<^sup>*\<^sup>* (relay (ri, wi) (ro, wo) n) s"
  shows "\<exists>d u. wr_sent (c_writer (down s)) = wr_sent wi @ d \<and>
      d @ in_flight (down s) @ rx_bytes (c_reader (down s)) = rx_bytes ro \<and>
      c_amt (down s) = of_nat (length d) \<and> length (in_flight (down s)) \<le> LW_BUFFER_SIZE * n \<and>
    wr_sent (c_writer (up s)) = wr_sent wo @ u \<and>
      u @ in_flight (up s) @ rx_bytes (c_reader (up s)) = rx_bytes ri \<and>
      c_amt (up s) = of_nat (length u) \<and> length (in_flight (up s)) \<le> LW_BUFFER_SIZE * n"
proof -
  have one: "\<exists>d. wr_sent (c_writer c) = wr_sent w @ d \<and>
      d @ in_flight c @ rx_bytes (c_reader c) = rx_bytes r \<and>
      c_amt c = of_nat (length d) \<and> length (in_flight c) \<le> cap"
    if sane: "copy_sane (copy_with_capacity_and_counter r w 0 cap) c" for r w cap c
  proof -
    let ?c = "copy_with_capacity_and_counter r w 0 cap"
    have start: "wr_sent (c_writer ?c) = wr_sent w" "c_amt ?c = 0" "length (c_buf ?c) = cap"
      by (simp_all add: copy_with_capacity_and_counter_def)
    from sane obtain d where d: "wr_sent (c_writer c) = wr_sent w @ d" "c_amt c = of_nat (length d)"
      "copy_total c = wr_sent w @ rx_bytes r" "length (c_buf c) = cap" "copy_ok c"
      by (auto simp: copy_sane_def start copy_init)
    then show ?thesis by (auto simp: copy_total_def in_flight_def copy_ok_def)
  qed
  have "relay_inv (relay (ri, wi) (ro, wo) n) s"
    using relay_steps_inv [OF assms relay_init_inv] .
  then show ?thesis
    using one [of ro wi "LW_BUFFER_SIZE * n" "down s"] one [of ri wo "LW_BUFFER_SIZE * n" "up s"]
    unfolding relay_inv_def relay_def by auto
qed

theorem relay_conserves_bytes_witness:
  "\<exists>s d. relay_step (relay ([RData [9]], idle_writer []) ([RData [1, 2], RPending], idle_writer []) 1) s \<and>
    d @ in_flight (down s) @ rx_bytes (c_reader (down s)) = [1, 2]"
proof -
  let ?s = "relay ([RData [9]], idle_writer []) ([RData [1, 2], RPending], idle_writer []) 1"
  have "copy_ok (down ?s)" by (simp add: relay_def copy_init)
  from copy_poll_correct [OF this] obtain p c where "copy_poll (down ?s) = Some (p, c)" by blast
  then have "relay_step ?s (?s\<lparr>down := c, finished := is_ready p\<rparr>)"
    by (intro relay_step.poll_down) (simp_all add: relay_def)
  then obtain s where step: "relay_step ?s s" by blast
  then have "relay_step\<^sup>*\<^sup>* ?s s" by (rule r_into_rtranclp)
  from relay_conserves_bytes [OF this] step show ?thesis by fastforce
qed

text \<open>
  C8: a copy reports success only when it is done, however its reader delays or fails and however its
  writer accepts, delays, fails or refuses: in every run of a new copy that ends with success, the
  reader has nothing left, not a byte and not an error, the buffer is empty, the writer has received
  every byte of the reader in order and has flushed it, and the result is their number added to the
  counter. The reader must keep to the contract that an empty read is the end, and the buffer must have
  room.
\<close>
theorem relay_no_early_success:
  assumes "RData [] \<notin> set r" "0 < cap"
    and "copy_run k (copy_with_capacity_and_counter r w cnt cap) = Some (Ok n, c)"
  shows "c_reader c = [] \<and> in_flight c = [] \<and> wr_sent (c_writer c) = wr_sent w @ rx_bytes r \<and>
    wr_flushed (c_writer c) = length (wr_sent w @ rx_bytes r) \<and> n = cnt + of_nat (length (rx_bytes r))"
proof -
  let ?c = "copy_with_capacity_and_counter r w cnt cap"
  have start: "wr_sent (c_writer ?c) = wr_sent w" "c_amt ?c = cnt" "copy_at_end ?c"
    using assms(1,2) by (simp_all add: copy_with_capacity_and_counter_def copy_at_end_def)
  from copy_run_at_end [OF assms(3) copy_init(1) start(3)] show ?thesis
    using copy_init(2) [of r w cnt cap] by (auto simp: copy_sane_def copy_total_def start)
qed

theorem relay_no_early_success_witness:
  "\<exists>c. copy_run 3 (copy_with_capacity_and_counter [RPending, RData [1, 2, 3]]
      (idle_writer [WAccept 2, WPending]) 5 8) = Some (Ok 8, c) \<and>
    c_reader c = [] \<and> wr_sent (c_writer c) = [1, 2, 3] \<and> wr_flushed (c_writer c) = 3"
proof -
  let ?c = "copy_with_capacity_and_counter [RPending, RData [1, 2, 3]] (idle_writer [WAccept 2, WPending]) 5 8"
  have "\<exists>c. copy_run 3 ?c = Some (Ok 8, c)"
    by (simp add: eval_nat_numeral copy_poll.simps copy_fill_def copy_drain.simps copy_flush_def
        poll_flush_def poll_write_def sub_slice_def idle_writer_def copy_with_capacity_and_counter_def)
  then obtain c where c: "copy_run 3 ?c = Some (Ok 8, c)" by blast
  from relay_no_early_success [OF _ _ c] show ?thesis using c by (auto simp: idle_writer_def)
qed

text \<open>A buffer size of zero, which the configuration allows, passes nothing on and reports success.\<close>

theorem relay_zero_buffer:
  "\<exists>c. copy_poll (copy_with_capacity_and_counter (RData (b # bs) # r) (idle_writer []) cnt 0) =
      Some (Ready (Ok cnt), c) \<and>
    rx_bytes (c_reader c) = (b # bs) @ rx_bytes r \<and> wr_sent (c_writer c) = []"
  using copy_zero_buffer [of "idle_writer []" _ "b # bs" r cnt] by (simp add: poll_flush_def idle_writer_def)

text \<open>
  C9: the relay that keeps the statistics counters does what the plain relay does. The counters are
  taken as its own, so that they start at the given values and only this relay adds to them. Forgetting the
  counters turns every run of it into a run of the plain relay, and on both directions the bytes
  counted in and the bytes still to come add up to the same number throughout.
\<close>
theorem relay_counters_refine:
  assumes "arelay_step\<^sup>*\<^sup>* (relay_with_atomic_counter i ob iu dn ou od n) s"
  shows "relay_step\<^sup>*\<^sup>* (erase_relay (relay_with_atomic_counter i ob iu dn ou od n)) (erase_relay s) \<and>
    in_balance (adown s) = od + of_nat (length (rx_bytes (fst ob))) \<and>
    in_balance (aup s) = iu + of_nat (length (rx_bytes (fst i)))"
proof -
  let ?s = "relay_with_atomic_counter i ob iu dn ou od n"
  have start: "copy_ok (erase (adown ?s))" "copy_ok (erase (aup ?s))"
    "in_balance (adown ?s) = od + of_nat (length (rx_bytes (fst ob)))"
    "in_balance (aup ?s) = iu + of_nat (length (rx_bytes (fst i)))"
    by (simp_all add: relay_with_atomic_counter_def copy_with_capacity_and_atomic_counter_def
        copy_ok_def in_balance_def split: prod.splits)
  from arelay_steps_erase [OF assms start(1,2)] start(3,4) show ?thesis by simp
qed

theorem relay_counters_refine_witness:
  "\<exists>s. arelay_step (relay_with_atomic_counter ([], idle_writer []) ([], idle_writer []) 1 2 3 4 0) s \<and>
    in_balance (adown s) = 4 \<and> in_balance (aup s) = 1"
proof -
  let ?s = "relay_with_atomic_counter ([], idle_writer []) ([], idle_writer []) 1 2 3 4 0"
  have "\<exists>p c. acopy_poll (adown ?s) = Some (p, c) \<and> \<not> afinished ?s"
    by (subst acopy_poll.simps)
      (simp add: relay_with_atomic_counter_def copy_with_capacity_and_atomic_counter_def acopy_fill_def
        acopy_drain.simps acopy_flush_def poll_flush_def idle_writer_def)
  then obtain s where step: "arelay_step ?s s" by (blast intro: arelay_step.apoll_down)
  then have "arelay_step\<^sup>*\<^sup>* ?s s" by (rule r_into_rtranclp)
  from relay_counters_refine [OF this] step show ?thesis by auto
qed

section \<open>Routing\<close>

text \<open>
  C10: a list of IPv4 networks put into the matcher, each with its outbound, and then a lookup: the
  answer is the outbound of the longest network that contains the address, the last one put among
  equal networks, and the empty name when there is none.
\<close>
theorem geoip_longest_prefix_match:
  assumes "\<forall>(ip, n, ob) \<in> set rules. 1 \<le> n \<and> n \<le> 32" and "2 + 33 * length rules < trie4_limit"
  shows "\<exists>m. put_v4_all checks rules geoip_new = Ok m \<and>
    match4 m key =
      Some (Ok (case lpm (rule_map (map (\<lambda>(ip, n, ob). (take n (key_bits ip), ob)) rules)) (key_bits key) of
        Some ob \<Rightarrow> ob | None \<Rightarrow> ''''))"
proof -
  from put_v4_all_correct [OF geoip_new_inv(1), of rules checks] assms obtain m where
    "put_v4_all checks rules geoip_new = Ok m" "geo_inv m"
    "geo_abs4 m = rule_map (map (\<lambda>(ip, n, ob). (take n (key_bits ip), ob)) rules)"
    by (auto simp: geoip_new_inv)
  then show ?thesis by (metis match4_lpm)
qed

theorem geoip_longest_prefix_match_witness:
  "\<exists>m. put_v4_all True [(0x0A000000, 8, ''a''), (0x0A010000, 16, ''b'')] geoip_new = Ok m \<and>
    match4 m 0x0A010203 = Some (Ok ''b'')"
proof -
  have "lpm (rule_map (map (\<lambda>(ip, n, ob). (take n (key_bits ip), ob))
      [(0x0A000000 :: u32, 8, ''a''), (0x0A010000, 16, ''b'')])) (key_bits (0x0A010203 :: u32)) = Some ''b''"
    by code_simp
  with geoip_longest_prefix_match [of "[(0x0A000000, 8, ''a''), (0x0A010000, 16, ''b'')]" True "0x0A010203"]
  show ?thesis by (auto simp: trie4_limit_def)
qed

text \<open>
  C11: the router built from the domain and network rules of a configuration (one without geosite and
  geoip files) decides every address by these rules. An IPv4 address goes to the outbound of the longest
  network that contains it, the last one written among equal networks; an IPv6 address goes to the
  outbound of the longest network that contains, not the address, but its low 32 bits followed by zeros;
  the default takes what no network contains. A name goes to the tag of the first matching rule group,
  to a tag with a matching expression when there is none, and to the default one otherwise.
\<close>
theorem router_follows_configuration:
  assumes "matchers_ok L dm rm" and "routing_ok L ds irs"
  shows "\<exists>rt. build_router L C checks ds irs [] [] dflt = Some (Ok rt) \<and>
    (\<forall>ip port. match_addr L rt (SocketAddress (SockV4 ip port)) =
      Some (Ok (network_tag dflt (v4_table L irs) (key_bits (socket_addr_v4_to_u32 ip))))) \<and>
    (\<forall>ip port f s. match_addr L rt (SocketAddress (SockV6 ip port f s)) =
      Some (Ok (network_tag dflt (v6_table L irs) (key_bits (push_bit 96 (socket_addr_v6_to_u128 ip)))))) \<and>
    (\<forall>name port. \<exists>tag. match_addr L rt (DomainNameAddress name port) = Some (Ok tag) \<and>
      domain_route dm rm ds dflt name tag)"
proof -
  from build_router_correct [OF assms, of C checks dflt] obtain rt where
    rt: "build_router L C checks ds irs [] [] dflt = Some (Ok rt)" by blast
  from match_addr_rules [OF assms rt] have
    a: "\<exists>tag. match_addr L rt a = Some (Ok tag) \<and> rules_route L dm rm ds irs dflt a tag" for a .
  show ?thesis
  proof (intro exI [of _ rt] conjI allI)
    fix ip port from a [of "SocketAddress (SockV4 ip port)"]
    show "match_addr L rt (SocketAddress (SockV4 ip port)) =
      Some (Ok (network_tag dflt (v4_table L irs) (key_bits (socket_addr_v4_to_u32 ip))))"
      by (simp only: rules_route.simps) blast
  next
    fix ip port f s from a [of "SocketAddress (SockV6 ip port f s)"]
    show "match_addr L rt (SocketAddress (SockV6 ip port f s)) =
      Some (Ok (network_tag dflt (v6_table L irs) (key_bits (push_bit 96 (socket_addr_v6_to_u128 ip)))))"
      by (simp only: rules_route.simps) blast
  next
    fix name port from a [of "DomainNameAddress name port"]
    show "\<exists>tag. match_addr L rt (DomainNameAddress name port) = Some (Ok tag) \<and> domain_route dm rm ds dflt name tag"
      by (simp only: rules_route.simps)
  qed (rule rt)
qed

theorem router_follows_configuration_witness:
  "\<exists>rt. build_router eq_router_lib empty_files True
      [\<lparr>dr_tag = ''t'', full_rules = [''a.b''], domain_rules = [], regex_rules = [], substr_rules = [],
        dr_use_mph = True\<rparr>]
      [\<lparr>ir_tag = ''p'', cidr_rules = [''10.0.0.0/8'']\<rparr>, \<lparr>ir_tag = ''q'', cidr_rules = [''2001:db8::/32'']\<rparr>]
      [] [] ''d'' = Some (Ok rt) \<and>
    match_addr eq_router_lib rt (SocketAddress (SockV4 (Ipv4Addr 10 1 2 3) 80)) = Some (Ok ''p'') \<and>
    match_addr eq_router_lib rt (SocketAddress (SockV6 (Ipv6Addr 0x2001 0xdb8 0 0 0 0 0 1) 80 0 0)) = Some (Ok ''d'') \<and>
    match_addr eq_router_lib rt (SocketAddress (SockV6 (Ipv6Addr 0 0 0 0 0 0 0x2001 0xdb8) 80 0 0)) = Some (Ok ''q'') \<and>
    match_addr eq_router_lib rt (DomainNameAddress ''a.b'' 80) = Some (Ok ''t'')"
proof -
  let ?ds = "[\<lparr>dr_tag = ''t'', full_rules = [''a.b''], domain_rules = [], regex_rules = [],
    substr_rules = [], dr_use_mph = True\<rparr>]"
  let ?irs = "[\<lparr>ir_tag = ''p'', cidr_rules = [''10.0.0.0/8'']\<rparr>, \<lparr>ir_tag = ''q'', cidr_rules = [''2001:db8::/32'']\<rparr>]"
  have "routing_ok eq_router_lib ?ds ?irs"
    by (simp add: routing_ok_def regexes_valid_def cidr_rule_ok_def eq_router_lib_def n_cidr_rules_def
        trie4_limit_def)
  note r = router_follows_configuration [OF eq_router_lib_ok this, of empty_files True "''d''"]
  let ?ip = "Ipv4Addr 10 1 2 3" and ?ip1 = "Ipv6Addr 0x2001 0xdb8 0 0 0 0 0 1" and ?ip2 = "Ipv6Addr 0 0 0 0 0 0 0x2001 0xdb8"
  have key: "socket_addr_v4_to_u32 ?ip = 0x0A010203"
    by (simp add: socket_addr_v4_to_u32_def of_be_def)
  have key6: "push_bit 96 (socket_addr_v6_to_u128 ?ip1) = 0x00000001000000000000000000000000"
    "push_bit 96 (socket_addr_v6_to_u128 ?ip2) = 0x20010db8000000000000000000000000"
    by (simp_all add: socket_addr_v6_to_u128_def octets6_def put_u16_def to_be_2 of_be_def push_bit_eq_mult)
  have tag: "network_tag ''d'' (v4_table eq_router_lib ?irs) (key_bits (0x0A010203 :: u32)) = ''p''"
    "network_tag ''d'' (v6_table eq_router_lib ?irs) (key_bits (0x00000001000000000000000000000000 :: u128)) = ''d''"
    "network_tag ''d'' (v6_table eq_router_lib ?irs) (key_bits (0x20010db8000000000000000000000000 :: u128)) = ''q''"
    by code_simp+
  have route: "tag = ''t''" if "domain_route (\<lambda>r t s. r = s) (\<lambda>e s. e = s) ?ds ''d'' ''a.b'' tag" for tag
    using that by (simp add: domain_route_def tag_matches_def drules_def drules_of_def)
  from r obtain rt where
    rt: "build_router eq_router_lib empty_files True ?ds ?irs [] [] ''d'' = Some (Ok rt)" and
    v4: "\<forall>ip port. match_addr eq_router_lib rt (SocketAddress (SockV4 ip port)) =
      Some (Ok (network_tag ''d'' (v4_table eq_router_lib ?irs) (key_bits (socket_addr_v4_to_u32 ip))))" and
    v6: "\<forall>ip port f s. match_addr eq_router_lib rt (SocketAddress (SockV6 ip port f s)) =
      Some (Ok (network_tag ''d'' (v6_table eq_router_lib ?irs) (key_bits (push_bit 96 (socket_addr_v6_to_u128 ip)))))" and
    names: "\<forall>name port. \<exists>tag. match_addr eq_router_lib rt (DomainNameAddress name port) = Some (Ok tag) \<and>
      domain_route (\<lambda>r t s. r = s) (\<lambda>e s. e = s) ?ds ''d'' name tag" by (elim exE conjE)
  from names [rule_format, of "''a.b''" 80] route
  have "match_addr eq_router_lib rt (DomainNameAddress ''a.b'' 80) = Some (Ok ''t'')" by blast
  moreover have "match_addr eq_router_lib rt (SocketAddress (SockV4 ?ip 80)) = Some (Ok ''p'')"
    by (simp only: v4 key tag)
  moreover have "match_addr eq_router_lib rt (SocketAddress (SockV6 ?ip1 80 0 0)) = Some (Ok ''d'')"
    by (simp only: v6 key6 tag)
  moreover have "match_addr eq_router_lib rt (SocketAddress (SockV6 ?ip2 80 0 0)) = Some (Ok ''q'')"
    by (simp only: v6 key6 tag)
  ultimately show ?thesis using rt by blast
qed

text \<open>
  C12: an IPv6 address is routed by its last 32 bits only: addresses that agree on them go to the same
  outbound, whatever networks the configuration names.
\<close>
theorem ipv6_routed_by_low_bits:
  assumes "take_bit 32 (socket_addr_v6_to_u128 a) = take_bit 32 (socket_addr_v6_to_u128 b)"
  shows "match_addr L rt (SocketAddress (SockV6 a p f s)) = match_addr L rt (SocketAddress (SockV6 b q g t))"
  using match6_low_bits [OF assms] by simp

theorem ipv6_routed_by_low_bits_witness:
  "match_addr eq_router_lib demo_router (SocketAddress (SockV6 (Ipv6Addr 0x2001 0xdb8 0 0 0 0 0 1) 80 0 0)) =
   match_addr eq_router_lib demo_router (SocketAddress (SockV6 (Ipv6Addr 0 0 0 0 0 0 0 1) 443 0 0))"
  by (rule ipv6_routed_by_low_bits)
    (simp add: socket_addr_v6_to_u128_def octets6_def put_u16_def to_be_2 of_be_def)

text \<open>
  A rule for the whole IPv4 space (prefix length 0) never takes effect as such: with overflow
  checks it panics, without them it is stored as a rule for the single address.
\<close>
theorem prefix_length_zero:
  "put_v4 True m ip 0 ob = Panic \<and> put_v4 False m ip 0 ob = put_v4 False m ip 32 ob"
  by (simp add: put_v4_0_checked put_v4_0_unchecked)

text \<open>
  C13: a lookup on either side of the matcher ends with a name, never out of bounds, in every matcher
  that rules have been put into.
\<close>
theorem geoip_lookup_total:
  assumes "\<forall>(ip, n, ob) \<in> set rules. 1 \<le> n \<and> n \<le> 32"
    and "\<forall>(ip, n, ob) \<in> set rules6. 1 \<le> n \<and> n \<le> 128"
    and "2 + 33 * length rules + 129 * length rules6 < trie4_limit"
  shows "\<exists>m m'. put_v4_all checks rules geoip_new = Ok m \<and> put_v6_all checks rules6 m = Ok m' \<and>
    (\<forall>key key6. (\<exists>ob. match4 m' key = Some (Ok ob)) \<and> (\<exists>ob. match6 m' key6 = Some (Ok ob)))"
proof -
  from put_v4_all_correct [OF geoip_new_inv(1), of rules checks] assms obtain m where
    m: "put_v4_all checks rules geoip_new = Ok m" "geo_inv m" "geo_size m \<le> 2 + 33 * length rules"
    by (auto simp: geoip_new_inv)
  with put_v6_all_correct [OF m(2), of rules6 checks] assms obtain m' where
    "put_v6_all checks rules6 m = Ok m'" "geo_inv m'" by auto
  with m(1) match4_lpm match6_total show ?thesis by blast
qed

theorem geoip_lookup_total_witness:
  "\<exists>m m'. put_v4_all True [(0x0A000000, 8, ''a'')] geoip_new = Ok m \<and>
     put_v6_all True [(1, 128, ''b'')] m = Ok m' \<and> (\<exists>ob. match6 m' 5 = Some (Ok ob))"
  using geoip_lookup_total [of "[(0x0A000000, 8, ''a'')]" "[(1, 128, ''b'')]" True]
  by (force simp: trie4_limit_def)

section \<open>The configuration\<close>

text \<open>
  C14: a chain of hops is a tunnel. When the tags of an outbound name configured hops and its last
  hop has an address (or no hop has one), then either the certificates of all its TLS hops load: the
  chain is built, and a TCP connection through it connects to the first address among the hops (the
  destination when there is none) and then runs the hops in order, each told to go to the next address
  after it, the last one to the destination; a chain with a black hole refuses the connection. Or the
  trust store or the configured file of one of them cannot be read: then building the chain panics.
\<close>
theorem outbound_is_tunnel:
  assumes "resolves cf m (ob_chain out) cs" and "well_formed_chain cs"
  shows "if chain_loads E cs
    then \<exists>ch. build_chain E cf m out = Ok ch \<and>
      (\<forall>N dst. build_tcp N ch dst =
        (if \<exists>c \<in> set cs. get_protocol_type c = Blackhole then Err (new_error ''block connection'')
         else bind_res (connect_tcp N (first_addr cs dst)) (run_hops (hop_tcp N) (tunnel E cs dst))))
    else build_chain E cf m out = Panic"
  using build_chain_correct [OF assms, of E] build_chain_Panic [OF assms(1), of E] build_tcp_tunnel [OF _ assms(2)]
  by (cases "chain_loads E cs") (simp_all only: if_True if_False simp_thms, blast+)

theorem outbound_is_tunnel_witness:
  "(\<exists>ch. build_chain demo_tls_env demo_config (build_config_map demo_config)
      \<lparr>ob_chain = [''tls'', ''trojan''], ob_tag = ''proxy''\<rparr> = Ok ch \<and>
    (\<forall>N dst. build_tcp N ch dst =
      bind_res (connect_tcp N (DomainNameAddress ''a.b'' 443))
        (run_hops (hop_tcp N)
          [TlsStreamBuilder \<lparr>tb_connector = tls_connector_of demo_tls_env [[48, 130]] None, tb_sni = ''a.b'',
             tb_verify_hostname = True, tb_verify_sni = True\<rparr>,
           TrojanStreamBuilder dst [112, 119]]))) \<and>
   build_chain (demo_tls_env\<lparr>te_library := False\<rparr>) demo_config (build_config_map demo_config)
      \<lparr>ob_chain = [''tls'', ''trojan''], ob_tag = ''proxy''\<rparr> = Panic"
proof -
  let ?cs = "[TlsConfig demo_tls, TrojanConfig demo_trojan]"
  let ?out = "\<lparr>ob_chain = [''tls'', ''trojan''], ob_tag = ''proxy''\<rparr>"
  have r: "resolves demo_config (build_config_map demo_config) (ob_chain ?out) ?cs" "well_formed_chain ?cs"
    using demo_outbounds(1) by (simp_all add: outbound_ok_def)
  have hop: "hop_of demo_tls_env (TlsConfig demo_tls) a = TlsStreamBuilder
      \<lparr>tb_connector = tls_connector_of demo_tls_env [[48, 130]] None, tb_sni = ''a.b'',
       tb_verify_hostname = True, tb_verify_sni = True\<rparr>" for a
    by (simp add: hop_of_def demo_tls_def tls_new_from_config_def demo_tls_env_def load_native_certs_unix_def)
  have "\<not> chain_loads (demo_tls_env\<lparr>te_library := False\<rparr>) ?cs" by (simp add: tls_loads_def)
  with outbound_is_tunnel [OF r, of "demo_tls_env\<lparr>te_library := False\<rparr>"]
    outbound_is_tunnel [OF r, of demo_tls_env] show ?thesis
    by (simp add: hop) (simp add: hop_of_def demo_trojan_def as_bytes_def)
qed

text \<open>
  A configuration whose outbounds all name configured hops in well-formed chains, whose certificates load, whose rules
  the router can hold and whose default is one of its outbounds gives a server: it has a chain for
  exactly the configured outbounds, each the chain of its hops, and its router's default is one.
\<close>
theorem server_is_built:
  assumes "\<forall>out \<in> set (cf_outbounds cf). \<exists>cs. outbound_ok cf out cs" and "cf_outbounds cf \<noteq> []"
    and "cf_default_outbound cf = [] \<or> cf_default_outbound cf \<in> ob_tag ` set (cf_outbounds cf)"
    and "matchers_ok L dm rm"
    and "routing_ok L (cf_domain_routing_rules cf) (cf_ip_routing_rules cf)"
    and "cf_geosite_rules cf = []" "cf_geoip_rules cf = []" and "outbounds_load E cf (cf_outbounds cf)"
  shows "\<exists>sv. build_server E L C checks cf = Some (Ok sv) \<and>
    dom (sv_inner_map sv) = ob_tag ` set (cf_outbounds cf) \<and>
    default_outbound_tag (sv_router sv) \<in> dom (sv_inner_map sv) \<and>
    (\<forall>tag ch. sv_inner_map sv tag = Some ch \<longrightarrow>
      (\<exists>out \<in> set (cf_outbounds cf). \<exists>cs. ob_tag out = tag \<and> outbound_ok cf out cs \<and> chain_of E cs ch))"
  using build_server_correct [OF assms, of C checks] server_default_configured [OF assms(2,3)] by metis

theorem server_is_built_witness:
  "\<exists>sv. build_server demo_tls_env eq_router_lib empty_files True demo_config = Some (Ok sv) \<and>
    dom (sv_inner_map sv) = {''proxy'', ''out''} \<and> default_outbound_tag (sv_router sv) \<in> {''proxy'', ''out''}"
proof -
  have d: "cf_outbounds demo_config \<noteq> []" "cf_default_outbound demo_config = [] \<or>
      cf_default_outbound demo_config \<in> ob_tag ` set (cf_outbounds demo_config)"
    "cf_geosite_rules demo_config = []" "cf_geoip_rules demo_config = []" by simp_all
  from server_is_built [OF demo_config_ok(1) d(1,2) eq_router_lib_ok demo_config_ok(3) d(3,4) demo_config_loads]
  show ?thesis unfolding demo_config_ok(2) by metis
qed

text \<open>
  A tag that names no configured hop is reported with the outbound it stands in, and no chain is
  built.
\<close>
theorem unknown_tag_reported:
  assumes "resolves cf m pre cs" and "m tag = None" and "ob_chain out = pre @ tag # post"
  shows "build_chain E cf m out = Err (new_error (''config parse failed, can't find chain tag `'' @ tag @
    ''` in outbound `'' @ ob_tag out @ ''`''))"
  using collect_addrs_unknown [OF assms(1,2)] by (simp add: build_chain_def assms(3))

theorem unknown_tag_reported_witness:
  "build_chain demo_tls_env demo_config (build_config_map demo_config) \<lparr>ob_chain = [''tls'', ''x''], ob_tag = ''p''\<rparr> =
    Err (new_error ''config parse failed, can't find chain tag `x` in outbound `p`'')"
proof -
  have "resolves demo_config (build_config_map demo_config) [''tls''] [TlsConfig demo_tls]"
    by (simp add: resolves_def demo_config_map config_index_def index_vec_def)
  from unknown_tag_reported [OF this, of "''x''" "\<lparr>ob_chain = [''tls'', ''x''], ob_tag = ''p''\<rparr>" "[]"]
  show ?thesis by (simp add: demo_config_map)
qed

text \<open>
  The markers of a chain say, hop by hop, whether the hop has to carry a TCP connection for a
  datagram: exactly when a later hop carries datagrams over a stream.
\<close>
theorem udp_markers:
  assumes "chain_of E cs ch" and "i < length cs"
  shows "build_udp_marker ch ! i \<longleftrightarrow> (\<exists>j. i < j \<and> j < length cs \<and> is_uot (get_protocol_type (cs ! j)))"
  using assms by (rule chain_of_markers)

theorem udp_markers_witness:
  "\<exists>ch. build_chain demo_tls_env demo_config (build_config_map demo_config)
      \<lparr>ob_chain = [''tls'', ''trojan''], ob_tag = ''proxy''\<rparr> = Ok ch \<and> build_udp_marker ch ! 0"
proof -
  let ?cs = "[TlsConfig demo_tls, TrojanConfig demo_trojan]"
  from demo_outbounds(1) build_chain_correct [of demo_config "build_config_map demo_config"
      "\<lparr>ob_chain = [''tls'', ''trojan''], ob_tag = ''proxy''\<rparr>" ?cs demo_tls_env] obtain ch where
    ch: "build_chain demo_tls_env demo_config (build_config_map demo_config)
      \<lparr>ob_chain = [''tls'', ''trojan''], ob_tag = ''proxy''\<rparr> = Ok ch" "chain_of demo_tls_env ?cs ch"
    by (auto simp: outbound_ok_def)
  have "build_udp_marker ch ! 0"
    using udp_markers [OF ch(2), of 0] by (auto intro!: exI [of _ "Suc 0"])
  with ch(1) show ?thesis by blast
qed

text \<open>
  C18: the scanner accepts exactly the DNS names: at most 253 bytes, labels of 1 to 63 letters,
  digits, hyphens and underscores that do not begin or end with a hyphen, an optional final dot, and
  a last label that is not a number.
\<close>
theorem dns_names_accepted:
  "is_valid_dns_id s \<longleftrightarrow> dns_name s"
  by (rule is_valid_dns_id_iff)

text \<open>
  The early-data parameter of a WebSocket URI is found wherever it stands in the query: its
  value becomes the limit, and the URI keeps the other parameters in their order.
\<close>
theorem early_data_parameter:
  assumes "uri_parse U uri = Inr u"
    and "uri_query U u = Some (pairs_before pre @ ''ed='' @ v @ pairs_after post)"
    and "plain_pairs pre" "plain_text v" "parse_usize v = Inr n" "0 < n"
    and "uri_with_path_and_query U u (uri_path U u @ ''?'' @ pairs_before pre @ pairs_after post) = Inr u'"
  shows "early_data_uri_new U checks uri =
    Ok \<lparr>e_uri = u', e_header_name = ''Sec-WebSocket-Protocol'', e_max = n\<rparr>"
  using assms by (rule early_data_uri_new_ed)

theorem early_data_parameter_witness:
  "early_data_uri_new \<lparr>uri_parse = (\<lambda>s. Inr s), uri_query = (\<lambda>u. Some ''a=b&ed=2048&c=d''),
      uri_path = (\<lambda>u. ''/ws''), uri_with_path_and_query = (\<lambda>u p. Inr p)\<rparr> True ''/ws?a=b&ed=2048&c=d'' =
    Ok \<lparr>e_uri = ''/ws?a=b&&c=d'', e_header_name = ''Sec-WebSocket-Protocol'', e_max = 2048\<rparr>"
proof -
  have "parse_usize ''2048'' = Inr 2048" by (simp add: parse_usize_def is_digit_char_def)
  then show ?thesis
    by (intro early_data_parameter [where pre = "[(''a'', ''b'')]" and v = "''2048''" and post = "[(''c'', ''d'')]"
          and u = "''/ws?a=b&ed=2048&c=d''"])
      (simp_all add: pairs_before_def pairs_after_def plain_pairs_def plain_text_def)
qed

section \<open>Shadowsocks cryptography\<close>

text \<open>
  C19: the nonce of a connection counts its operations: starting from zeros, after \<open>i\<close> increments the
  bytes used are the little-endian encoding of \<open>i\<close>, with the carry at every byte, so no two of the
  first \<open>256 ^ nlen\<close> operations use the same nonce.
\<close>
theorem nonce_counts:
  assumes "0 < nlen" "nlen \<le> 24"
  shows "take nlen ((increase_nonce nlen ^^ i) (replicate 24 0)) = to_le nlen i \<and>
    (\<forall>j. i < 256 ^ nlen \<longrightarrow> j < 256 ^ nlen \<longrightarrow> i \<noteq> j \<longrightarrow>
      take nlen ((increase_nonce nlen ^^ i) (replicate 24 0)) \<noteq>
      take nlen ((increase_nonce nlen ^^ j) (replicate 24 0)))"
proof -
  have "(increase_nonce nlen ^^ k) (replicate 24 0) = nonce_at nlen k" for k
    using assms by (induction k) (simp_all add: nonce_at_0 increase_nonce_at)
  then show ?thesis by (auto simp: to_le_eq_iff)
qed

theorem nonce_counts_witness:
  "take 12 ((increase_nonce 12 ^^ 300) (replicate 24 0)) = [44, 1, 0, 0, 0, 0, 0, 0, 0, 0, 0, 0]"
proof -
  have "take 12 ((increase_nonce 12 ^^ 300) (replicate 24 0)) = to_le 12 300"
    using nonce_counts [of 12 300] by simp
  also have "\<dots> = [44, 1, 0, 0, 0, 0, 0, 0, 0, 0, 0, 0]" by code_simp
  finally show ?thesis .
qed

text \<open>
  C20: the replay filter remembers a window. Whatever salts have been checked so far, one that is
  among the last \<open>item_count\<close> accepted ones is found again, so the connection is refused.
\<close>
theorem replay_is_found:
  assumes "bloom_ok lib" and "check_run lib xs (ppbloom_new lib is_local) [] = (h, p)"
    and "x \<in> set (take (item_count (ppbloom_new lib is_local)) h)"
  shows "check_and_set lib x p = (True, p)"
proof -
  note inv = check_run_inv [OF assms(1) ppbloom_inv_new assms(2)]
  with ppbloom_window [of lib h p x] assms(3) have "fst (check_and_set lib x p)" by auto
  then show ?thesis by (auto simp: check_and_set_def Let_def split: if_splits)
qed

theorem replay_is_found_witness:
  "\<exists>p. check_run set_bloom [[1, 2], [3, 4]] (ppbloom_new set_bloom True) [] = ([[3, 4], [1, 2]], p) \<and>
    check_and_set set_bloom [1, 2] p = (True, p)"
proof -
  obtain h p where r: "check_run set_bloom [[1, 2], [3, 4]] (ppbloom_new set_bloom True) [] = (h, p)"
    by fastforce
  moreover have "h = [[3, 4], [1, 2]]" "item_count (ppbloom_new set_bloom True) = 5000"
    using r by (auto simp: check_and_set_def ppbloom_new_def set_bloom_def accepted_def
        BF_NUM_ENTRIES_FOR_CLIENT_def)
  ultimately show ?thesis using replay_is_found [OF set_bloom_ok r, of "[1, 2]"] by auto
qed

text \<open>
  C21: the key of a password is the one OpenSSL derives: the digests of a chain that starts with the
  password and continues with each digest before it, cut at the length of the key.
\<close>
theorem key_derivation:
  assumes "\<forall>x. length (md5 x) = 16" "length key \<le> 16 * n"
  shows "openssl_bytes_to_key md5 password key =
    take (length key) (concat (map (key_block md5 password) [0 ..< n]))"
  using openssl_bytes_to_key_blocks [of md5 key n password] assms by blast

theorem key_derivation_witness:
  "openssl_bytes_to_key first_16 [1, 2] (replicate 20 0) =
    [1, 2, 0, 0, 0, 0, 0, 0, 0, 0, 0, 0, 0, 0, 0, 0, 1, 2, 0, 0]"
proof -
  have "openssl_bytes_to_key first_16 [1, 2] (replicate 20 0) =
      take 20 (concat (map (key_block first_16 [1, 2]) [0 ..< 2]))"
    using key_derivation [of first_16 "replicate 20 0" 2 "[1, 2]"] by simp
  also have "\<dots> = [1, 2, 0, 0, 0, 0, 0, 0, 0, 0, 0, 0, 0, 0, 0, 0, 1, 2, 0, 0]" by code_simp
  finally show ?thesis .
qed

text \<open>
  C22: a Shadowsocks datagram survives the trip: what one end encrypts for an address, a stream with
  the same method and key that receives it hands over as that address and that payload.
\<close>
theorem shadowsocks_datagram_roundtrip:
  assumes "aead_ok lib" "hkdf_ok hkdf" "su_method u \<noteq> CK_None"
    and "length (su_key u) = key_len (su_method u)" "wire_ok a" "length payload \<le> 2 ^ 31"
    and "encrypt_payload lib hkdf bl (su_method u) (su_key u) a payload [] rng p = Some (x, rng', p')"
  shows "\<exists>packet. x = Ok packet \<and>
    (\<forall>recv from s. recv (su_stream u) = ((Ready (Ok from), packet), s) \<longrightarrow>
      ss_udp_recv lib hkdf recv u = ((Ready (Ok a), payload), u\<lparr>su_stream := s\<rparr>))"
proof -
  from encrypt_ss_packet [OF assms] obtain salt where
    salt: "length salt = salt_len (su_method u)"
    and x: "x = Ok (ss_packet lib hkdf (su_method u) (su_key u) salt a payload)" by blast
  show ?thesis
    by (rule exI, rule conjI [OF x], intro allI impI, rule ss_udp_recv_packet [OF assms(1-4) salt assms(5,6)])
qed

theorem shadowsocks_datagram_roundtrip_witness:
  "\<exists>packet. encrypt_payload plain_aead zero_hkdf set_bloom Aes128Gcm (replicate 16 7)
      (DomainNameAddress ''a.b'' 53) [1, 2, 3] [] (replicate 16 1) fresh_filter = Some (Ok packet, [], fresh_filter) \<and>
    ss_udp_recv plain_aead zero_hkdf (\<lambda>s. ((Ready (Ok new_dummy_address), packet), s))
      (ss_udp_stream_new () new_dummy_address fresh_filter Aes128Gcm (replicate 16 7)) =
    ((Ready (Ok (DomainNameAddress ''a.b'' 53)), [1, 2, 3]),
     ss_udp_stream_new () new_dummy_address fresh_filter Aes128Gcm (replicate 16 7))"
proof -
  let ?u = "ss_udp_stream_new () new_dummy_address fresh_filter Aes128Gcm (replicate 16 7)"
  let ?a = "DomainNameAddress ''a.b'' 53"
  have r: "random_iv_or_salt 16 (replicate 16 1) = Some (replicate 16 1, [])"
    by (simp add: random_iv_or_salt.simps [of 16 "replicate 16 1"] list_all_iff)
  then obtain x where x: "encrypt_payload plain_aead zero_hkdf set_bloom Aes128Gcm (replicate 16 7)
      ?a [1, 2, 3] [] (replicate 16 1) fresh_filter = Some (x, [], fresh_filter)"
    by (simp add: encrypt_payload_def encrypt_payload_aead_def salt_len_def Let_def
        generate_nonce.simps [of set_bloom 16])
  have u: "su_method ?u = Aes128Gcm" "su_key ?u = replicate 16 7" "?u\<lparr>su_stream := ()\<rparr> = ?u"
    by (simp_all add: ss_udp_stream_new_def)
  have "\<exists>packet. x = Ok packet \<and>
    (\<forall>recv from s. recv (su_stream ?u) = ((Ready (Ok from), packet), s) \<longrightarrow>
      ss_udp_recv plain_aead zero_hkdf recv ?u = ((Ready (Ok ?a), [1, 2, 3]), ?u\<lparr>su_stream := s\<rparr>))"
    by (rule shadowsocks_datagram_roundtrip [OF plain_aead_ok zero_hkdf_ok, where bl = set_bloom
          and rng = "replicate 16 1" and p = fresh_filter and rng' = "[]" and p' = fresh_filter])
      (simp_all add: u x)
  with x u(3) show ?thesis by fastforce
qed

section \<open>VMess\<close>

text \<open>
  C23: the key derivation functions of the VMess header are nested HMACs: each level is HMAC over the
  level below with the level's key, the innermost one the library's HMAC-SHA-256 with the fixed salt.
\<close>
theorem vmess_kdf_is_nested_hmac:
  "vmess_kdf_1_one_shot hmac ident key1 = hmac_over (hmac KDF_SALT_CONST_VMESS_AEAD_KDF) key1 ident \<and>
   vmess_kdf_3_one_shot hmac ident key1 key2 key3 =
     hmac_over (hmac_over (hmac_over (hmac KDF_SALT_CONST_VMESS_AEAD_KDF) key1) key2) key3 ident"
  by (simp add: vmess_kdf_1_nested vmess_kdf_3_nested)

text \<open>
  A response header sealed under the connection's response keys is accepted, however it is cut
  into deliveries, and nothing of what follows it is lost: the rest is in the buffer handed over to
  the body reader or still to come.
\<close>
theorem vmess_response_accepted:
  assumes "aead_ok lib" "chunky chunk"
    and "h = vmess_header_reader_new hmac key iv respv" and "response_ok h p"
    and "clean r" "rx_bytes r = response_bytes lib h p @ rest"
  shows "\<exists>n h' r'. hr_run lib chunk n h r = Some (Ok (), h', r') \<and> hr_received_resp h' \<and>
    fst (hr_get_buffer h') @ rx_bytes r' = rest"
proof -
  have h: "hr_state h = HrLength" "\<not> hr_received_resp h" "hr_buffer h = []"
    by (simp_all add: assms(3) vmess_header_reader_new_def Let_def)
  have "hr_buffer h @ rx_bytes r = response_bytes lib h p @ rest" by (simp add: h(3) assms(6))
  from hr_length_accepts [OF assms(1,2,4,5) h(1,2) this] have "hr_accepts lib chunk rest h r" .
  then show ?thesis by (simp add: hr_accepts_def hr_get_buffer_def)
qed

theorem vmess_response_accepted_witness:
  "\<exists>w n h' r'. hr_run plain_aead (\<lambda>b. 64) n (vmess_header_reader_new (\<lambda>k m. replicate 32 0) [] [] 5)
      [RPending, RData (w @ [9])] = Some (Ok (), h', r') \<and> fst (hr_get_buffer h') @ rx_bytes r' = [9]"
proof -
  let ?h = "vmess_header_reader_new (\<lambda>k m. replicate 32 0) [] [] 5"
  let ?w = "response_bytes plain_aead ?h [5, 0, 0, 0]"
  have "response_ok ?h [5, 0, 0, 0]"
    by (simp add: response_ok_def vmess_header_reader_new_def Let_def)
  from vmess_response_accepted [OF plain_aead_ok _ refl this, of "\<lambda>b. 64" "[RPending, RData (?w @ [9])]" "[9]"]
  show ?thesis by (auto simp: chunky_def)
qed

section \<open>Sharing and containers\<close>

text \<open>
  C24: the two halves of a split datagram stream never poll it at the same time: in every state that
  any interleaving of them reaches, at most one half is past the spin lock, the flag is set exactly
  while one is, and the polls made so far are what the same polls one after the other give.
\<close>
theorem split_halves_exclude:
  assumes "(half_step act)\<^sup>*\<^sup>* (split_start t) s"
  shows "(locked s \<longleftrightarrow> (\<exists>h. half_pc s h \<noteq> HalfIdle)) \<and>
    (\<forall>h h'. half_pc s h \<noteq> HalfIdle \<longrightarrow> half_pc s h' \<noteq> HalfIdle \<longrightarrow> h = h') \<and>
    replay act (map fst (poll_log s)) t = (poll_log s, split_stream s)"
  using half_steps_inv [OF assms split_inv_start] by (simp add: split_inv_def split_safe_def)

theorem split_halves_exclude_witness:
  "\<exists>s. (half_step (\<lambda>h n. (n, Suc n)))\<^sup>*\<^sup>* (split_start (0 :: nat)) s \<and> half_pc s ReadHalfExt = Holding \<and>
    half_pc s WriteHalfExt = HalfIdle"
proof -
  let ?act = "\<lambda>(h :: half) n. (n, Suc n)"
  let ?s = "(split_start (0 :: nat) :: (nat, nat) split)\<lparr>locked := True\<rparr>"
  have "half_step ?act (split_start 0) (?s\<lparr>half_pc := (half_pc ?s)(ReadHalfExt := Holding)\<rparr>)"
    by (rule half_step.lock) (simp_all add: split_start_def poll_lock_def)
  then have "(half_step ?act)\<^sup>*\<^sup>* (split_start 0) (?s\<lparr>half_pc := (half_pc ?s)(ReadHalfExt := Holding)\<rparr>)"
    by (rule r_into_rtranclp)
  moreover have "half_pc (?s\<lparr>half_pc := (half_pc ?s)(ReadHalfExt := Holding)\<rparr>) ReadHalfExt = Holding" by simp
  ultimately obtain s where s: "(half_step ?act)\<^sup>*\<^sup>* (split_start 0) s" "half_pc s ReadHalfExt = Holding"
    by blast
  from split_halves_exclude [OF s(1)] s(2) have "half_pc s WriteHalfExt = HalfIdle"
    by (metis half.distinct(1) half_pc.distinct(1))
  with s show ?thesis by blast
qed

text \<open>
  A half is never locked out for good: from every reachable state in which it is idle, there is
  a continuation in which it holds the lock.
\<close>
theorem split_half_served:
  assumes "(half_step act)\<^sup>*\<^sup>* (split_start t) s" and "half_pc s h = HalfIdle"
  shows "\<exists>s'. (half_step act)\<^sup>*\<^sup>* s s' \<and> half_pc s' h = Holding"
  using split_not_stuck [OF half_steps_inv [OF assms(1) split_inv_start] assms(2)] .

theorem split_half_served_witness:
  "\<exists>s'. (half_step (\<lambda>h n. (n, Suc n)))\<^sup>*\<^sup>* (split_start (0 :: nat)) s' \<and> half_pc s' WriteHalfExt = Holding"
  by (rule split_half_served [OF rtranclp.rtrancl_refl]) (simp add: split_start_def)

text \<open>
  Looking a key up for writing, or inserting it, keeps the insertion-ordered map well formed, and
  the order of its keys; an inserted key that is there already changes nothing.
\<close>
theorem ordered_map_operations:
  assumes "kmap_inv m"
  shows "kmap_inv (kmap_insert k v m) \<and>
    kdata (kmap_insert k v m) = (if k \<in> fst ` set (kdata m) then kdata m else kdata m @ [(k, v)]) \<and>
    (\<exists>m'. kmap_get_mut m k f = Ok m' \<and> kmap_inv m' \<and>
      kdata m' = map (\<lambda>(k', v). (k', if k' = k then f v else v)) (kdata m))"
  using kmap_get_mut_ok [OF assms] kmap_insert_inv [OF assms] kmap_member [OF assms, of k]
  by (auto simp: kmap_insert_def contains_key_def)

theorem ordered_map_operations_witness:
  "\<exists>m'. kmap_get_mut (kmap_insert ''b'' 2 (kmap_insert ''a'' (1 :: nat) kmap_new)) ''a'' Suc = Ok m' \<and>
    kdata m' = [(''a'', 2), (''b'', 2)]"
proof -
  have "kmap_inv (kmap_insert ''b'' 2 (kmap_insert ''a'' (1 :: nat) kmap_new))"
    by (intro kmap_insert_inv) (simp add: kmap_inv_def kmap_new_def)
  moreover have "kdata (kmap_insert ''b'' 2 (kmap_insert ''a'' (1 :: nat) kmap_new)) = [(''a'', 1), (''b'', 2)]"
    by (simp add: kmap_insert_def kmap_new_def contains_key_def)
  ultimately show ?thesis using ordered_map_operations [where f = Suc and k = "''a''"] by force
qed

section \<open>Boundary inputs\<close>

text \<open>
  The cursor reader panics on exactly these inputs: a domain name that fits and is followed by
  fewer than the two bytes of its port.
\<close>
theorem cursor_reader_panics:
  "read_from_cursor bs = Panic \<longleftrightarrow>
     2 \<le> length bs \<and> bs ! 0 = ADDR_TYPE_DOMAIN_NAME \<and>
     unat (bs ! 1) + 2 \<le> length bs \<and> length bs < unat (bs ! 1) + 4"
  by (simp add: read_from_cursor_Panic_iff truncated_port_def)

text \<open>
  An address the stream reader returns is one that can be sent: the name is text of at most 255
  bytes, an IPv6 address has no flow label and no scope; and the bytes consumed are its encoding.
\<close>
theorem stream_reader_well_formed:
  assumes "read_from_stream r = (Ok a, r')"
  shows "wire_ok a \<and> rx_bytes r = write_to_buf a [] @ rx_bytes r'"
  using read_from_stream_sound [OF assms] by (simp add: encode_address_def)

theorem stream_reader_well_formed_witness:
  "\<exists>a r'. read_from_stream [RData [1, 127], RPending, RData [0, 0, 1, 0], RData [80, 9]] = (Ok a, r') \<and>
    wire_ok a \<and> [1, 127, 0, 0, 1, 0, 80, 9] = write_to_buf a [] @ rx_bytes r'"
proof -
  let ?r = "[RData [1, 127], RPending, RData [0, 0, 1, 0], RData [80, 9]]"
  let ?a = "SocketAddress (SockV4 (Ipv4Addr 127 0 0 1) 80)"
  have "rx_bytes ?r = encode_address ?a @ [9]" by code_simp
  with read_from_stream_complete [of ?a ?r "[9]"] obtain a r' where r: "read_from_stream ?r = (Ok a, r')"
    by auto
  from stream_reader_well_formed [OF r] r show ?thesis by auto
qed

text \<open>
  The address in a VMess header is read back by the layout of the protocol: port, type, then the
  address, the domain name with its length before it.
\<close>
theorem vmess_address_roundtrip:
  assumes "wire_ok a"
  shows "decode_address_vmess (write_to_buf_vmess a [] @ r) = Ok (a, r)"
  using decode_encode_address_vmess [OF assms] by (simp add: encode_address_vmess_def)

theorem vmess_address_roundtrip_witness:
  "decode_address_vmess (write_to_buf_vmess (DomainNameAddress ''a.b'' 443) [] @ [9]) =
    Ok (DomainNameAddress ''a.b'' 443, [9])"
  by (rule vmess_address_roundtrip) simp

text \<open>
  The declared length of an address is the number of bytes the writer appends, and an address
  that can be sent takes between 4 and 259 of them.
\<close>
theorem address_size:
  "length (write_to_buf a buf) = length buf + serialized_len a \<and>
   4 \<le> serialized_len a \<and> (wire_ok a \<longrightarrow> serialized_len a \<le> 259)"
  by (simp add: write_to_buf_append length_encode_address serialized_len_bounds)

theorem address_size_witness:
  "length (write_to_buf (DomainNameAddress ''a.b'' 443) []) = 7 \<and>
   serialized_len (DomainNameAddress ''a.b'' 443) \<le> 259"
  using address_size [of "DomainNameAddress ''a.b'' 443" "[]"] by simp

text \<open>
  The password a Trojan connection sends is the lower-case hexadecimal rendering of its hash, 56
  bytes for the 28 of SHA-224.
\<close>
theorem trojan_password_hex:
  assumes "length (sha224 pw) = 28"
  shows "hex_password sha224 pw = concat (map hex_byte (sha224 pw)) \<and>
    length (hex_password sha224 pw) = HASH_STR_LEN"
proof -
  have "length (concat (map hex_byte xs)) = 2 * length xs" for xs by (induction xs) simp_all
  then show ?thesis using hex_password_eq [of sha224 pw, OF assms] assms by (simp add: HASH_STR_LEN_def)
qed

theorem trojan_password_hex_witness:
  "take 4 (hex_password (\<lambda>x. 0x1F # 0xA0 # replicate 26 0) [112]) = [49, 102, 97, 48]"
proof -
  have "hex_password (\<lambda>x. 0x1F # 0xA0 # replicate 26 0) [112] =
      concat (map hex_byte (0x1F # 0xA0 # replicate 26 0))"
    using trojan_password_hex [of "\<lambda>x. 0x1F # 0xA0 # replicate 26 0" "[112]"] by simp
  moreover have "take 4 (concat (map hex_byte (0x1F # 0xA0 # replicate 26 0))) = [49, 102, 97, 48]" by code_simp
  ultimately show ?thesis by simp
qed

text \<open>
  An empty datagram ends a Trojan writer: it is answered with zero bytes and nothing is sent, and
  every later datagram, whatever its payload, is refused with an end-of-file error.
\<close>
theorem empty_datagram_closes_writer:
  assumes "write_state t = AtStart"
  shows "\<exists>t'. trojan_poll_write (a, []) (t, w) = (Ready (Ok 0), t', w) \<and>
    (\<forall>p w'. trojan_poll_write p (t', w') = (Ready (Err (IoError UnexpectedEof '''')), t', w'))"
  using assms by (auto simp: trojan_poll_write_def)

theorem empty_datagram_closes_writer_witness:
  "\<exists>t'. trojan_poll_write (new_dummy_address, []) (trojan_writer_new, idle_writer []) =
      (Ready (Ok 0), t', idle_writer []) \<and>
    trojan_poll_write (new_dummy_address, [1]) (t', idle_writer []) =
      (Ready (Err (IoError UnexpectedEof '''')), t', idle_writer [])"
  using empty_datagram_closes_writer [of trojan_writer_new new_dummy_address "idle_writer []"]
  by (auto simp: trojan_writer_new_def)

end
